(* ===== verification/Sponge_Prelude.thy ===== *)
theory Sponge_Prelude
  imports Main "HOL-Library.Word" "HOL-Library.Product_Lexorder" "HOL-Library.List_Lexorder"
begin

text \<open>
  What every other theory shares: the C++ integer types as words of their width, byte
  strings (\<open>std::string\<close>) as lists of bytes, the exceptions the code throws as values,
  and the generic facts about words and lists that the component proofs rewrite with.
\<close>

section \<open>Machine types\<close>

type_synonym u8 = "8 word"
type_synonym u16 = "16 word"
type_synonym u32 = "32 word"
type_synonym u64 = "64 word"

type_synonym bytes = "u8 list"

text \<open>
  Exceptions are values. \<open>Undefined_Behaviour\<close> marks an access the C++ standard leaves
  undefined (front of an empty queue, index past the end of a vector); the safety theorems
  show that it is never returned from a well-formed state.
\<close>

datatype exn =
    Runtime_Error string
  | Invalid_Argument string
  | System_Error string int
  | Out_Of_Range string
  | Undefined_Behaviour string

text \<open>A call that may throw, and what follows it.\<close>

fun exn_bind :: "exn + 'a \<Rightarrow> ('a \<Rightarrow> exn + 'b) \<Rightarrow> exn + 'b" where
  "exn_bind (Inl e) f = Inl e"
| "exn_bind (Inr x) f = f x"

section \<open>Byte strings\<close>

text \<open>\<open>std::string::size\<close>, a 64-bit unsigned count.\<close>

definition str_size :: "bytes \<Rightarrow> u64" where
  "str_size s = of_nat (length s)"

text \<open>
  \<open>std::string::substr (pos, n)\<close> for a position inside the string: at most \<open>n\<close> bytes
  from \<open>pos\<close> on.
\<close>

definition substr :: "bytes \<Rightarrow> u64 \<Rightarrow> u64 \<Rightarrow> bytes" where
  "substr s pos n = take (unat n) (drop (unat pos) s)"

text \<open>\<open>std::string::resize\<close>: cut, or pad with zero bytes.\<close>

definition str_resize :: "bytes \<Rightarrow> u64 \<Rightarrow> bytes" where
  "str_resize s n = take (unat n) s @ replicate (unat n - length s) 0"

text \<open>
  The length of a string the library can hold: \<open>std::string::max_size\<close> is below \<open>2 ^ 63\<close>.
\<close>

definition str_ok :: "bytes \<Rightarrow> bool" where
  "str_ok s \<longleftrightarrow> length s < 2 ^ 63"

section \<open>Shared facts\<close>

named_theorems sponge_defs "definitions unfolded by the component proofs"

lemma unat_ucast_mod: "unat (ucast (x :: 'a::len word) :: 'b::len word) = unat x mod 2 ^ LENGTH('b)"
  by (simp add: unsigned_ucast_eq take_bit_eq_mod)

lemma unat_bound: "unat (x :: 'a::len word) < 2 ^ LENGTH('a)"
  by (rule unsigned_less)

lemma unat_u16_bound: "unat (x :: u16) < 65536"
  using unat_bound [of x] by simp

lemma unat_u32_bound: "unat (x :: u32) < 2 ^ 32"
  using unat_bound [of x] by simp

lemma unat_u64_bound: "unat (x :: u64) < 2 ^ 64"
  using unat_bound [of x] by simp

text \<open>Sums and differences that do not wrap.\<close>

lemma unat_add_no_wrap: "unat a + unat b < 2 ^ LENGTH('a) \<Longrightarrow> unat (a + b :: 'a::len word) = unat a + unat b"
  by (simp add: unat_word_ariths)

lemma unat_diff_no_wrap: "unat b \<le> unat a \<Longrightarrow> unat (a - b :: 'a::len word) = unat a - unat b"
  by (simp add: word_le_nat_alt unat_sub)

lemma unat_str_size: "length s < 2 ^ 64 \<Longrightarrow> unat (str_size s) = length s"
  by (simp add: str_size_def unat_of_nat)

lemma unat_str_size_ok [simp]: "str_ok s \<Longrightarrow> unat (str_size s) = length s"
  by (simp add: str_ok_def unat_str_size)

lemma str_ok_parts [simp]: "str_ok []" "str_ok s \<Longrightarrow> str_ok (drop n s)" "str_ok s \<Longrightarrow> str_ok (take n s)"
  by (simp_all add: str_ok_def)

lemma str_ok_append: "str_ok (s @ t) \<Longrightarrow> str_ok s \<and> str_ok t"
  by (simp add: str_ok_def)

lemma str_size_append: "str_size (s @ t) = str_size s + str_size t"
  by (simp add: str_size_def)

lemma str_size_drop:
  "str_ok s \<Longrightarrow> unat n \<le> length s \<Longrightarrow> str_size (drop (unat n) s) = str_size s - n"
  by (simp add: word_unat_eq_iff unat_diff_no_wrap)

text \<open>Evaluation of \<open>substr\<close> with a huge count, without building the count as a unary number.\<close>

lemma substr_code [code]:
  "substr s pos n =
    (let t = drop (unat pos) s in if int (length t) \<le> uint n then t else take (unat n) t)"
proof (cases "int (length (drop (unat pos) s)) \<le> uint n")
  case True
  then have "length (drop (unat pos) s) \<le> unat n" by (metis nat_int nat_mono unat_eq_nat_uint)
  with True show ?thesis by (simp add: substr_def Let_def)
next
  case False
  then show ?thesis by (simp add: substr_def Let_def)
qed

lemma str_size_Nil [simp]: "str_size [] = 0"
  by (simp add: str_size_def)

lemma unat_str_size_le: "unat (str_size s) \<le> length s"
  by (simp add: str_size_def unat_of_nat)

section \<open>Sections of a byte stream\<close>

definition substream :: "'a list \<Rightarrow> nat \<Rightarrow> nat \<Rightarrow> 'a list" where
  "substream S i n = take n (drop i S)"

lemma length_substream: "i + n \<le> length S \<Longrightarrow> length (substream S i n) = n"
  by (simp add: substream_def)

lemma take_append_substream:
  "i \<le> n \<Longrightarrow> n \<le> i + l \<Longrightarrow> take n S @ drop (n - i) (substream S i l) = take (i + l) S"
  by (simp add: substream_def drop_take) (metis le_add_diff_inverse take_add add.commute Nat.add_diff_assoc2 diff_add_inverse2)

lemma substream_take: "k \<le> n \<Longrightarrow> take k (substream S i n) = substream S i k"
  by (simp add: substream_def min_absorb1)

end
