(* ===== verification/Net_Buffer.thy ===== *)
theory Net_Buffer
  imports Sponge_Prelude
begin

text \<open>
  Packet memory: \<open>Buffer\<close>, \<open>BufferList\<close> and \<open>BufferViewList\<close> (util/buffer.hh, util/buffer.cc).

  A \<open>Buffer\<close> is a shared read-only string with an offset. Nothing ever writes through the shared
  pointer, so the storage is a value here. A \<open>BufferList\<close> is a queue of buffers and a
  \<open>BufferViewList\<close> a queue of string views. All three can discard a prefix, which throws when the
  prefix is too long; the shared contract is the locale \<open>byte_container\<close>, interpreted for each.
\<close>

section \<open>Buffer\<close>

record buffer =
  buf_storage :: "bytes option"
  buf_starting_offset :: u64

definition Buffer0 :: buffer where
  "Buffer0 = \<lparr>buf_storage = None, buf_starting_offset = 0\<rparr>"

definition Buffer :: "bytes \<Rightarrow> buffer" where
  "Buffer s = \<lparr>buf_storage = Some s, buf_starting_offset = 0\<rparr>"

definition buf_str :: "buffer \<Rightarrow> bytes" where
  "buf_str b = (case buf_storage b of None \<Rightarrow> [] | Some s \<Rightarrow> drop (unat (buf_starting_offset b)) s)"

definition buf_size :: "buffer \<Rightarrow> u64" where
  "buf_size b = str_size (buf_str b)"

definition buf_copy :: "buffer \<Rightarrow> bytes" where
  "buf_copy b = buf_str b"

text \<open>
  \<open>at\<close> and \<open>remove_prefix\<close> throw out of range; \<open>buf_get\<close> and \<open>buf_drop\<close> are what they do otherwise.
\<close>

definition buf_get :: "buffer \<Rightarrow> u64 \<Rightarrow> u8" where
  "buf_get b n = buf_str b ! unat n"

definition buf_at :: "buffer \<Rightarrow> u64 \<Rightarrow> exn + u8" where
  "buf_at b n = (if n < buf_size b then Inr (buf_get b n) else Inl (Out_Of_Range ''string_view::at''))"

definition buf_drop :: "buffer \<Rightarrow> u64 \<Rightarrow> buffer" where
  "buf_drop b n =
    (let off = buf_starting_offset b + n in
     case buf_storage b of
       None \<Rightarrow> b\<lparr>buf_starting_offset := off\<rparr>
     | Some s \<Rightarrow> if off = str_size s then \<lparr>buf_storage = None, buf_starting_offset = off\<rparr>
                 else b\<lparr>buf_starting_offset := off\<rparr>)"

definition buf_remove_prefix :: "buffer \<Rightarrow> u64 \<Rightarrow> buffer \<times> (exn + unit)" where
  "buf_remove_prefix b n =
    (if n > buf_size b then (b, Inl (Out_Of_Range ''Buffer::remove_prefix''))
     else (buf_drop b n, Inr ()))"

section \<open>BufferList\<close>

type_synonym buffer_list = "buffer list"

definition BufferList :: "bytes \<Rightarrow> buffer_list" where
  "BufferList s = [Buffer s]"

definition bl_append :: "buffer_list \<Rightarrow> buffer_list \<Rightarrow> buffer_list" where
  "bl_append bl other = bl @ other"

definition bl_to_buffer :: "buffer_list \<Rightarrow> exn + buffer" where
  "bl_to_buffer bl =
    (case bl of
       [] \<Rightarrow> Inr Buffer0
     | [b] \<Rightarrow> Inr b
     | _ \<Rightarrow> Inl (Runtime_Error
         ''BufferList: please use concatenate() to combine a multi-Buffer BufferList into one Buffer''))"

definition bl_concatenate :: "buffer_list \<Rightarrow> bytes" where
  "bl_concatenate bl = concat (map buf_str bl)"

definition bl_size :: "buffer_list \<Rightarrow> u64" where
  "bl_size bl = fold (\<lambda>b ret. ret + buf_size b) bl 0"

fun bl_remove_prefix :: "buffer_list \<Rightarrow> u64 \<Rightarrow> buffer_list \<times> (exn + unit)" where
  "bl_remove_prefix [] n =
    (if n > 0 then ([], Inl (Out_Of_Range ''BufferList::remove_prefix'')) else ([], Inr ()))"
| "bl_remove_prefix (b # bl) n =
    (if n > 0
     then if n < buf_size b
          then (case buf_remove_prefix b n of
                  (b', Inr _) \<Rightarrow> (b' # bl, Inr ())
                | (b', Inl e) \<Rightarrow> (b' # bl, Inl e))
          else bl_remove_prefix bl (n - buf_size b)
     else (b # bl, Inr ()))"

section \<open>BufferViewList\<close>

type_synonym buffer_view_list = "bytes list"

definition BufferViewList :: "bytes \<Rightarrow> buffer_view_list" where
  "BufferViewList s = [s]"

definition bvl_of_list :: "buffer_list \<Rightarrow> buffer_view_list" where
  "bvl_of_list bl = map buf_str bl"

definition bvl_size :: "buffer_view_list \<Rightarrow> u64" where
  "bvl_size vl = fold (\<lambda>v ret. ret + str_size v) vl 0"

fun bvl_remove_prefix :: "buffer_view_list \<Rightarrow> u64 \<Rightarrow> buffer_view_list \<times> (exn + unit)" where
  "bvl_remove_prefix [] n =
    (if n > 0 then ([], Inl (Out_Of_Range ''BufferListView::remove_prefix'')) else ([], Inr ()))"
| "bvl_remove_prefix (v # vl) n =
    (if n > 0
     then if n < str_size v
          then (drop (unat n) v # vl, Inr ())
          else bvl_remove_prefix vl (n - str_size v)
     else (v # vl, Inr ()))"

text \<open>An \<open>iovec\<close> is the memory a view points to, with the length the system call is given.\<close>

definition bvl_as_iovecs :: "buffer_view_list \<Rightarrow> (bytes \<times> u64) list" where
  "bvl_as_iovecs vl = map (\<lambda>x. (x, str_size x)) vl"

section \<open>The shared contract\<close>

text \<open>
  A container of bytes reports its size, and discards a prefix or throws. What a client may rely on
  is stated over the content only.
\<close>

locale byte_container =
  fixes content :: "'s \<Rightarrow> bytes"
    and size_of :: "'s \<Rightarrow> u64"
    and discard :: "'s \<Rightarrow> u64 \<Rightarrow> 's \<times> (exn + unit)"
    and valid :: "'s \<Rightarrow> bool"
  assumes valid_size: "valid s \<Longrightarrow> str_ok (content s)"
    and size_of: "valid s \<Longrightarrow> size_of s = str_size (content s)"
    and discard_ok: "valid s \<Longrightarrow> unat n \<le> length (content s) \<Longrightarrow>
      snd (discard s n) = Inr () \<and> valid (fst (discard s n)) \<and>
      content (fst (discard s n)) = drop (unat n) (content s)"
    and discard_throws: "valid s \<Longrightarrow> length (content s) < unat n \<Longrightarrow>
      \<exists>what. snd (discard s n) = Inl (Out_Of_Range what)"
begin

lemma discard_throws_iff:
  "valid s \<Longrightarrow> (\<exists>e. snd (discard s n) = Inl e) \<longleftrightarrow> n > size_of s"
  using discard_ok [of s n] discard_throws [of s n] valid_size [of s]
  by (cases "unat n \<le> length (content s)") (auto simp: size_of word_less_nat_alt)

lemma discard_size:
  "valid s \<Longrightarrow> unat n \<le> length (content s) \<Longrightarrow> size_of (fst (discard s n)) = size_of s - n"
  using discard_ok [of s n] valid_size [of s] by (simp add: size_of str_size_drop)

lemma discard_discard:
  assumes "valid s" and "unat n + unat m \<le> length (content s)"
  shows "content (fst (discard (fst (discard s n)) m)) = drop (unat (n + m)) (content s)"
proof -
  have "unat (n + m) = unat n + unat m"
    using assms valid_size [of s] by (intro unat_add_no_wrap) (simp add: str_ok_def)
  then show ?thesis
    using assms discard_ok [of s n] discard_ok [of "fst (discard s n)" m] by (simp add: add.commute)
qed

end

subsection \<open>Buffer\<close>

definition buf_ok :: "buffer \<Rightarrow> bool" where
  "buf_ok b \<longleftrightarrow> (case buf_storage b of None \<Rightarrow> True
     | Some s \<Rightarrow> str_ok s \<and> unat (buf_starting_offset b) \<le> length s)"

lemma buf_str_Buffer [simp]: "buf_str (Buffer s) = s" "buf_str Buffer0 = []"
  by (simp_all add: buf_str_def Buffer_def Buffer0_def)

lemma buf_ok_Buffer [simp]: "buf_ok (Buffer s) = str_ok s" "buf_ok Buffer0"
  by (simp_all add: buf_ok_def Buffer_def Buffer0_def)

lemma buf_ok_str: "buf_ok b \<Longrightarrow> str_ok (buf_str b)"
  by (auto simp: buf_ok_def buf_str_def split: option.splits)

lemma buf_size_nat [simp]: "buf_ok b \<Longrightarrow> unat (buf_size b) = length (buf_str b)"
  by (simp add: buf_size_def buf_ok_str)

lemma buf_drop_spec:
  assumes "buf_ok b" and "unat n \<le> length (buf_str b)"
  shows "buf_str (buf_drop b n) = drop (unat n) (buf_str b) \<and> buf_ok (buf_drop b n)"
proof (cases "buf_storage b")
  case None
  then show ?thesis by (simp add: buf_drop_def buf_str_def buf_ok_def)
next
  case (Some s)
  then have s: "str_ok s" "unat (buf_starting_offset b) + unat n \<le> length s"
    using assms by (auto simp: buf_ok_def buf_str_def)
  then have off: "unat (buf_starting_offset b + n) = unat (buf_starting_offset b) + unat n"
    by (intro unat_add_no_wrap) (simp add: str_ok_def)
  show ?thesis
    using Some s off by (auto simp: buf_drop_def buf_str_def buf_ok_def Let_def word_unat_eq_iff add.commute)
qed

interpretation bufc: byte_container buf_str buf_size buf_remove_prefix buf_ok
proof
  fix b n assume ok: "buf_ok b"
  show "str_ok (buf_str b)" using ok by (rule buf_ok_str)
  show "buf_size b = str_size (buf_str b)" by (simp add: buf_size_def)
  show "snd (buf_remove_prefix b n) = Inr () \<and> buf_ok (fst (buf_remove_prefix b n)) \<and>
      buf_str (fst (buf_remove_prefix b n)) = drop (unat n) (buf_str b)" if "unat n \<le> length (buf_str b)"
    using ok that buf_drop_spec [OF ok that] by (simp add: buf_remove_prefix_def word_less_nat_alt)
  show "\<exists>what. snd (buf_remove_prefix b n) = Inl (Out_Of_Range what)" if "length (buf_str b) < unat n"
    using ok that by (simp add: buf_remove_prefix_def word_less_nat_alt)
qed

subsection \<open>BufferList\<close>

definition bl_ok :: "buffer_list \<Rightarrow> bool" where
  "bl_ok bl \<longleftrightarrow> list_all buf_ok bl \<and> str_ok (bl_concatenate bl)"

lemma bl_ok_Cons: "bl_ok (b # bl) \<Longrightarrow> buf_ok b \<and> bl_ok bl"
  by (simp add: bl_ok_def bl_concatenate_def str_ok_def)

lemma bl_concatenate_simps [simp]:
  "bl_concatenate [] = []" "bl_concatenate (b # bl) = buf_str b @ bl_concatenate bl"
  by (simp_all add: bl_concatenate_def)

lemma bl_concatenate_append: "bl_concatenate (bl_append xs ys) = bl_concatenate xs @ bl_concatenate ys"
  by (simp add: bl_concatenate_def bl_append_def)

lemma fold_str_size: "fold (\<lambda>v ret. ret + str_size v) vs n = n + str_size (concat vs)"
  by (induction vs arbitrary: n) (simp_all add: str_size_append add.assoc)

lemma bl_size_concatenate: "bl_size bl = str_size (bl_concatenate bl)"
  using fold_str_size [of "map buf_str bl" 0]
  by (simp add: bl_size_def bl_concatenate_def buf_size_def fold_map comp_def)

lemma bl_remove_prefix_ok:
  "bl_ok bl \<Longrightarrow> unat n \<le> length (bl_concatenate bl) \<Longrightarrow>
   snd (bl_remove_prefix bl n) = Inr () \<and> bl_ok (fst (bl_remove_prefix bl n)) \<and>
   bl_concatenate (fst (bl_remove_prefix bl n)) = drop (unat n) (bl_concatenate bl)"
proof (induction bl n rule: bl_remove_prefix.induct)
  case (1 n)
  then show ?case by (simp add: word_less_nat_alt)
next
  case (2 b bl n)
  have ok: "buf_ok b" "bl_ok bl" using bl_ok_Cons [OF 2(2)] by simp_all
  consider "n = 0" | "0 < n" "n < buf_size b" | "0 < n" "\<not> n < buf_size b" by (cases "n = 0") (auto simp: word_gt_0)
  then show ?case
  proof cases
    case 1
    then show ?thesis using 2(2) by simp
  next
    case 2
    then have le: "unat n \<le> length (buf_str b)" using ok by (simp add: word_less_nat_alt)
    then have "snd (buf_remove_prefix b n) = Inr ()" "buf_ok (fst (buf_remove_prefix b n))"
      "buf_str (fst (buf_remove_prefix b n)) = drop (unat n) (buf_str b)"
      using bufc.discard_ok [OF ok(1) le] by simp_all
    then show ?thesis
      using 2 le \<open>bl_ok (b # bl)\<close>
      by (cases "buf_remove_prefix b n") (auto simp: bl_ok_def str_ok_def)
  next
    case 3
    then have le: "length (buf_str b) \<le> unat n" using ok by (simp add: word_less_nat_alt)
    then have "unat (n - buf_size b) = unat n - length (buf_str b)"
      using ok by (simp add: unat_diff_no_wrap)
    then show ?thesis using 2(1) [OF 3 ok(2)] 2(3) 3 le by simp
  qed
qed

lemma bl_remove_prefix_throws:
  "bl_ok bl \<Longrightarrow> length (bl_concatenate bl) < unat n \<Longrightarrow>
   bl_remove_prefix bl n = ([], Inl (Out_Of_Range ''BufferList::remove_prefix''))"
proof (induction bl n rule: bl_remove_prefix.induct)
  case (1 n)
  then show ?case by (simp add: word_less_nat_alt)
next
  case (2 b bl n)
  have ok: "buf_ok b" "bl_ok bl" using bl_ok_Cons [OF 2(2)] by simp_all
  have n: "0 < n" "\<not> n < buf_size b" using 2(3) ok by (auto simp: word_less_nat_alt)
  then have "unat (n - buf_size b) = unat n - length (buf_str b)"
    using ok by (simp add: unat_diff_no_wrap word_less_nat_alt)
  then show ?case using 2(1) [OF n ok(2)] 2(3) n by simp
qed

interpretation blc: byte_container bl_concatenate bl_size bl_remove_prefix bl_ok
  by unfold_locales
    (simp_all add: bl_remove_prefix_ok bl_remove_prefix_throws bl_size_concatenate, simp add: bl_ok_def)

subsection \<open>BufferViewList\<close>

definition bvl_ok :: "buffer_view_list \<Rightarrow> bool" where
  "bvl_ok vl \<longleftrightarrow> str_ok (concat vl)"

lemma bvl_ok_Cons: "bvl_ok (v # vl) \<Longrightarrow> str_ok v \<and> bvl_ok vl"
  by (simp add: bvl_ok_def str_ok_def)

lemma bvl_remove_prefix_ok:
  "bvl_ok vl \<Longrightarrow> unat n \<le> length (concat vl) \<Longrightarrow>
   snd (bvl_remove_prefix vl n) = Inr () \<and> bvl_ok (fst (bvl_remove_prefix vl n)) \<and>
   concat (fst (bvl_remove_prefix vl n)) = drop (unat n) (concat vl)"
proof (induction vl n rule: bvl_remove_prefix.induct)
  case (1 n)
  then show ?case by (simp add: word_less_nat_alt)
next
  case (2 v vl n)
  have ok: "str_ok v" "bvl_ok vl" using bvl_ok_Cons [OF 2(2)] by simp_all
  show ?case
  proof (cases "0 < n \<and> \<not> n < str_size v")
    case True
    then have "unat (n - str_size v) = unat n - length v" "length v \<le> unat n"
      using ok by (simp_all add: unat_diff_no_wrap word_less_nat_alt)
    then show ?thesis using 2(1) [OF _ _ ok(2)] 2(3) True by simp
  next
    case False
    then show ?thesis
      using 2(2) ok by (auto simp: bvl_ok_def str_ok_def word_less_nat_alt unat_str_size)
  qed
qed

lemma bvl_remove_prefix_throws:
  "bvl_ok vl \<Longrightarrow> length (concat vl) < unat n \<Longrightarrow>
   bvl_remove_prefix vl n = ([], Inl (Out_Of_Range ''BufferListView::remove_prefix''))"
proof (induction vl n rule: bvl_remove_prefix.induct)
  case (1 n)
  then show ?case by (simp add: word_less_nat_alt)
next
  case (2 v vl n)
  have ok: "str_ok v" "bvl_ok vl" using bvl_ok_Cons [OF 2(2)] by simp_all
  have n: "0 < n" "\<not> n < str_size v" using 2(3) ok by (auto simp: word_less_nat_alt)
  then have "unat (n - str_size v) = unat n - length v"
    using ok by (simp add: unat_diff_no_wrap word_less_nat_alt)
  then show ?case using 2(1) [OF n ok(2)] 2(3) n by simp
qed

interpretation bvlc: byte_container concat bvl_size bvl_remove_prefix bvl_ok
  by unfold_locales
    (simp_all add: bvl_remove_prefix_ok bvl_remove_prefix_throws bvl_size_def fold_str_size,
     simp add: bvl_ok_def)

text \<open>The gather list of a system call carries exactly the bytes of the views.\<close>

lemma bvl_as_iovecs_content: "concat (map fst (bvl_as_iovecs vl)) = concat vl"
  by (simp add: bvl_as_iovecs_def comp_def)

section \<open>Properties\<close>

text \<open>
  Discarding a prefix of a \<open>BufferList\<close> that spans any number of buffers either leaves exactly
  the remaining bytes, or throws, and it throws exactly when the prefix is longer than the list.
\<close>

theorem bl_remove_prefix_spec:
  assumes "bl_ok bl"
  shows "(if n > bl_size bl
      then bl_remove_prefix bl n = ([], Inl (Out_Of_Range ''BufferList::remove_prefix''))
      else snd (bl_remove_prefix bl n) = Inr () \<and>
        bl_concatenate (fst (bl_remove_prefix bl n)) = drop (unat n) (bl_concatenate bl) \<and>
        bl_size (fst (bl_remove_prefix bl n)) = bl_size bl - n)"
proof -
  have "unat (bl_size bl) = length (bl_concatenate bl)"
    using assms by (simp add: bl_size_concatenate blc.valid_size)
  then show ?thesis
    using assms bl_remove_prefix_ok [of bl n] bl_remove_prefix_throws [of bl n] blc.discard_size [of bl n]
    by (auto simp: word_less_nat_alt)
qed

theorem bl_remove_prefix_spec_witness:
  "bl_concatenate (fst (bl_remove_prefix [Buffer [1, 2], Buffer [], Buffer [3, 4, 5]] 3)) = [4, 5]"
proof -
  have "bl_ok [Buffer [1, 2], Buffer [], Buffer [3, 4, 5]]" by (simp add: bl_ok_def str_ok_def)
  from bl_remove_prefix_spec [OF this, of 3] show ?thesis by (simp add: bl_size_concatenate str_size_def)
qed

end
