(* ===== verification/Net_Parser.thy ===== *)
theory Net_Parser
  imports Net_Buffer
begin

text \<open>
  \<open>NetParser\<close> and \<open>NetUnparser\<close> (util/parser.hh, util/parser.cc): reading and writing integers in
  network byte order, with the parser's sticky error.

  The locale \<open>field_codec\<close> is the contract the header parsers rely on (what a read returns after the
  matching write, and what it does on a short buffer); it is interpreted for the 8-, 16- and 32-bit
  fields.
\<close>

unbundle bit_operations_syntax

section \<open>Parse results\<close>

datatype parse_result =
    NoError | BadChecksum | PacketTooShort | WrongIPVersion | HeaderTooShort | TruncatedPacket | Unsupported

text \<open>The table of names has six entries, so the last enumerator reads past its end.\<close>

fun as_string :: "parse_result \<Rightarrow> exn + string" where
  "as_string NoError = Inr ''NoError''"
| "as_string BadChecksum = Inr ''BadChecksum''"
| "as_string PacketTooShort = Inr ''PacketTooShort''"
| "as_string WrongIPVersion = Inr ''WrongIPVersion''"
| "as_string HeaderTooShort = Inr ''HeaderTooShort''"
| "as_string TruncatedPacket = Inr ''TruncatedPacket''"
| "as_string Unsupported = Inl (Undefined_Behaviour ''_names[6]'')"

section \<open>NetParser\<close>

record net_parser =
  np_buffer :: buffer
  np_error_code :: parse_result

definition NetParser :: "buffer \<Rightarrow> net_parser" where
  "NetParser b = \<lparr>np_buffer = b, np_error_code = NoError\<rparr>"

definition np_get_error :: "net_parser \<Rightarrow> parse_result" where
  "np_get_error p = np_error_code p"

definition np_set_error :: "net_parser \<Rightarrow> parse_result \<Rightarrow> net_parser" where
  "np_set_error p r = p\<lparr>np_error_code := r\<rparr>"

definition np_error :: "net_parser \<Rightarrow> bool" where
  "np_error p \<longleftrightarrow> np_get_error p \<noteq> NoError"

definition np_check_size :: "net_parser \<Rightarrow> u64 \<Rightarrow> net_parser" where
  "np_check_size p n = (if n > buf_size (np_buffer p) then np_set_error p PacketTooShort else p)"

text \<open>
  \<open>_parse_int\<close> for a type of \<open>len\<close> bytes. The calls to \<open>at\<close> and \<open>remove_prefix\<close> come after the size
  check, so they do not throw (\<open>np_check_size_sound\<close>); what they do otherwise is \<open>buf_get\<close> and
  \<open>buf_drop\<close>.
\<close>

definition np_parse_int :: "nat \<Rightarrow> net_parser \<Rightarrow> 'a::len word \<times> net_parser" where
  "np_parse_int len p =
    (let p = np_check_size p (of_nat len) in
     if np_error p then (0, p)
     else (fold (\<lambda>i ret. push_bit 8 ret + ucast (buf_get (np_buffer p) (of_nat i))) [0..<len] 0,
           p\<lparr>np_buffer := buf_drop (np_buffer p) (of_nat len)\<rparr>))"

definition np_u32 :: "net_parser \<Rightarrow> u32 \<times> net_parser" where
  "np_u32 = np_parse_int 4"

definition np_u16 :: "net_parser \<Rightarrow> u16 \<times> net_parser" where
  "np_u16 = np_parse_int 2"

definition np_u8 :: "net_parser \<Rightarrow> u8 \<times> net_parser" where
  "np_u8 = np_parse_int 1"

definition np_remove_prefix :: "net_parser \<Rightarrow> u64 \<Rightarrow> net_parser" where
  "np_remove_prefix p n =
    (let p = np_check_size p n in
     if np_error p then p else p\<lparr>np_buffer := buf_drop (np_buffer p) n\<rparr>)"

section \<open>NetUnparser\<close>

definition nu_unparse_int :: "nat \<Rightarrow> bytes \<Rightarrow> 'a::len word \<Rightarrow> bytes" where
  "nu_unparse_int len s val =
    fold (\<lambda>i s. s @ [ucast (drop_bit ((len - i - 1) * 8) val AND 0xff)]) [0..<len] s"

definition nu_u32 :: "bytes \<Rightarrow> u32 \<Rightarrow> bytes" where
  "nu_u32 = nu_unparse_int 4"

definition nu_u16 :: "bytes \<Rightarrow> u16 \<Rightarrow> bytes" where
  "nu_u16 = nu_unparse_int 2"

definition nu_u8 :: "bytes \<Rightarrow> u8 \<Rightarrow> bytes" where
  "nu_u8 = nu_unparse_int 1"

section \<open>Reading at a position\<close>

text \<open>
  Big-endian value of a byte string, and a parser advanced by \<open>n\<close> bytes. Every read of a parser that
  has no error and enough bytes is a value of the bytes in front of it, followed by an advance.
\<close>

definition be_int :: "bytes \<Rightarrow> 'a::len word" where
  "be_int s = fold (\<lambda>b ret. push_bit 8 ret + ucast b) s 0"

definition be_bytes :: "nat \<Rightarrow> 'a::len word \<Rightarrow> bytes" where
  "be_bytes len val = map (\<lambda>i. ucast (drop_bit ((len - i - 1) * 8) val AND 0xff)) [0..<len]"

definition np_ok :: "net_parser \<Rightarrow> bool" where
  "np_ok p \<longleftrightarrow> buf_ok (np_buffer p) \<and> np_error_code p = NoError"

definition np_rest :: "net_parser \<Rightarrow> bytes" where
  "np_rest p = buf_str (np_buffer p)"

definition np_adv :: "net_parser \<Rightarrow> nat \<Rightarrow> net_parser" where
  "np_adv p n = p\<lparr>np_buffer := buf_drop (np_buffer p) (of_nat n)\<rparr>"

lemma np_ok_NetParser [simp]: "np_ok (NetParser b) = buf_ok b" "np_rest (NetParser b) = buf_str b"
  by (simp_all add: np_ok_def NetParser_def np_rest_def)

lemma np_no_error [simp]: "np_ok p \<Longrightarrow> \<not> np_error p" "np_ok p \<Longrightarrow> np_get_error p = NoError"
  by (simp_all add: np_ok_def np_error_def np_get_error_def)

lemma unat_of_nat_small: "n < 2 ^ 63 \<Longrightarrow> unat (of_nat n :: u64) = n"
  by (simp add: unat_of_nat)

lemma np_rest_bound: "np_ok p \<Longrightarrow> n \<le> length (np_rest p) \<Longrightarrow> unat (of_nat n :: u64) = n"
  using buf_ok_str [of "np_buffer p"] by (simp add: np_ok_def np_rest_def str_ok_def unat_of_nat_small)

lemma np_adv_spec [simp]:
  assumes "np_ok p" and "n \<le> length (np_rest p)"
  shows "np_ok (np_adv p n)" "np_rest (np_adv p n) = drop n (np_rest p)"
  using assms buf_drop_spec [of "np_buffer p" "of_nat n"] np_rest_bound [OF assms]
  by (simp_all add: np_ok_def np_rest_def np_adv_def)

lemma np_check_size_sound:
  assumes "buf_ok (np_buffer p)" and "\<not> np_error (np_check_size p n)"
  shows "np_check_size p n = p" and "np_ok p" and "unat n \<le> length (np_rest p)"
    and "i < n \<Longrightarrow> buf_at (np_buffer p) i = Inr (buf_get (np_buffer p) i)"
    and "buf_remove_prefix (np_buffer p) n = (buf_drop (np_buffer p) n, Inr ())"
  using assms
  by (auto simp: np_check_size_def np_error_def np_get_error_def np_set_error_def np_ok_def np_rest_def
      buf_at_def buf_remove_prefix_def word_less_nat_alt split: if_splits)

lemma np_check_size_ok: "np_ok p \<Longrightarrow> unat n \<le> length (np_rest p) \<Longrightarrow> np_check_size p n = p"
  by (simp add: np_check_size_def word_less_nat_alt np_ok_def np_rest_def)

lemma np_check_size_short:
  "np_ok p \<Longrightarrow> length (np_rest p) < unat n \<Longrightarrow> np_check_size p n = np_set_error p PacketTooShort"
  by (simp add: np_check_size_def word_less_nat_alt np_ok_def np_rest_def)

lemma fold_upt_nth: "k \<le> length s \<Longrightarrow> fold (\<lambda>i. f (s ! i)) [0..<k] a = fold f (take k s) a"
  by (induction k) (simp_all add: take_Suc_conv_app_nth)

lemma np_parse_int_ok:
  assumes "np_ok p" and "len \<le> length (np_rest p)"
  shows "np_parse_int len p = (be_int (take len (np_rest p)), np_adv p len)"
proof -
  have eq: "buf_get (np_buffer p) (of_nat i) = np_rest p ! i" if "i < len" for i
    using that assms np_rest_bound [of p i] by (simp add: buf_get_def np_rest_def)
  have "fold (\<lambda>i ret. push_bit 8 ret + ucast (buf_get (np_buffer p) (of_nat i))) [0..<len] 0
      = fold (\<lambda>i ret. push_bit 8 ret + ucast (np_rest p ! i)) [0..<len] (0 :: 'a word)"
    by (rule fold_cong) (simp_all add: eq)
  then show ?thesis
    using assms np_check_size_ok [of p "of_nat len"] np_rest_bound [of p len]
    by (simp add: np_parse_int_def be_int_def np_adv_def fold_upt_nth
        [of _ _ "\<lambda>b ret. push_bit 8 ret + ucast b"])
qed

lemma np_parse_int_short:
  assumes "np_ok p" and "length (np_rest p) < len" and "len < 2 ^ 63"
  shows "np_parse_int len p = (0, np_set_error p PacketTooShort)"
  using assms np_check_size_short [of p "of_nat len"] unat_of_nat_small [of len]
  by (simp add: np_parse_int_def np_error_def np_get_error_def np_set_error_def)

lemma np_remove_prefix_ok:
  "np_ok p \<Longrightarrow> unat n \<le> length (np_rest p) \<Longrightarrow> np_remove_prefix p n = np_adv p (unat n)"
  by (simp add: np_remove_prefix_def np_check_size_ok np_adv_def)

lemma nu_unparse_int_append: "nu_unparse_int len s val = s @ be_bytes len val"
proof -
  have "fold (\<lambda>i s. s @ [f i]) xs s = s @ map f xs" for f :: "nat \<Rightarrow> u8" and xs s
    by (induction xs arbitrary: s) simp_all
  then show ?thesis by (simp add: nu_unparse_int_def be_bytes_def)
qed

section \<open>Bytes of an integer\<close>

lemma ucast_and_255: "ucast (x AND 0xff) = (ucast (x :: 'a::len word) :: u8)"
proof (rule bit_word_eqI)
  have mask: "(0xff :: 'a word) = mask 8" by (simp add: mask_eq_exp_minus_1)
  show "bit (ucast (x AND 0xff) :: u8) n = bit (ucast x :: u8) n" if "n < LENGTH(8)" for n
    using that bit_imp_le_length [of x n] by (auto simp: mask bit_simps)
qed

lemma be_bytes_expand:
  "be_bytes 4 (v :: u32) = [ucast (drop_bit 24 v), ucast (drop_bit 16 v), ucast (drop_bit 8 v), ucast v]"
  "be_bytes 2 (w :: u16) = [ucast (drop_bit 8 w), ucast w]"
  "be_bytes 1 (b :: u8) = [b]"
  by (simp_all add: be_bytes_def upt_rec ucast_and_255 ucast_and_255 [where 'a = 8, simplified])

lemma be_int_expand:
  "be_int [a] = ucast a"
  "be_int [a, b] = push_bit 8 (ucast a) + ucast b"
  "be_int [a, b, c, d] = push_bit 8 (push_bit 8 (push_bit 8 (ucast a) + ucast b) + ucast c) + ucast d"
  by (simp_all add: be_int_def)

lemma unat_byte: "unat (ucast (b :: u8) :: 'a::len word) = unat b mod 2 ^ LENGTH('a)"
  by (rule unat_ucast_mod)

lemma unat_u8_bound: "unat (b :: u8) < 256"
  using unat_bound [of b] by simp

lemma unat_be_int2: "unat (be_int [a, b] :: u16) = 256 * unat a + unat b"
  using unat_u8_bound [of a] unat_u8_bound [of b]
  by (simp add: be_int_expand push_bit_eq_mult unat_word_ariths unat_ucast_mod)

lemma unat_be_int4: "unat (be_int [a, b, c, d] :: u32) = ((unat a * 256 + unat b) * 256 + unat c) * 256 + unat d"
  using unat_u8_bound [of a] unat_u8_bound [of b] unat_u8_bound [of c] unat_u8_bound [of d]
  by (simp add: be_int_expand push_bit_eq_mult unat_word_ariths unat_ucast_mod)

lemma unat_drop_bit: "unat (drop_bit k (v :: 'a::len word)) = unat v div 2 ^ k"
  by (simp only: unsigned_drop_bit_eq) (simp add: drop_bit_eq_div take_bit_nat_eq_self)

lemma base256_4:
  fixes n :: nat
  assumes "n < 2 ^ 32"
  shows "((n div 2 ^ 24 mod 256 * 256 + n div 2 ^ 16 mod 256) * 256 + n div 2 ^ 8 mod 256) * 256 + n mod 256 = n"
proof -
  have "n div 2 ^ 24 mod 256 = n div 2 ^ 8 div 256 div 256" using assms by (simp add: div_mult2_eq [symmetric])
  moreover have "n div 2 ^ 16 = n div 2 ^ 8 div 256" by (simp add: div_mult2_eq [symmetric])
  ultimately show ?thesis
    by (simp only: div_mult_mod_eq) (simp add: mod_div_mult_eq)
qed

lemma be_int_be_bytes4 [simp]: "be_int (be_bytes 4 v) = (v :: u32)"
  using base256_4 [of "unat v"] unat_u32_bound [of v]
  by (simp add: word_unat_eq_iff be_bytes_expand unat_be_int4 unat_drop_bit unat_ucast_mod)

lemma be_int_be_bytes2 [simp]: "be_int (be_bytes 2 w) = (w :: u16)"
proof -
  have "unat w div 256 mod 256 = unat w div 256" using unat_u16_bound [of w] by simp
  then show ?thesis
    by (simp add: word_unat_eq_iff be_bytes_expand unat_be_int2 unat_drop_bit unat_ucast_mod)
qed

lemma be_int_be_bytes1 [simp]: "be_int (be_bytes 1 b) = (b :: u8)"
  by (simp only: be_bytes_expand be_int_expand) simp

lemma be_bytes_be_int2: "be_bytes 2 (be_int [a, b] :: u16) = [a, b]"
  using unat_u8_bound [of a] unat_u8_bound [of b]
  by (simp add: be_bytes_expand word_unat_eq_iff unat_drop_bit unat_ucast_mod unat_be_int2)

lemma base256_digit: "(y :: nat) < 256 \<Longrightarrow> (x * 256 + y) div 256 = x \<and> (x * 256 + y) mod 256 = y"
  by simp

lemma length_u8: "(2 :: nat) ^ LENGTH(8) = 256"
  by simp

lemma base256_shift:
  "(n :: nat) div 2 ^ 24 = n div 256 div 256 div 256" "n div 2 ^ 16 = n div 256 div 256" "n div 2 ^ 8 = n div 256"
  by (simp_all add: div_mult2_eq [symmetric])

lemma be_bytes_be_int4: "be_bytes 4 (be_int [a, b, c, d] :: u32) = [a, b, c, d]"
proof -
  note digit = base256_digit [OF unat_u8_bound, THEN conjunct1] base256_digit [OF unat_u8_bound, THEN conjunct2]
    mod_less [OF unat_u8_bound]
  have "unat (ucast (drop_bit 24 (be_int [a, b, c, d] :: u32)) :: u8) = unat a"
    "unat (ucast (drop_bit 16 (be_int [a, b, c, d] :: u32)) :: u8) = unat b"
    "unat (ucast (drop_bit 8 (be_int [a, b, c, d] :: u32)) :: u8) = unat c"
    "unat (ucast (be_int [a, b, c, d] :: u32) :: u8) = unat d"
    unfolding unat_ucast_mod unat_drop_bit unat_be_int4 base256_shift length_u8
    by (simp_all only: digit)
  then show ?thesis by (simp only: be_bytes_expand word_unat_eq_iff list.inject simp_thms)
qed

lemma length_be_bytes [simp]: "length (be_bytes n v) = n"
  by (simp add: be_bytes_def)

section \<open>Reading several fields\<close>

fun read_many :: "(net_parser \<Rightarrow> 'v \<times> net_parser) \<Rightarrow> nat \<Rightarrow> net_parser \<Rightarrow> 'v list \<times> net_parser" where
  "read_many get 0 p = ([], p)"
| "read_many get (Suc n) p =
    (let (v, p) = get p; (vs, p) = read_many get n p in (v # vs, p))"

lemma buf_drop_drop:
  assumes "buf_ok b" and "unat m + unat n \<le> length (buf_str b)"
  shows "buf_drop (buf_drop b m) n = buf_drop b (m + n)"
proof (cases "buf_storage b")
  case None
  then show ?thesis by (simp add: buf_drop_def add.assoc)
next
  case (Some s)
  then have s: "str_ok s" "unat (buf_starting_offset b) + unat m + unat n \<le> length s"
    using assms by (auto simp: buf_ok_def buf_str_def)
  have off: "unat (buf_starting_offset b + m) = unat (buf_starting_offset b) + unat m"
    "unat (buf_starting_offset b + m + n) = unat (buf_starting_offset b) + unat m + unat n"
    using s by (simp_all add: unat_word_ariths str_ok_def)
  have "n = 0" if "buf_starting_offset b + m = str_size s"
    using that s off(1) by (simp add: unat_eq_zero [symmetric])
  then show ?thesis
    using Some by (auto simp: buf_drop_def Let_def add.assoc)
qed

lemma np_adv_adv:
  assumes "np_ok p" and "m + n \<le> length (np_rest p)"
  shows "np_adv (np_adv p m) n = np_adv p (m + n)"
  using assms buf_drop_drop [of "np_buffer p" "of_nat m" "of_nat n"] np_rest_bound [OF assms(1), of m]
    np_rest_bound [OF assms(1), of n]
  by (simp add: np_adv_def np_ok_def np_rest_def)

section \<open>The contract of a field\<close>

text \<open>
  A field of \<open>width\<close> bytes: what \<open>put\<close> appends is what \<open>get\<close> reads back, \<open>get\<close> consumes exactly the
  width, and a buffer that is too short sets the error and yields zero without consuming anything.
\<close>

locale field_codec =
  fixes put :: "bytes \<Rightarrow> 'v::zero \<Rightarrow> bytes"
    and get :: "net_parser \<Rightarrow> 'v \<times> net_parser"
    and enc :: "'v \<Rightarrow> bytes"
    and width :: nat
  assumes put_append: "put s v = s @ enc v"
    and enc_length: "length (enc v) = width"
    and get_adv: "np_ok p \<Longrightarrow> width \<le> length (np_rest p) \<Longrightarrow> snd (get p) = np_adv p width"
    and get_enc: "np_ok p \<Longrightarrow> take width (np_rest p) = enc v \<Longrightarrow> fst (get p) = v"
    and get_short: "np_ok p \<Longrightarrow> length (np_rest p) < width \<Longrightarrow>
      get p = (0, np_set_error p PacketTooShort)"
begin

lemma get_put:
  assumes "np_ok p" and "np_rest p = put [] v @ s"
  shows "get p = (v, np_adv p width)"
  using assms get_adv [of p] get_enc [of p v] enc_length [of v] put_append [of "[]" v]
  by (simp add: prod_eq_iff)

text \<open>A loop that reads \<open>n\<close> fields, as for the bytes of an Ethernet address.\<close>

lemma read_many_put:
  "np_ok p \<Longrightarrow> np_rest p = concat (map enc vs) @ s \<Longrightarrow> vs \<noteq> [] \<Longrightarrow>
   read_many get (length vs) p = (vs, np_adv p (width * length vs))"
proof (induction vs arbitrary: p)
  case Nil
  then show ?case by simp
next
  case (Cons v vs)
  have "get p = (v, np_adv p width)"
    using get_put [of p v "concat (map enc vs) @ s"] Cons.prems put_append [of "[]" v] by simp
  moreover have ok: "np_ok (np_adv p width)" "np_rest (np_adv p width) = concat (map enc vs) @ s"
    using Cons.prems enc_length [of v] by simp_all
  ultimately show ?case
    using Cons.IH [OF ok] Cons.prems(1,2) enc_length
    by (cases vs) (simp_all add: np_adv_adv length_concat comp_def sum_list_triv)
qed

end

lemma np_parse_int_enc:
  assumes "np_ok p" and "take len (np_rest p) = be_bytes len (v :: 'a::len word)"
  shows "fst (np_parse_int len p) = (be_int (be_bytes len v) :: 'b::len word)"
proof -
  have "len \<le> length (np_rest p)"
    using arg_cong [OF assms(2), of length] by simp
  then show ?thesis using assms by (simp add: np_parse_int_ok)
qed

interpretation u32f: field_codec nu_u32 np_u32 "be_bytes 4" 4
  by unfold_locales
    (simp_all add: nu_u32_def np_u32_def nu_unparse_int_append np_parse_int_ok np_parse_int_short np_parse_int_enc)

interpretation u16f: field_codec nu_u16 np_u16 "be_bytes 2" 2
  by unfold_locales
    (simp_all add: nu_u16_def np_u16_def nu_unparse_int_append np_parse_int_ok np_parse_int_short np_parse_int_enc)

interpretation u8f: field_codec nu_u8 np_u8 "be_bytes 1" 1
  by unfold_locales
    (simp_all only: nu_u8_def np_u8_def nu_unparse_int_append np_parse_int_ok np_parse_int_short np_parse_int_enc
      be_int_be_bytes1 length_be_bytes snd_conv, simp_all add: np_parse_int_short)

text \<open>Reads as conditional rewrite rules over the bytes in front of the parser.\<close>

lemma np_reads:
  "np_ok p \<Longrightarrow> 4 \<le> length (np_rest p) \<Longrightarrow> np_u32 p = (be_int (take 4 (np_rest p)), np_adv p 4)"
  "np_ok p \<Longrightarrow> 2 \<le> length (np_rest p) \<Longrightarrow> np_u16 p = (be_int (take 2 (np_rest p)), np_adv p 2)"
  "np_ok p \<Longrightarrow> 1 \<le> length (np_rest p) \<Longrightarrow> np_u8 p = (np_rest p ! 0, np_adv p 1)"
proof -
  show "np_u8 p = (np_rest p ! 0, np_adv p 1)" if "np_ok p" "1 \<le> length (np_rest p)"
    using that by (cases "np_rest p") (simp_all add: np_u8_def np_parse_int_ok be_int_expand)
qed (simp_all add: np_u32_def np_u16_def np_parse_int_ok)

lemmas nu_writes = u32f.put_append u16f.put_append u8f.put_append

section \<open>Running out of bytes\<close>

text \<open>
  \<open>np_lacks p n\<close>: the parser has already reported a short packet, or has fewer than \<open>n\<close> bytes left.
  Reads that need \<open>n\<close> bytes in total end in the error.
\<close>

definition np_lacks :: "net_parser \<Rightarrow> nat \<Rightarrow> bool" where
  "np_lacks p n \<longleftrightarrow> buf_ok (np_buffer p) \<and> (np_error_code p = PacketTooShort \<or>
     np_error_code p = NoError \<and> length (np_rest p) < n)"

lemma np_lacks_0: "np_lacks p 0 \<Longrightarrow> np_get_error p = PacketTooShort \<and> np_error p"
  by (auto simp: np_lacks_def np_get_error_def np_error_def)

lemma np_lacks_error:
  assumes "np_error_code p = PacketTooShort"
  shows "np_parse_int k p = (0, p)" and "np_remove_prefix p m = p"
  using assms by (auto simp: np_parse_int_def np_remove_prefix_def np_check_size_def np_error_def
      np_get_error_def np_set_error_def Let_def)

lemma np_lacks_parse_int:
  assumes "np_lacks p m" and "k < 2 ^ 63" and "np_parse_int k p = (v :: 'a::len word, q)"
  shows "np_lacks q (m - k)"
proof (cases "np_error_code p = PacketTooShort")
  case True
  then show ?thesis using assms np_lacks_error(1) [OF True, of k, where ?'a = 'a] by (simp add: np_lacks_def)
next
  case False
  then have ok: "np_ok p" "length (np_rest p) < m" using assms by (auto simp: np_lacks_def np_ok_def)
  show ?thesis
  proof (cases "k \<le> length (np_rest p)")
    case True
    then have "q = np_adv p k" using assms(3) ok by (simp add: np_parse_int_ok)
    then show ?thesis
      using ok np_adv_spec [OF ok(1) True] True by (auto simp: np_lacks_def np_ok_def)
  next
    case False
    then have "q = np_set_error p PacketTooShort" using assms(2,3) ok by (simp add: np_parse_int_short)
    then show ?thesis using ok by (simp add: np_lacks_def np_ok_def np_set_error_def)
  qed
qed

lemma np_lacks_reads:
  "np_lacks p m \<Longrightarrow> np_u32 p = (v, q) \<Longrightarrow> np_lacks q (m - 4)"
  "np_lacks p m \<Longrightarrow> np_u16 p = (w, q) \<Longrightarrow> np_lacks q (m - 2)"
  "np_lacks p m \<Longrightarrow> np_u8 p = (b, q) \<Longrightarrow> np_lacks q (m - 1)"
  using np_lacks_parse_int [of p m 4 v q] np_lacks_parse_int [of p m 2 w q] np_lacks_parse_int [of p m 1 b q]
  by (simp_all add: np_u32_def np_u16_def np_u8_def)

lemma np_lacks_remove_prefix: "np_lacks p 0 \<Longrightarrow> np_remove_prefix p m = p"
  using np_lacks_0 [of p] np_lacks_error(2) [of p m] by (simp add: np_get_error_def)

end
