(* ===== verification/Internet_Checksum.thy ===== *)
theory Internet_Checksum
  imports Net_Parser
begin

text \<open>
  \<open>InternetChecksum\<close> (util/util.hh, util/util.cc): the one's-complement sum over 16-bit words that
  protects IPv4 headers and TCP segments. The accumulator is 32 bits wide and wraps; the theorems
  say for which lengths it cannot.
\<close>

section \<open>The class\<close>

record internet_checksum =
  ck_sum :: u32
  ck_parity :: bool

definition InternetChecksum :: "u32 \<Rightarrow> internet_checksum" where
  "InternetChecksum initial_sum = \<lparr>ck_sum = initial_sum, ck_parity = False\<rparr>"

definition ck_add_byte :: "u8 \<Rightarrow> internet_checksum \<Rightarrow> internet_checksum" where
  "ck_add_byte b c =
    (let val = (ucast b :: u16);
         val = (if \<not> ck_parity c then push_bit 8 val else val)
     in \<lparr>ck_sum = ck_sum c + ucast val, ck_parity = (\<not> ck_parity c)\<rparr>)"

definition ck_add :: "internet_checksum \<Rightarrow> bytes \<Rightarrow> internet_checksum" where
  "ck_add c data = fold ck_add_byte data c"

text \<open>The carries are folded back in until the sum fits 16 bits.\<close>

function ck_fold :: "u32 \<Rightarrow> u32" where
  "ck_fold ret = (if ret > 0xffff then ck_fold (drop_bit 16 ret + (ret AND 0xffff)) else ret)"
  by auto

lemma unat_u32_halves:
  "unat (drop_bit 16 r + (r AND 0xffff) :: u32) = unat r div 65536 + unat r mod 65536"
proof -
  have "r AND 0xffff = take_bit 16 r" by (simp add: take_bit_eq_mask mask_eq_exp_minus_1)
  then have "unat (r AND 0xffff) = unat r mod 65536"
    by (simp only: unsigned_take_bit_eq) (simp add: take_bit_eq_mod)
  moreover have "unat r div 65536 < 65536" using unat_u32_bound [of r] by simp
  moreover have "unat r mod 65536 < 65536" by simp
  ultimately show ?thesis by (subst unat_add_no_wrap) (simp_all add: unat_drop_bit)
qed

termination ck_fold
proof (relation "measure unat")
  fix r :: u32 assume "r > 0xffff"
  then have "65535 < unat r" by (simp add: word_less_nat_alt)
  then have "0 < unat r div 65536" by (simp add: div_greater_zero_iff)
  then have "unat r div 65536 + unat r mod 65536 < unat r"
    using div_mult_mod_eq [of "unat r" 65536] by linarith
  then show "(drop_bit 16 r + (r AND 0xffff), r) \<in> measure unat" by (simp add: unat_u32_halves)
qed simp

definition ck_value :: "internet_checksum \<Rightarrow> u16" where
  "ck_value c = ucast (NOT (ck_fold (ck_sum c)))"

declare ck_fold.simps [simp del]

section \<open>The sum as a number\<close>

text \<open>
  The mathematical sum of the 16-bit words of a byte string; \<open>odd_pos\<close> says that the string starts at
  the low byte of a word.
\<close>

fun word_sum :: "bool \<Rightarrow> bytes \<Rightarrow> nat" where
  "word_sum odd_pos [] = 0"
| "word_sum odd_pos (b # bs) = (if odd_pos then unat b else 256 * unat b) + word_sum (\<not> odd_pos) bs"

lemma word_sum_append:
  "word_sum q (s @ t) = word_sum q s + word_sum (q \<noteq> odd (length s)) t"
proof (induction s arbitrary: q)
  case (Cons b s)
  have "(\<not> q) \<noteq> odd (length s) \<longleftrightarrow> q \<noteq> odd (length (b # s))" by auto
  then show ?case by (simp only: append_Cons word_sum.simps Cons.IH add.assoc)
qed simp

lemma word_sum_bound: "word_sum q s \<le> 65280 * length s"
proof (induction s arbitrary: q)
  case (Cons b s)
  show ?case using unat_u8_bound [of b] Cons.IH [of True] Cons.IH [of False] by (cases q) simp_all
qed simp

lemma ck_add_append: "ck_add (ck_add c s) t = ck_add c (s @ t)"
  by (simp add: ck_add_def)

lemma ck_add_byte_spec:
  "unat (ck_sum (ck_add_byte b c)) =
     (unat (ck_sum c) + (if ck_parity c then unat b else 256 * unat b)) mod 2 ^ 32"
  "ck_parity (ck_add_byte b c) = (\<not> ck_parity c)"
  using unat_u8_bound [of b]
  by (auto simp: ck_add_byte_def Let_def unat_word_ariths unat_ucast_mod push_bit_eq_mult mult.commute)

lemma ck_add_spec:
  "unat (ck_sum (ck_add c s)) = (unat (ck_sum c) + word_sum (ck_parity c) s) mod 2 ^ 32 \<and>
   ck_parity (ck_add c s) = (ck_parity c \<noteq> odd (length s))"
proof (induction s arbitrary: c)
  case Nil
  then show ?case using unat_u32_bound [of "ck_sum c"] by (simp add: ck_add_def)
next
  case (Cons b s)
  have "ck_add c (b # s) = ck_add (ck_add_byte b c) s" by (simp add: ck_add_def)
  then show ?case
    using Cons.IH [of "ck_add_byte b c"] by (auto simp: ck_add_byte_spec mod_simps add.assoc)
qed

section \<open>Folding the carries\<close>

text \<open>The value of a sum modulo 65535, with 65535 for the non-zero multiples.\<close>

definition ones_sum :: "nat \<Rightarrow> nat" where
  "ones_sum n = (if n = 0 then 0 else if n mod 65535 = 0 then 65535 else n mod 65535)"

lemma ones_sum_halves: "ones_sum (n div 65536 + n mod 65536) = ones_sum n"
proof -
  have "n = 65535 * (n div 65536) + (n div 65536 + n mod 65536)"
    using div_mult_mod_eq [of n 65536] by linarith
  then have "n mod 65535 = (n div 65536 + n mod 65536) mod 65535" by (metis mod_mult_self4)
  moreover have "n div 65536 + n mod 65536 = 0 \<longleftrightarrow> n = 0" by (auto simp: div_eq_0_iff)
  ultimately show ?thesis by (simp only: ones_sum_def)
qed

lemma unat_ck_fold: "unat (ck_fold r) = ones_sum (unat r)"
proof (induction r rule: ck_fold.induct)
  case (1 r)
  show ?case
  proof (cases "r > 0xffff")
    case True
    then show ?thesis
      using 1 ones_sum_halves [of "unat r"] by (simp add: ck_fold.simps [of r] unat_u32_halves)
  next
    case False
    then show ?thesis
      by (auto simp: ck_fold.simps [of r] ones_sum_def word_less_nat_alt not_less mod_eq_0_iff_dvd le_less
          dest: dvd_imp_le)
  qed
qed

lemma ones_sum_bound: "ones_sum n \<le> 65535"
  by (simp add: ones_sum_def less_imp_le)

lemma unat_not_u16: "unat (NOT w) = 65535 - unat (w :: u16)"
proof -
  have "NOT w = -1 - w" by (simp add: not_eq_complement)
  moreover have "unat (-1 - w) = unat (-1 :: u16) - unat w"
    using word_n1_ge [of w] by (intro unat_diff_no_wrap) (simp only: word_le_nat_alt)
  ultimately show ?thesis by (simp add: unsigned_minus_1_eq_mask mask_eq_exp_minus_1)
qed

lemma unat_ck_value: "unat (ck_value c) = 65535 - ones_sum (unat (ck_sum c))"
proof -
  have "ucast (NOT x :: u32) = (NOT (ucast x) :: u16)" for x
    by (rule bit_word_eqI) (simp add: bit_simps)
  then have "unat (ck_value c) = 65535 - unat (ck_fold (ck_sum c)) mod 65536"
    by (simp add: ck_value_def unat_not_u16 unat_ucast_mod)
  then show ?thesis using ones_sum_bound [of "unat (ck_sum c)"] by (simp add: unat_ck_fold)
qed

text \<open>
  For a string of at most 65535 bytes and an initial sum below \<open>2 ^ 24\<close> the accumulator does not wrap,
  and the result is the one's complement of the sum.
\<close>

definition ck_no_wrap :: "u32 \<Rightarrow> bytes \<Rightarrow> bool" where
  "ck_no_wrap init s \<longleftrightarrow> unat init < 2 ^ 24 \<and> length s \<le> 65535"

lemma ck_value_sum:
  assumes "ck_no_wrap init s"
  shows "unat (ck_value (ck_add (InternetChecksum init) s)) = 65535 - ones_sum (unat init + word_sum False s)"
proof -
  have "unat init + word_sum False s < 2 ^ 32"
    using assms word_sum_bound [of False s] by (simp add: ck_no_wrap_def)
  then show ?thesis
    using ck_add_spec [of "InternetChecksum init" s] by (simp add: unat_ck_value InternetChecksum_def)
qed

lemma word_sum_word:
  "even (length s) \<Longrightarrow> word_sum False (s @ be_bytes 2 (w :: u16) @ t) = word_sum False s + unat w + word_sum False t"
proof -
  have "256 * (unat w div 256 mod 256) + unat w mod 256 = unat w"
    using unat_u16_bound [of w] by simp
  then show "even (length s) \<Longrightarrow> ?thesis"
    by (simp add: word_sum_append be_bytes_expand unat_ucast_mod unat_drop_bit)
qed

lemma ck_value_zero_iff:
  assumes "ck_no_wrap init s"
  shows "ck_value (ck_add (InternetChecksum init) s) = 0 \<longleftrightarrow>
    unat init + word_sum False s \<noteq> 0 \<and> 65535 dvd unat init + word_sum False s"
proof -
  have "ck_value (ck_add (InternetChecksum init) s) = 0 \<longleftrightarrow>
      65535 - ones_sum (unat init + word_sum False s) = 0"
    using ck_value_sum [OF assms] by (simp add: word_unat_eq_iff)
  then show ?thesis using ones_sum_bound by (auto simp: ones_sum_def dvd_eq_mod_eq_0)
qed

lemma ones_sum_complement:
  "n + (65535 - ones_sum n) \<noteq> 0 \<and> 65535 dvd n + (65535 - ones_sum n)"
proof (cases "n mod 65535 = 0")
  case True
  then show ?thesis by (cases "n = 0") (simp_all add: ones_sum_def dvd_eq_mod_eq_0)
next
  case False
  have "n + (65535 - n mod 65535) = 65535 * (n div 65535) + 65535"
    using div_mult_mod_eq [of n 65535] mod_less_divisor [of 65535 n] by linarith
  moreover have "ones_sum n = n mod 65535" using False by (auto simp: ones_sum_def)
  ultimately show ?thesis by simp
qed

lemma dvd_shift_mod: "(k :: nat) dvd n + a \<Longrightarrow> k dvd n + b \<Longrightarrow> a mod k = b mod k"
  using dvd_diff_nat [of k "n + a" "n + b"] dvd_diff_nat [of k "n + b" "n + a"]
    mod_eq_dvd_iff_nat [of a b k] mod_eq_dvd_iff_nat [of b a k]
  by (cases "a \<le> b") simp_all

lemma mod_65535_eq:
  assumes "a mod 65535 = b mod (65535 :: nat)" and "a < 65536" and "b < 65536" and "a \<noteq> b"
  shows "{a, b} = {0, 65535}"
proof (cases "a = 65535")
  case True
  then show ?thesis using assms by (cases "b = 65535") auto
next
  case False
  then show ?thesis using assms by (cases "b = 65535") auto
qed

lemma ck_complement:
  assumes "even (length pre)" and "unat init < 2 ^ 24" and "length pre + 2 + length post \<le> 65535"
  defines "ck \<equiv> ck_value (ck_add (InternetChecksum init) (pre @ be_bytes 2 (0 :: u16) @ post))"
  shows "ck_value (ck_add (InternetChecksum init) (pre @ be_bytes 2 ck @ post)) = 0"
proof -
  have nw: "ck_no_wrap init (pre @ be_bytes 2 (w :: u16) @ post)" for w
    using assms(2,3) by (simp add: ck_no_wrap_def)
  let ?n = "unat init + word_sum False pre + word_sum False post"
  have "unat ck = 65535 - ones_sum ?n"
    using ck_value_sum [OF nw [of 0]] by (simp add: ck_def word_sum_word [OF assms(1)] add.assoc)
  then have "unat init + word_sum False (pre @ be_bytes 2 ck @ post) = ?n + (65535 - ones_sum ?n)"
    by (simp only: word_sum_word [OF assms(1)])
  then show ?thesis
    by (simp only: ck_value_zero_iff [OF nw] ones_sum_complement simp_thms)
qed

lemma ck_word_error:
  assumes "even (length pre)" and "unat init < 2 ^ 24" and "length pre + 2 + length post \<le> 65535"
    and "ck_value (ck_add (InternetChecksum init) (pre @ be_bytes 2 (w :: u16) @ post)) = 0"
    and "w \<noteq> v" and "{w, v} \<noteq> {0, 0xffff}"
  shows "ck_value (ck_add (InternetChecksum init) (pre @ be_bytes 2 v @ post)) \<noteq> 0"
proof
  assume v: "ck_value (ck_add (InternetChecksum init) (pre @ be_bytes 2 v @ post)) = 0"
  have nw: "ck_no_wrap init (pre @ be_bytes 2 (w :: u16) @ post)" for w
    using assms(2,3) by (simp add: ck_no_wrap_def)
  let ?n = "unat init + word_sum False pre + word_sum False post"
  have "65535 dvd ?n + unat w" "65535 dvd ?n + unat v"
    using ck_value_zero_iff [OF nw] assms(4) v by (simp_all add: word_sum_word [OF assms(1)] ac_simps)
  then have "unat w mod 65535 = unat v mod 65535" by (rule dvd_shift_mod)
  moreover have "unat w < 65536" "unat v < 65536" "unat w \<noteq> unat v"
    using assms(5) unat_u16_bound by (simp_all add: word_unat_eq_iff)
  ultimately have "{unat w, unat v} = {0, 65535}" by (rule mod_65535_eq)
  then show False using assms(6) by (auto simp: word_unat_eq_iff doubleton_eq_iff)
qed

section \<open>Properties\<close>

text \<open>
  C21. The documented contract of the Internet checksum: compute it with the checksum field (any
  16-bit aligned word) set to zero, store the result in the field, and the checksum of the whole
  becomes zero. This holds for at most 65535 bytes and an initial sum below \<open>2 ^ 24\<close>, for which the
  32-bit accumulator does not wrap.
\<close>

theorem ck_verifies:
  assumes "even (length pre)" and "unat init < 2 ^ 24" and "length pre + 2 + length post \<le> 65535"
  defines "ck \<equiv> ck_value (ck_add (InternetChecksum init) (pre @ be_bytes 2 (0 :: u16) @ post))"
  shows "ck_value (ck_add (InternetChecksum init) (pre @ be_bytes 2 ck @ post)) = 0"
  unfolding ck_def using assms(1-3) by (rule ck_complement)

theorem ck_verifies_witness:
  "ck_value (ck_add (InternetChecksum 6) ([0x45, 0] @ be_bytes 2 (ck_value (ck_add (InternetChecksum 6)
     ([0x45, 0] @ be_bytes 2 (0 :: u16) @ [7]))) @ [7])) = 0"
  by (rule ck_verifies) simp_all

text \<open>
  Error detection: replacing one aligned 16-bit word of a string that verifies by a different one
  makes verification fail, unless the two words are the two representations of zero.
\<close>

theorem ck_detects_word_error:
  assumes "even (length pre)" and "unat init < 2 ^ 24" and "length pre + 2 + length post \<le> 65535"
    and "ck_value (ck_add (InternetChecksum init) (pre @ be_bytes 2 (w :: u16) @ post)) = 0"
    and "w \<noteq> v" and "{w, v} \<noteq> {0, 0xffff}"
  shows "ck_value (ck_add (InternetChecksum init) (pre @ be_bytes 2 v @ post)) \<noteq> 0"
  using assms by (rule ck_word_error)

theorem ck_detects_word_error_witness:
  "ck_value (ck_add (InternetChecksum 0) ([] @ be_bytes 2 (0xfff8 :: u16) @ [0, 7])) = 0 \<and>
   ck_value (ck_add (InternetChecksum 0) ([] @ be_bytes 2 (0xfff9 :: u16) @ [0, 7])) \<noteq> 0"
proof -
  have z: "ck_value (ck_add (InternetChecksum 0) ([] @ be_bytes 2 (0xfff8 :: u16) @ [0, 7])) = 0"
    by code_simp
  from z ck_detects_word_error [OF _ _ _ z, of "0xfff9"] show ?thesis by (simp add: doubleton_eq_iff)
qed

end
