(* ===== verification/Wrapping_Integers.thy ===== *)
theory Wrapping_Integers
  imports Sponge_Prelude
begin

text \<open>
  \<open>libsponge/wrapping_integers.hh\<close> and \<open>wrapping_integers.cc\<close>: 32-bit sequence numbers
  relative to an initial sequence number, and their conversion to and from 64-bit absolute
  sequence numbers.
\<close>

section \<open>The class and its operators\<close>

datatype wrapping_int32 = WrappingInt32 (raw_value: u32)

definition wi_minus :: "wrapping_int32 \<Rightarrow> wrapping_int32 \<Rightarrow> int" where
  "wi_minus a b = sint (raw_value a - raw_value b)"

definition wi_eq :: "wrapping_int32 \<Rightarrow> wrapping_int32 \<Rightarrow> bool" where
  "wi_eq a b \<longleftrightarrow> raw_value a = raw_value b"

definition wi_plus :: "wrapping_int32 \<Rightarrow> u32 \<Rightarrow> wrapping_int32" where
  "wi_plus a b = WrappingInt32 (raw_value a + b)"

definition wi_minus_u32 :: "wrapping_int32 \<Rightarrow> u32 \<Rightarrow> wrapping_int32" where
  "wi_minus_u32 a b = wi_plus a (- b)"

section \<open>wrap and unwrap\<close>

definition wrap :: "u64 \<Rightarrow> wrapping_int32 \<Rightarrow> wrapping_int32" where
  "wrap n isn = WrappingInt32 (ucast ((ucast (raw_value isn) + n) mod (push_bit 32 1 :: u64)))"

definition unwrap :: "wrapping_int32 \<Rightarrow> wrapping_int32 \<Rightarrow> u64 \<Rightarrow> u64" where
  "unwrap n isn checkpoint =
    (let two32 = push_bit 32 1 :: u64;
         init_absseqno =
           (if raw_value n \<ge> raw_value isn then ucast (raw_value n - raw_value isn)
            else ucast (raw_value n) + two32 - ucast (raw_value isn));
         n_power = checkpoint div two32;
         absseqno0 = init_absseqno + (if n_power \<le> 1 then n_power else n_power - 1) * two32;
         absseqno1 = init_absseqno + n_power * two32;
         absseqno2 = init_absseqno + (n_power + 1) * two32;
         distance0 = (if absseqno0 \<ge> checkpoint then absseqno0 - checkpoint
                      else checkpoint - absseqno0);
         distance1 = (if absseqno1 \<ge> checkpoint then absseqno1 - checkpoint
                      else checkpoint - absseqno1);
         distance2 = (if absseqno2 \<ge> checkpoint then absseqno2 - checkpoint
                      else checkpoint - absseqno2)
     in if distance0 \<le> distance1
        then (if distance0 \<le> distance2 then absseqno0 else absseqno2)
        else (if distance1 \<le> distance2 then absseqno1 else absseqno2))"

section \<open>The arithmetic reference\<close>

text \<open>
  The same computation on natural numbers, where nothing wraps: the distance of two numbers,
  the choice among the three candidates, and the candidates themselves.
\<close>

definition adist :: "nat \<Rightarrow> nat \<Rightarrow> nat" where
  "adist a b = (if a \<ge> b then a - b else b - a)"

definition nearest3 :: "nat \<Rightarrow> nat \<Rightarrow> nat \<Rightarrow> nat \<Rightarrow> nat" where
  "nearest3 a0 a1 a2 c =
     (if adist a0 c \<le> adist a1 c
      then (if adist a0 c \<le> adist a2 c then a0 else a2)
      else (if adist a1 c \<le> adist a2 c then a1 else a2))"

definition unwrap_nat :: "nat \<Rightarrow> nat \<Rightarrow> nat" where
  "unwrap_nat x c =
     (let q = c div 2 ^ 32
      in nearest3 (x + (if q \<le> 1 then q else q - 1) * 2 ^ 32) (x + q * 2 ^ 32)
           (x + (q + 1) * 2 ^ 32) c)"

text \<open>
  \<open>unwrap_exact m c\<close>: the absolute number \<open>m\<close> is recovered from its 32 bits with the
  checkpoint \<open>c\<close>. The last conjunct is the region the code handles: see
  \<open>unwrap_second_era\<close> below for what happens outside it.
\<close>

definition unwrap_exact :: "u64 \<Rightarrow> u64 \<Rightarrow> bool" where
  "unwrap_exact m c \<longleftrightarrow>
     unat c < 2 ^ 64 - 2 ^ 32 \<and> adist (unat m) (unat c) < 2 ^ 31 \<and>
     (unat c div 2 ^ 32 \<noteq> 1 \<or> 2 ^ 32 \<le> unat m)"

section \<open>Lemmas\<close>

lemma mod32_word: "unat ((x::u64) mod push_bit 32 1) = unat x mod 2 ^ 32"
  by (simp add: push_bit_eq_mult unat_mod)

lemma wrap_alt: "wrap n isn = WrappingInt32 (raw_value isn + ucast n)"
proof -
  have "unat (ucast ((ucast (raw_value isn) + n) mod (push_bit 32 1 :: u64)) :: u32)
      = unat (raw_value isn + ucast n)"
    by (simp add: mod32_word unat_ucast_mod unat_word_ariths push_bit_eq_mult unat_mod mod_simps mod_mod_cancel)
  then have "ucast ((ucast (raw_value isn) + n) mod (push_bit 32 1 :: u64)) = raw_value isn + (ucast n :: u32)"
    by (simp only: word_unat_eq_iff)
  then show ?thesis
    by (simp add: wrap_def)
qed

lemma wrap_eq_iff: "wrap m isn = n \<longleftrightarrow> ucast m = raw_value n - raw_value isn"
  by (cases n) (auto simp: wrap_alt)

lemma wrap_eq_iff_mod: "wrap m isn = n \<longleftrightarrow> unat m mod 2 ^ 32 = unat (raw_value n - raw_value isn)"
  by (simp add: wrap_eq_iff word_unat_eq_iff unat_ucast_mod)

lemma unat_init_absseqno:
  fixes a b :: u32
  shows "unat (if a \<ge> b then ucast (a - b) else ucast a + push_bit 32 1 - ucast b :: u64) = unat (a - b)"
proof (cases "b \<le> a")
  case True
  then show ?thesis using unat_u32_bound [of "a - b"] by (simp add: unat_ucast_mod)
next
  case False
  have "unat a < 2^32" "unat b < 2^32" using unat_bound[of a] unat_bound[of b] by simp_all
  moreover have "unat a < unat b" using False by (simp add: word_le_nat_alt)
  moreover have "unat (ucast a + push_bit 32 1 - ucast b :: u64) = unat a + 2^32 - unat b"
    using calculation by (subst unat_sub) (auto simp: word_le_nat_alt unat_word_ariths unat_ucast_mod push_bit_eq_mult)
  ultimately show ?thesis using False 
    by (simp add: unat_sub_if_size word_size)
qed

lemma unat_nearest3:
  fixes a0 a1 a2 c :: "'a::len word"
  shows "unat (let d0 = (if a0 \<ge> c then a0 - c else c - a0);
                   d1 = (if a1 \<ge> c then a1 - c else c - a1);
                   d2 = (if a2 \<ge> c then a2 - c else c - a2)
               in if d0 \<le> d1 then (if d0 \<le> d2 then a0 else a2)
                  else (if d1 \<le> d2 then a1 else a2))
         = nearest3 (unat a0) (unat a1) (unat a2) (unat c)"
  by (auto simp: nearest3_def adist_def Let_def word_le_nat_alt unat_diff_no_wrap)

lemma unat_unwrap:
  assumes "unat c < 2 ^ 64 - 2 ^ 32"
  shows "unat (unwrap n isn c) = unwrap_nat (unat (raw_value n - raw_value isn)) (unat c)"
proof -
  define x where "x = (if raw_value n \<ge> raw_value isn then ucast (raw_value n - raw_value isn)
            else ucast (raw_value n) + push_bit 32 1 - ucast (raw_value isn) :: u64)"
  define q where "q = c div push_bit 32 1"
  have x: "unat x = unat (raw_value n - raw_value isn)" unfolding x_def by (rule unat_init_absseqno)
  have xb: "unat x < 2^32" unfolding x by (rule unat_u32_bound)
  have q: "unat q = unat c div 2^32" by (simp add: q_def push_bit_eq_mult unat_div)
  have qb: "unat q < 2^32 - 1" unfolding q using assms by (simp add: less_mult_imp_div_less)
  have step: "unat (x + k * push_bit 32 1) = unat x + unat k * 2^32" if "unat k < 2^32" for k
    using that xb by (simp add: unat_word_ariths push_bit_eq_mult)
  have q1: "unat (q + 1) = unat q + 1" using qb by (simp add: unat_word_ariths)
  have q0: "unat (if q \<le> 1 then q else q - 1) = (if unat q \<le> 1 then unat q else unat q - 1)"
    by (auto simp: word_le_nat_alt unat_sub)
  have "unat (if q \<le> 1 then q else q - 1) < 2 ^ 32" "unat q < 2 ^ 32" "unat (q + 1) < 2 ^ 32"
    using qb q0 q1 by auto
  note a = this [THEN step]
  have "unat (unwrap n isn c) = nearest3 (unat (x + (if q \<le> 1 then q else q - 1) * push_bit 32 1))
      (unat (x + q * push_bit 32 1)) (unat (x + (q + 1) * push_bit 32 1)) (unat c)"
    unfolding unwrap_def Let_def unat_nearest3 [symmetric] by (simp only: x_def q_def)
  then show ?thesis
    unfolding a by (simp only: unwrap_nat_def Let_def q0 q1 x q)
qed


lemma cand_mod: "x < 2 ^ 32 \<Longrightarrow> (x + k * 2 ^ 32) mod 2 ^ 32 = (x :: nat)"
  by simp

lemma unwrap_nat_mod: "x < 2 ^ 32 \<Longrightarrow> unwrap_nat x c mod 2 ^ 32 = x"
  unfolding unwrap_nat_def nearest3_def Let_def by (simp only: cand_mod split: if_split) simp

lemma nearest3_le:
  "adist (nearest3 a0 a1 a2 c) c \<le> adist a0 c"
  "adist (nearest3 a0 a1 a2 c) c \<le> adist a1 c"
  "adist (nearest3 a0 a1 a2 c) c \<le> adist a2 c"
  by (auto simp: nearest3_def)

lemma adist_below: "m \<le> a \<Longrightarrow> a \<le> c \<Longrightarrow> adist a c \<le> adist m c"
  by (auto simp: adist_def)

lemma adist_above: "c \<le> a \<Longrightarrow> a \<le> m \<Longrightarrow> adist a c \<le> adist m c"
  by (simp add: adist_def)

lemma unwrap_nat_nearest:
  assumes x: "x < 2 ^ 32" and m: "m mod 2 ^ 32 = x" and c: "c div 2 ^ 32 \<noteq> 1 \<or> 2 ^ 32 \<le> m"
  shows "adist (unwrap_nat x c) c \<le> adist m c"
proof -
  define q where "q = c div 2 ^ 32"
  define k where "k = m div 2 ^ 32"
  let ?a0 = "x + (if q \<le> 1 then q else q - 1) * 2 ^ 32"
  let ?u = "unwrap_nat x c"
  have u: "adist ?u c \<le> adist ?a0 c" "adist ?u c \<le> adist (x + q * 2 ^ 32) c"
    "adist ?u c \<le> adist (x + (q + 1) * 2 ^ 32) c"
    unfolding unwrap_nat_def q_def [symmetric] Let_def by (rule nearest3_le)+
  have mk: "m = x + k * 2 ^ 32" using m mod_div_mult_eq [of m "2 ^ 32"] by (simp add: k_def)
  have cq: "q * 2 ^ 32 \<le> c" "c < (q + 1) * 2 ^ 32"
    using dividend_less_times_div [of "2 ^ 32" c] by (simp_all add: q_def)
  consider "k = q" | "q < k" | "k < q" by linarith
  then show ?thesis
  proof cases
    case 1 then show ?thesis using u(2) mk by simp
  next
    case 2
    then have "x + (q + 1) * 2 ^ 32 \<le> m" "c \<le> x + (q + 1) * 2 ^ 32" using mk cq by simp_all
    then show ?thesis using u(3) adist_above by (meson le_trans)
  next
    case 3
    have "q \<noteq> 1"
    proof
      assume "q = 1"
      with 3 have "m < 2 ^ 32" using mk x by simp
      with c \<open>q = 1\<close> show False by (simp add: q_def)
    qed
    with 3 have "?a0 = x + (q - 1) * 2 ^ 32" "m \<le> x + (q - 1) * 2 ^ 32" "x + (q - 1) * 2 ^ 32 \<le> c"
      using mk cq(1) x by (cases q; simp)+
    then show ?thesis using u(1) adist_below by (metis le_trans)
  qed
qed

lemma mod_eq_close: "adist a b < n \<Longrightarrow> a mod n = b mod n \<Longrightarrow> a = (b::nat)"
  by (metis adist_def diff_is_0_eq dvd_imp_le le_antisym linorder_not_le mod_eq_dvd_iff_nat nat_le_linear zero_less_diff)

lemma unwrap_nat_eq:
  assumes "adist m c < 2 ^ 31" and "c div 2 ^ 32 \<noteq> 1 \<or> 2 ^ 32 \<le> m"
  shows "unwrap_nat (m mod 2 ^ 32) c = m"
proof -
  let ?u = "unwrap_nat (m mod 2 ^ 32) c"
  have "adist ?u c < 2 ^ 31" using unwrap_nat_nearest [of "m mod 2 ^ 32" m c] assms by simp
  with assms(1) have "adist ?u m < 2 ^ 32" by (auto simp: adist_def split: if_splits)
  moreover have "?u mod 2 ^ 32 = m mod 2 ^ 32" by (rule unwrap_nat_mod) simp
  ultimately show ?thesis by (rule mod_eq_close)
qed

lemma unwrap_nat_skips_first_era:
  assumes "m < 2 ^ 32" and "c div 2 ^ 32 = 1" and "c - m < 2 ^ 31"
  shows "unwrap_nat m c = m + 2 ^ 32" 
proof -
  have "2 ^ 32 \<le> c" using assms(2) by (metis div_le_dividend div_less linorder_not_le zero_neq_one) 
  with assms show ?thesis
    unfolding unwrap_nat_def nearest3_def adist_def Let_def assms(2) by simp
qed

section \<open>The interface the receiver and the sender rely on\<close>

text \<open>
  A codec for sequence numbers: \<open>enc\<close> sends an absolute number to its wire form and
  \<open>dec\<close> recovers it from a checkpoint, wherever \<open>exact\<close> holds.
\<close>

locale seqno_codec =
  fixes enc :: "u64 \<Rightarrow> 'i \<Rightarrow> 'w"
    and dec :: "'w \<Rightarrow> 'i \<Rightarrow> u64 \<Rightarrow> u64"
    and exact :: "u64 \<Rightarrow> u64 \<Rightarrow> bool"
  assumes dec_enc: "exact m c \<Longrightarrow> dec (enc m i) i c = m"
begin

text \<open>Inside the exact region the wire form identifies the absolute number.\<close>

lemma enc_inj:
  assumes "exact m c" and "exact m' c" and "enc m i = enc m' i"
  shows "m = m'"
  using assms dec_enc by metis

text \<open>An acknowledgment test on wire numbers decides the test on absolute numbers.\<close>

lemma acked_iff: "exact m c \<Longrightarrow> dec (enc m i) i c + len \<le> c \<longleftrightarrow> m + len \<le> c"
  by (simp add: dec_enc)

end

lemma wrap_diff_isn: "unat (raw_value (wrap m isn) - raw_value isn) = unat m mod 2 ^ 32"
  using wrap_eq_iff_mod [of m isn "wrap m isn"] by simp

lemma unwrap_wrap_exact:
  assumes "unwrap_exact m c"
  shows "unwrap (wrap m isn) isn c = m"
proof -
  have "unat (unwrap (wrap m isn) isn c) = unwrap_nat (unat m mod 2 ^ 32) (unat c)"
    using assms by (simp only: unwrap_exact_def unat_unwrap wrap_diff_isn)
  also have "\<dots> = unat m"
    using assms by (intro unwrap_nat_eq) (auto simp only: unwrap_exact_def)
  finally show ?thesis by (rule word_unat_eq_iff [THEN iffD2])
qed

interpretation wrap_codec: seqno_codec wrap unwrap unwrap_exact
  by unfold_locales (rule unwrap_wrap_exact)

section \<open>Properties\<close>

text \<open>
  C19. \<open>unwrap\<close> inverts \<open>wrap\<close>: an absolute sequence number less than \<open>2 ^ 31\<close> away from
  the checkpoint is recovered exactly, when the checkpoint is not in the second block of
  \<open>2 ^ 32\<close> numbers or the number itself is not in the first.
\<close>

theorem unwrap_wrap:
  assumes "adist (unat m) (unat c) < 2 ^ 31" and "unat c < 2 ^ 64 - 2 ^ 32"
    and "unat c div 2 ^ 32 \<noteq> 1 \<or> 2 ^ 32 \<le> unat m"
  shows "unwrap (wrap m isn) isn c = m"
  using assms by (intro wrap_codec.dec_enc) (simp add: unwrap_exact_def)

theorem unwrap_wrap_witness:
  "unwrap (wrap 8589934595 (WrappingInt32 7)) (WrappingInt32 7) 8589934600 = 8589934595"
  by (rule unwrap_wrap) (simp_all add: adist_def)

text \<open>
  Outside the second block of \<open>2 ^ 32\<close> checkpoints, \<open>unwrap\<close> returns a number that wraps
  to the given one, and no other number with that wire form is closer to the checkpoint.
\<close>

theorem unwrap_closest:
  assumes "unat c < 2 ^ 64 - 2 ^ 32" and "unat c div 2 ^ 32 \<noteq> 1"
  shows "wrap (unwrap n isn c) isn = n \<and>
    (\<forall>m. wrap m isn = n \<longrightarrow> adist (unat (unwrap n isn c)) (unat c) \<le> adist (unat m) (unat c))"
  using assms
  by (simp add: wrap_eq_iff_mod unat_unwrap unwrap_nat_mod [OF unat_u32_bound, simplified]
      unwrap_nat_nearest unat_u32_bound [simplified])

theorem unwrap_closest_witness:
  "wrap (unwrap (WrappingInt32 17) (WrappingInt32 15) 4294967295) (WrappingInt32 15)
   = WrappingInt32 17"
  using unwrap_closest [of 4294967295 "WrappingInt32 17" "WrappingInt32 15"] by simp

text \<open>
  C38. In the second block the code is off by \<open>2 ^ 32\<close>: for a checkpoint between \<open>2 ^ 32\<close>
  and \<open>2 ^ 33\<close>, a number of the first block that is less than \<open>2 ^ 31\<close> behind it (so it is
  the closest one with its wire form) is not returned; the result is \<open>2 ^ 32\<close> too large.
\<close>

theorem unwrap_second_era:
  assumes "unat m < 2 ^ 32" and "unat c div 2 ^ 32 = 1" and "unat c - unat m < 2 ^ 31"
  shows "unat (unwrap (wrap m isn) isn c) = unat m + 2 ^ 32"
proof -
  have "unat c < 2 ^ 64 - 2 ^ 32"
    using assms(2) dividend_less_times_div [of "2 ^ 32" "unat c"] by simp
  moreover have "unat (raw_value (wrap m isn) - raw_value isn) = unat m"
    using assms(1) by (simp add: wrap_diff_isn)
  ultimately show ?thesis
    using unwrap_nat_skips_first_era [of "unat m" "unat c"] assms by (simp add: unat_unwrap)
qed

theorem unwrap_second_era_witness:
  "unat (unwrap (wrap 4294967295 (WrappingInt32 0)) (WrappingInt32 0) 4294967296)
   = 4294967295 + 2 ^ 32"
  using unwrap_second_era [of 4294967295 4294967296 "WrappingInt32 0"] by simp

end
