(* ===== verification/TCP_Segment.thy ===== *)
theory TCP_Segment
  imports Internet_Checksum Wrapping_Integers
begin

text \<open>
  TCP segments on the wire: \<open>TCPHeader\<close> (tcp_helpers/tcp_header.hh, tcp_header.cc), \<open>TCPSegment\<close>
  (tcp_helpers/tcp_segment.hh, tcp_segment.cc) and the constants of \<open>TCPConfig\<close>
  (tcp_helpers/tcp_config.hh).
\<close>

section \<open>Configuration\<close>

definition DEFAULT_CAPACITY :: u64 where "DEFAULT_CAPACITY = 64000"
definition MAX_PAYLOAD_SIZE :: u64 where "MAX_PAYLOAD_SIZE = 1000"
definition TIMEOUT_DFLT :: u16 where "TIMEOUT_DFLT = 1000"
definition MAX_RETX_ATTEMPTS :: u32 where "MAX_RETX_ATTEMPTS = 8"

record tcp_config =
  cfg_rt_timeout :: u16
  cfg_recv_capacity :: u64
  cfg_send_capacity :: u64
  cfg_fixed_isn :: "wrapping_int32 option"

definition TCPConfig :: tcp_config where
  "TCPConfig = \<lparr>cfg_rt_timeout = TIMEOUT_DFLT, cfg_recv_capacity = DEFAULT_CAPACITY,
     cfg_send_capacity = DEFAULT_CAPACITY, cfg_fixed_isn = None\<rparr>"

section \<open>The header\<close>

record tcp_header =
  th_sport :: u16
  th_dport :: u16
  th_seqno :: wrapping_int32
  th_ackno :: wrapping_int32
  th_doff :: u8
  th_urg :: bool
  th_ack :: bool
  th_psh :: bool
  th_rst :: bool
  th_syn :: bool
  th_fin :: bool
  th_win :: u16
  th_cksum :: u16
  th_uptr :: u16

definition TCP_LENGTH :: u64 where "TCP_LENGTH = 20"

definition TCPHeader :: tcp_header where
  "TCPHeader = \<lparr>th_sport = 0, th_dport = 0, th_seqno = WrappingInt32 0, th_ackno = WrappingInt32 0,
     th_doff = 5, th_urg = False, th_ack = False, th_psh = False, th_rst = False, th_syn = False,
     th_fin = False, th_win = 0, th_cksum = 0, th_uptr = 0\<rparr>"

definition th_parse :: "net_parser \<Rightarrow> parse_result \<times> tcp_header \<times> net_parser" where
  "th_parse p =
    (let (sport, p) = np_u16 p;
         (dport, p) = np_u16 p;
         (seqno, p) = np_u32 p;
         (ackno, p) = np_u32 p;
         (off_b, p) = np_u8 p;
         doff = drop_bit 4 off_b;
         (fl_b, p) = np_u8 p;
         (win, p) = np_u16 p;
         (cksum, p) = np_u16 p;
         (uptr, p) = np_u16 p;
         h = \<lparr>th_sport = sport, th_dport = dport, th_seqno = WrappingInt32 seqno,
              th_ackno = WrappingInt32 ackno, th_doff = doff,
              th_urg = (fl_b AND 0x20 \<noteq> 0), th_ack = (fl_b AND 0x10 \<noteq> 0), th_psh = (fl_b AND 0x08 \<noteq> 0),
              th_rst = (fl_b AND 0x04 \<noteq> 0), th_syn = (fl_b AND 0x02 \<noteq> 0), th_fin = (fl_b AND 0x01 \<noteq> 0),
              th_win = win, th_cksum = cksum, th_uptr = uptr\<rparr>
     in if doff < 5 then (HeaderTooShort, h, p)
        else let p = np_remove_prefix p (ucast doff * 4 - TCP_LENGTH)
             in if np_error p then (np_get_error p, h, p) else (NoError, h, p))"

definition th_flags :: "tcp_header \<Rightarrow> u8" where
  "th_flags h = (if th_urg h then 0x20 else 0) OR (if th_ack h then 0x10 else 0) OR
     (if th_psh h then 0x08 else 0) OR (if th_rst h then 0x04 else 0) OR
     (if th_syn h then 0x02 else 0) OR (if th_fin h then 0x01 else 0)"

definition th_serialize :: "tcp_header \<Rightarrow> exn + bytes" where
  "th_serialize h =
    (if th_doff h < 5 then Inl (Runtime_Error ''TCP header too short'')
     else let ret = [];
              ret = nu_u16 ret (th_sport h);
              ret = nu_u16 ret (th_dport h);
              ret = nu_u32 ret (raw_value (th_seqno h));
              ret = nu_u32 ret (raw_value (th_ackno h));
              ret = nu_u8 ret (push_bit 4 (th_doff h));
              ret = nu_u8 ret (th_flags h);
              ret = nu_u16 ret (th_win h);
              ret = nu_u16 ret (th_cksum h);
              ret = nu_u16 ret (th_uptr h)
          in Inr (str_resize ret (4 * ucast (th_doff h))))"

text \<open>\<open>operator==\<close> leaves out the ports and the checksum.\<close>

definition th_equal :: "tcp_header \<Rightarrow> tcp_header \<Rightarrow> bool" where
  "th_equal h g \<longleftrightarrow> wi_eq (th_seqno h) (th_seqno g) \<and> wi_eq (th_ackno h) (th_ackno g) \<and>
     th_doff h = th_doff g \<and> th_urg h = th_urg g \<and> th_ack h = th_ack g \<and> th_psh h = th_psh g \<and>
     th_rst h = th_rst g \<and> th_syn h = th_syn g \<and> th_fin h = th_fin g \<and> th_win h = th_win g \<and>
     th_uptr h = th_uptr g"

section \<open>The segment\<close>

record tcp_segment =
  seg_header :: tcp_header
  seg_payload :: buffer

definition TCPSegment :: tcp_segment where
  "TCPSegment = \<lparr>seg_header = TCPHeader, seg_payload = Buffer0\<rparr>"

text \<open>The result of the header parser is not used: only the error of the parser counts.\<close>

definition seg_parse :: "tcp_segment \<Rightarrow> buffer \<Rightarrow> u32 \<Rightarrow> parse_result \<times> tcp_segment" where
  "seg_parse seg buf datagram_layer_checksum =
    (let check = ck_add (InternetChecksum datagram_layer_checksum) (buf_str buf) in
     if ck_value check \<noteq> 0 then (BadChecksum, seg)
     else let (_, h, p) = th_parse (NetParser buf)
          in (np_get_error p, \<lparr>seg_header = h, seg_payload = np_buffer p\<rparr>))"

definition seg_length_in_sequence_space :: "tcp_segment \<Rightarrow> u64" where
  "seg_length_in_sequence_space seg = str_size (buf_str (seg_payload seg)) + (if th_syn (seg_header seg) then 1 else 0) +
     (if th_fin (seg_header seg) then 1 else 0)"

definition seg_serialize :: "tcp_segment \<Rightarrow> u32 \<Rightarrow> exn + buffer_list" where
  "seg_serialize seg datagram_layer_checksum =
    (let header_out = (seg_header seg)\<lparr>th_cksum := 0\<rparr> in
     case th_serialize header_out of
       Inl e \<Rightarrow> Inl e
     | Inr s \<Rightarrow>
         let check = ck_add (ck_add (InternetChecksum datagram_layer_checksum) s) (buf_str (seg_payload seg));
             header_out = header_out\<lparr>th_cksum := ck_value check\<rparr>
         in case th_serialize header_out of
              Inl e \<Rightarrow> Inl e
            | Inr s \<Rightarrow> Inr (bl_append (bl_append [] (BufferList s)) [seg_payload seg]))"

unbundle bit_operations_syntax
section \<open>Parsing inverts serializing\<close>

text \<open>What a header parser makes of the first twenty bytes in front of it.\<close>

definition th_of_bytes :: "bytes \<Rightarrow> tcp_header" where
  "th_of_bytes s =
    (let fl_b = s ! 13 in
     \<lparr>th_sport = be_int (take 2 s), th_dport = be_int (take 2 (drop 2 s)),
      th_seqno = WrappingInt32 (be_int (take 4 (drop 4 s))),
      th_ackno = WrappingInt32 (be_int (take 4 (drop 8 s))), th_doff = drop_bit 4 (s ! 12),
      th_urg = (fl_b AND 0x20 \<noteq> 0), th_ack = (fl_b AND 0x10 \<noteq> 0), th_psh = (fl_b AND 0x08 \<noteq> 0),
      th_rst = (fl_b AND 0x04 \<noteq> 0), th_syn = (fl_b AND 0x02 \<noteq> 0), th_fin = (fl_b AND 0x01 \<noteq> 0),
      th_win = be_int (take 2 (drop 14 s)), th_cksum = be_int (take 2 (drop 16 s)),
      th_uptr = be_int (take 2 (drop 18 s))\<rparr>)"

lemma th_parse_bytes:
  assumes "np_ok p" and "20 \<le> length (np_rest p)"
  shows "th_parse p =
    (let h = th_of_bytes (np_rest p); p = np_adv p 20 in
     if th_doff h < 5 then (HeaderTooShort, h, p)
     else let p = np_remove_prefix p (ucast (th_doff h) * 4 - TCP_LENGTH)
          in if np_error p then (np_get_error p, h, p) else (NoError, h, p))"
  using assms
  by (simp add: th_parse_def np_reads np_adv_adv th_of_bytes_def Let_def)

definition th_wire :: "tcp_header \<Rightarrow> bytes" where
  "th_wire h = be_bytes 2 (th_sport h) @ be_bytes 2 (th_dport h) @ be_bytes 4 (raw_value (th_seqno h)) @
     be_bytes 4 (raw_value (th_ackno h)) @ [push_bit 4 (th_doff h), th_flags h] @
     be_bytes 2 (th_win h) @ be_bytes 2 (th_cksum h) @ be_bytes 2 (th_uptr h)"

lemma length_th_wire [simp]: "length (th_wire h) = 20"
  by (simp add: th_wire_def)

lemma str_resize_pad: "length s \<le> unat n \<Longrightarrow> str_resize s n = s @ replicate (unat n - length s) 0"
  by (simp add: str_resize_def)

lemma unat_doff_bytes: "unat (4 * ucast (d :: u8) :: u64) = 4 * unat d"
  using unat_u8_bound [of d] by (simp add: unat_word_ariths unat_ucast_mod)

lemma th_serialize_wire:
  "th_serialize h = (if th_doff h < 5 then Inl (Runtime_Error ''TCP header too short'')
     else Inr (th_wire h @ replicate (4 * unat (th_doff h) - 20) 0))"
proof (cases "th_doff h < 5")
  case False
  then have "20 \<le> unat (4 * ucast (th_doff h) :: u64)" by (simp add: unat_doff_bytes word_less_nat_alt)
  moreover have "th_serialize h = Inr (str_resize (th_wire h) (4 * ucast (th_doff h)))"
    using False by (simp add: th_serialize_def th_wire_def nu_writes be_bytes_expand [simplified])
  ultimately show ?thesis using False by (simp add: str_resize_pad unat_doff_bytes)
qed (simp add: th_serialize_def)

lemma th_flags_bits:
  "th_flags h AND 0x20 \<noteq> 0 \<longleftrightarrow> th_urg h" "th_flags h AND 0x10 \<noteq> 0 \<longleftrightarrow> th_ack h"
  "th_flags h AND 0x08 \<noteq> 0 \<longleftrightarrow> th_psh h" "th_flags h AND 0x04 \<noteq> 0 \<longleftrightarrow> th_rst h"
  "th_flags h AND 0x02 \<noteq> 0 \<longleftrightarrow> th_syn h" "th_flags h AND 0x01 \<noteq> 0 \<longleftrightarrow> th_fin h"
  by (simp_all add: th_flags_def bit.conj_disj_distrib2)

lemma be_int_bytes [simp]:
  "be_int [ucast (drop_bit 8 w), ucast w] = (w :: u16)"
  "be_int [ucast (drop_bit 24 v), ucast (drop_bit 16 v), ucast (drop_bit 8 v), ucast v] = (v :: u32)"
  using be_int_be_bytes2 [of w] be_int_be_bytes4 [of v] by (simp_all only: be_bytes_expand)

lemma doff_nibble: "unat (d :: u8) < 16 \<Longrightarrow> drop_bit 4 (push_bit 4 d) = d"
  by (simp add: word_unat_eq_iff unat_drop_bit push_bit_eq_mult unat_word_ariths)

lemma th_of_bytes_wire: "unat (th_doff h) < 16 \<Longrightarrow> th_of_bytes (th_wire h @ s) = h"
  by (cases h) (simp add: th_of_bytes_def th_wire_def be_bytes_expand Let_def doff_nibble th_flags_bits)
lemma th_parse_short:
  assumes "np_lacks p 20"
  shows "fst (th_parse p) \<noteq> NoError \<and> np_get_error (snd (snd (th_parse p))) = PacketTooShort"
proof -
  obtain sport p1 where 1: "np_u16 p = (sport, p1)" by (cases "np_u16 p")
  obtain dport p2 where 2: "np_u16 p1 = (dport, p2)" by (cases "np_u16 p1")
  obtain seqno p3 where 3: "np_u32 p2 = (seqno, p3)" by (cases "np_u32 p2")
  obtain ackno p4 where 4: "np_u32 p3 = (ackno, p4)" by (cases "np_u32 p3")
  obtain off_b p5 where 5: "np_u8 p4 = (off_b, p5)" by (cases "np_u8 p4")
  obtain fl_b p6 where 6: "np_u8 p5 = (fl_b, p6)" by (cases "np_u8 p5")
  obtain win p7 where 7: "np_u16 p6 = (win, p7)" by (cases "np_u16 p6")
  obtain cksum p8 where 8: "np_u16 p7 = (cksum, p8)" by (cases "np_u16 p7")
  obtain uptr p9 where 9: "np_u16 p8 = (uptr, p9)" by (cases "np_u16 p8")
  have "np_lacks p4 8"
    using np_lacks_reads(1) [OF np_lacks_reads(1) [OF np_lacks_reads(2) [OF np_lacks_reads(2) [OF assms 1] 2] 3] 4]
    by simp
  then have "np_lacks p9 0"
    using np_lacks_reads(2) [OF np_lacks_reads(2) [OF np_lacks_reads(2) [OF np_lacks_reads(3) [OF
      np_lacks_reads(3) [OF _ 5] 6] 7] 8] 9, of 8] by simp
  then show ?thesis
    using np_lacks_0 [of p9]
    by (simp add: th_parse_def 1 2 3 4 5 6 7 8 9 Let_def np_lacks_remove_prefix)
qed

lemma th_parse_wire:
  assumes "np_ok p" and "np_rest p = th_wire h @ replicate (4 * unat (th_doff h) - 20) 0 @ s"
    and "5 \<le> unat (th_doff h)" and "unat (th_doff h) < 16"
  shows "th_parse p = (NoError, h, np_adv p (4 * unat (th_doff h)))"
proof -
  let ?d = "ucast (th_doff h) * 4 - TCP_LENGTH :: u64"
  have d: "unat ?d = 4 * unat (th_doff h) - 20"
    using assms(3) unat_doff_bytes [of "th_doff h"]
    by (subst unat_diff_no_wrap) (simp_all add: TCP_LENGTH_def mult.commute)
  have adv: "np_ok (np_adv p 20)" "np_remove_prefix (np_adv p 20) ?d = np_adv p (4 * unat (th_doff h))"
    "np_ok (np_adv p (4 * unat (th_doff h)))"
    using assms d np_remove_prefix_ok [of "np_adv p 20" ?d] by (simp_all add: np_adv_adv)
  show ?thesis
    using assms th_parse_bytes [OF assms(1)] th_of_bytes_wire [of h "replicate (4 * unat (th_doff h) - 20) 0 @ s"] adv
    by (simp add: word_less_nat_alt)
qed

section \<open>Properties\<close>

text \<open>
  A TCP header survives the wire: for every data offset the format can express (5 to 15 words)
  \<open>serialize\<close> succeeds, and parsing its output, whatever follows it, succeeds with the same header and
  leaves the parser exactly behind the header.
\<close>

theorem th_roundtrip:
  assumes "5 \<le> unat (th_doff h)" and "unat (th_doff h) < 16"
    and "np_ok p" and "th_serialize h = Inr s" and "np_rest p = s @ rest"
  shows "th_parse p = (NoError, h, np_adv p (4 * unat (th_doff h))) \<and>
    np_rest (np_adv p (4 * unat (th_doff h))) = rest"
  using assms th_parse_wire [of p h rest] by (auto simp: th_serialize_wire split: if_splits)

theorem th_roundtrip_witness:
  "fst (snd (th_parse (NetParser (Buffer (projr (th_serialize (TCPHeader\<lparr>th_syn := True\<rparr>)))))))
   = TCPHeader\<lparr>th_syn := True\<rparr>"
proof -
  let ?h = "TCPHeader\<lparr>th_syn := True\<rparr>"
  have s: "th_serialize ?h = Inr (projr (th_serialize ?h))" "str_ok (projr (th_serialize ?h))"
    by (simp_all add: th_serialize_wire TCPHeader_def str_ok_def)
  have d: "5 \<le> unat (th_doff ?h)" "unat (th_doff ?h) < 16" by (simp_all add: TCPHeader_def)
  show ?thesis using th_roundtrip [OF d _ s(1), of "NetParser (Buffer (projr (th_serialize ?h)))" "[]"] s(2) by simp
qed

lemma seg_serialize_wire:
  fixes seg :: tcp_segment and c :: u32
  assumes "5 \<le> unat (th_doff (seg_header seg))"
  defines "h \<equiv> seg_header seg" and "pad \<equiv> replicate (4 * unat (th_doff (seg_header seg)) - 20) 0"
  defines "ck \<equiv> ck_value (ck_add (InternetChecksum c)
    (th_wire (h\<lparr>th_cksum := 0\<rparr>) @ pad @ buf_str (seg_payload seg)))"
  shows "seg_serialize seg c = Inr [Buffer (th_wire (h\<lparr>th_cksum := ck\<rparr>) @ pad), seg_payload seg]"
  using assms
  by (simp add: seg_serialize_def th_serialize_wire ck_add_append bl_append_def BufferList_def word_less_nat_alt)

lemma th_wire_cksum:
  "th_wire (h\<lparr>th_cksum := w\<rparr>) = take 16 (th_wire h) @ be_bytes 2 w @ drop 18 (th_wire h)"
  by (simp add: th_wire_def th_flags_def)

lemma seg_wire_verifies:
  assumes "unat c < 2 ^ 24" and "20 + length s \<le> 65535"
  shows "ck_value (ck_add (InternetChecksum c) (th_wire (h\<lparr>th_cksum :=
      ck_value (ck_add (InternetChecksum c) (th_wire (h\<lparr>th_cksum := 0\<rparr>) @ s))\<rparr>) @ s)) = 0"
  using ck_complement [of "take 16 (th_wire h)" c "drop 18 (th_wire h) @ s"] assms
  by (simp add: th_wire_cksum)
text \<open>What serializing and then parsing gives back: everything but the checksum field.\<close>

definition seg_same :: "tcp_segment \<Rightarrow> tcp_segment \<Rightarrow> bool" where
  "seg_same seg seg' \<longleftrightarrow> buf_str (seg_payload seg') = buf_str (seg_payload seg) \<and>
     (seg_header seg')\<lparr>th_cksum := th_cksum (seg_header seg)\<rparr> = seg_header seg"

lemma seg_serialize_parse:
  assumes "5 \<le> unat (th_doff (seg_header seg))" and "unat (th_doff (seg_header seg)) < 16"
    and "4 * unat (th_doff (seg_header seg)) + length (buf_str (seg_payload seg)) \<le> 65535" and "unat c < 2 ^ 24"
  shows "\<exists>s. seg_serialize seg c = Inr [Buffer s, seg_payload seg] \<and> length s = 4 * unat (th_doff (seg_header seg)) \<and>
    (\<forall>seg0 b. buf_ok b \<and> buf_str b = s @ buf_str (seg_payload seg) \<longrightarrow>
      (\<exists>seg'. seg_parse seg0 b c = (NoError, seg') \<and> seg_same seg seg' \<and> buf_ok (seg_payload seg')))"
proof -
  let ?h = "seg_header seg" and ?pad = "replicate (4 * unat (th_doff (seg_header seg)) - 20) 0"
  let ?s = "?pad @ buf_str (seg_payload seg)"
  define h where "h = ?h\<lparr>th_cksum := ck_value (ck_add (InternetChecksum c) (th_wire (?h\<lparr>th_cksum := 0\<rparr>) @ ?s))\<rparr>"
  have ser: "seg_serialize seg c = Inr [Buffer (th_wire h @ ?pad), seg_payload seg]"
    using seg_serialize_wire [OF assms(1)] by (simp add: h_def)
  have ck: "ck_value (ck_add (InternetChecksum c) (th_wire h @ ?s)) = 0"
    unfolding h_def using assms(1,3,4) by (intro seg_wire_verifies) simp_all
  have "\<exists>seg'. seg_parse seg0 b c = (NoError, seg') \<and> seg_same seg seg' \<and> buf_ok (seg_payload seg')"
    if "buf_ok b" and "buf_str b = th_wire h @ ?s" for seg0 b
  proof -
    let ?p = "NetParser b" and ?n = "4 * unat (th_doff h)"
    have p: "np_ok ?p" using that by simp
    then have parse: "th_parse ?p = (NoError, h, np_adv ?p ?n)"
      using assms(1,2) that by (intro th_parse_wire) (simp_all add: h_def)
    have "np_ok (np_adv ?p ?n)" "np_rest (np_adv ?p ?n) = buf_str (seg_payload seg)"
      using p that assms(1) by (simp_all add: h_def)
    moreover have "h\<lparr>th_cksum := th_cksum ?h\<rparr> = ?h" by (simp add: h_def)
    ultimately show ?thesis
      using that ck parse by (simp add: seg_parse_def seg_same_def np_rest_def np_ok_def np_get_error_def)
  qed
  then show ?thesis
    using ser assms(1) by (intro exI [of _ "th_wire h @ ?pad"]) simp
qed

text \<open>
  C16. A TCP segment survives the wire: \<open>serialize\<close> succeeds, and \<open>parse\<close> accepts what it produced
  under the same pseudo-header checksum, with the same payload and the same header up to the
  checksum field, which \<open>serialize\<close> fills in. Any segment of at most 65535 bytes qualifies.
\<close>

theorem seg_roundtrip:
  assumes "5 \<le> unat (th_doff (seg_header seg))" and "unat (th_doff (seg_header seg)) < 16"
    and "4 * unat (th_doff (seg_header seg)) + length (buf_str (seg_payload seg)) \<le> 65535"
    and "unat c < 2 ^ 24"
  shows "\<exists>bl. seg_serialize seg c = Inr bl \<and>
    (\<forall>seg0. \<exists>seg'. seg_parse seg0 (Buffer (bl_concatenate bl)) c = (NoError, seg') \<and>
       buf_str (seg_payload seg') = buf_str (seg_payload seg) \<and>
       (seg_header seg')\<lparr>th_cksum := th_cksum (seg_header seg)\<rparr> = seg_header seg)"
proof -
  obtain s where s: "seg_serialize seg c = Inr [Buffer s, seg_payload seg]"
    "length s = 4 * unat (th_doff (seg_header seg))"
    "\<forall>seg0 b. buf_ok b \<and> buf_str b = s @ buf_str (seg_payload seg) \<longrightarrow>
      (\<exists>seg'. seg_parse seg0 b c = (NoError, seg') \<and> seg_same seg seg' \<and> buf_ok (seg_payload seg'))"
    using seg_serialize_parse [OF assms] by blast
  let ?b = "Buffer (bl_concatenate [Buffer s, seg_payload seg])"
  have "buf_ok ?b" "buf_str ?b = s @ buf_str (seg_payload seg)"
    using s(2) assms(3) by (simp_all add: str_ok_def)
  then show ?thesis using s(1,3) unfolding seg_same_def by blast
qed

theorem seg_roundtrip_witness:
  "\<exists>bl. seg_serialize \<lparr>seg_header = TCPHeader, seg_payload = Buffer [1, 2, 3]\<rparr> 6 = Inr bl \<and>
     fst (seg_parse TCPSegment (Buffer (bl_concatenate bl)) 6) = NoError"
proof -
  let ?seg = "\<lparr>seg_header = TCPHeader, seg_payload = Buffer [1, 2, 3]\<rparr>"
  have "5 \<le> unat (th_doff (seg_header ?seg))" "unat (th_doff (seg_header ?seg)) < 16"
    "4 * unat (th_doff (seg_header ?seg)) + length (buf_str (seg_payload ?seg)) \<le> 65535" "unat (6 :: u32) < 2 ^ 24"
    by (simp_all add: TCPHeader_def)
  from seg_roundtrip [OF this] show ?thesis by (metis fst_conv)
qed

text \<open>
  C22. A segment damaged in one aligned 16-bit word on the way is rejected with \<open>BadChecksum\<close> and
  leaves the receiving object as it was (unless the damage only exchanges the two representations of
  zero).
\<close>

theorem seg_parse_detects_damage:
  assumes "seg_parse seg0 (Buffer (pre @ be_bytes 2 (w :: u16) @ post)) c = (NoError, seg')"
    and "even (length pre)" and "length pre + 2 + length post \<le> 65535" and "unat c < 2 ^ 24"
    and "w \<noteq> v" and "{w, v} \<noteq> {0, 0xffff}"
  shows "seg_parse seg1 (Buffer (pre @ be_bytes 2 v @ post)) c = (BadChecksum, seg1)"
proof -
  have "ck_value (ck_add (InternetChecksum c) (pre @ be_bytes 2 w @ post)) = 0"
    using assms(1) by (simp add: seg_parse_def Let_def split: if_splits)
  from ck_word_error [OF assms(2,4,3) this assms(5,6)] show ?thesis by (simp add: seg_parse_def)
qed

theorem seg_parse_detects_damage_witness:
  "seg_parse TCPSegment (Buffer ([0, 0] @ be_bytes 2 (9 :: u16) @
     [0, 0, 0, 0, 0, 0, 0, 0, 0x50, 0, 0, 0, 0xaf, 0xf7, 0, 0])) 0 = (BadChecksum, TCPSegment)"
proof -
  let ?post = "[0, 0, 0, 0, 0, 0, 0, 0, 0x50, 0, 0, 0, 0xaf, 0xf7, 0, 0] :: bytes"
  let ?r = "seg_parse TCPSegment (Buffer ([0, 0] @ be_bytes 2 (8 :: u16) @ ?post)) 0"
  have "fst ?r = NoError" by code_simp
  then have "?r = (NoError, snd ?r)" by (simp add: prod_eq_iff)
  then show ?thesis by (rule seg_parse_detects_damage) (simp_all add: doubleton_eq_iff)
qed

text \<open>
  A buffer too short for a header is never accepted.
\<close>

theorem seg_parse_too_short:
  assumes "buf_ok b" and "length (buf_str b) < 20"
  shows "fst (seg_parse seg b c) \<in> {BadChecksum, PacketTooShort}"
proof -
  have "np_lacks (NetParser b) 20" using assms by (simp add: np_lacks_def NetParser_def np_rest_def)
  then show ?thesis
    using th_parse_short [of "NetParser b"] by (auto simp: seg_parse_def Let_def split: prod.splits)
qed

theorem seg_parse_too_short_witness: "fst (seg_parse TCPSegment (Buffer [0xff, 0xff]) 0) = PacketTooShort"
proof -
  have "fst (seg_parse TCPSegment (Buffer [0xff, 0xff]) 0) \<in> {BadChecksum, PacketTooShort}"
    by (rule seg_parse_too_short) (simp_all add: str_ok_def)
  moreover have "fst (seg_parse TCPSegment (Buffer [0xff, 0xff]) 0) \<noteq> BadChecksum" by code_simp
  ultimately show ?thesis by simp
qed

text \<open>
  \<open>TCPSegment::parse\<close> drops the result of the header parser, which alone reports a data offset
  below five: this segment is accepted although its header claims a length of zero.
\<close>

theorem seg_parse_accepts_bad_doff:
  "let s = replicate 16 0 @ [0xff, 0xff, 0, 0]; (result, seg) = seg_parse TCPSegment (Buffer s) 0
   in result = NoError \<and> th_doff (seg_header seg) = 0 \<and> fst (th_parse (NetParser (Buffer s))) = HeaderTooShort"
  by code_simp

end
