(* ===== verification/IPv4.thy ===== *)
theory IPv4
  imports TCP_Segment
begin

text \<open>
  \<open>IPv4Header\<close> (tcp_helpers/ipv4_header.hh, ipv4_header.cc) and \<open>IPv4Datagram\<close>
  (tcp_helpers/ipv4_datagram.hh, ipv4_datagram.cc).
\<close>

unbundle bit_operations_syntax

section \<open>The header\<close>

definition IP_LENGTH :: u64 where "IP_LENGTH = 20"
definition DEFAULT_TTL :: u8 where "DEFAULT_TTL = 128"
definition PROTO_TCP :: u8 where "PROTO_TCP = 6"

record ipv4_header =
  ih_ver :: u8
  ih_hlen :: u8
  ih_tos :: u8
  ih_len :: u16
  ih_id :: u16
  ih_df :: bool
  ih_mf :: bool
  ih_offset :: u16
  ih_ttl :: u8
  ih_proto :: u8
  ih_cksum :: u16
  ih_src :: u32
  ih_dst :: u32

definition IPv4Header :: ipv4_header where
  "IPv4Header = \<lparr>ih_ver = 4, ih_hlen = ucast (IP_LENGTH div 4), ih_tos = 0, ih_len = 0, ih_id = 0,
     ih_df = True, ih_mf = False, ih_offset = 0, ih_ttl = DEFAULT_TTL, ih_proto = PROTO_TCP,
     ih_cksum = 0, ih_src = 0, ih_dst = 0\<rparr>"

text \<open>The part of \<open>parse\<close> that reads the fields, and the checks behind it.\<close>

definition ih_read :: "net_parser \<Rightarrow> ipv4_header \<times> net_parser" where
  "ih_read p =
    (let (first_byte, p) = np_u8 p;
         (tos, p) = np_u8 p;
         (len, p) = np_u16 p;
         (id, p) = np_u16 p;
         (fo_val, p) = np_u16 p;
         (ttl, p) = np_u8 p;
         (proto, p) = np_u8 p;
         (cksum, p) = np_u16 p;
         (src, p) = np_u32 p;
         (dst, p) = np_u32 p
     in (\<lparr>ih_ver = drop_bit 4 first_byte, ih_hlen = first_byte AND 0x0f, ih_tos = tos, ih_len = len,
          ih_id = id, ih_df = (fo_val AND 0x4000 \<noteq> 0), ih_mf = (fo_val AND 0x2000 \<noteq> 0),
          ih_offset = fo_val AND 0x1fff, ih_ttl = ttl, ih_proto = proto, ih_cksum = cksum,
          ih_src = src, ih_dst = dst\<rparr>, p))"

definition ih_parse :: "ipv4_header \<Rightarrow> net_parser \<Rightarrow> parse_result \<times> ipv4_header \<times> net_parser" where
  "ih_parse h p =
    (let original_serialized_version = np_buffer p;
         data_size = buf_size (np_buffer p)
     in if data_size < IP_LENGTH then (PacketTooShort, h, p)
        else
          let (h, p) = ih_read p
          in if data_size < 4 * ucast (ih_hlen h) then (PacketTooShort, h, p)
             else if ih_ver h \<noteq> 4 then (WrongIPVersion, h, p)
             else if ih_hlen h < 5 then (HeaderTooShort, h, p)
             else if data_size \<noteq> ucast (ih_len h) then (TruncatedPacket, h, p)
             else
               let p = np_remove_prefix p (ucast (ih_hlen h) * 4 - IP_LENGTH)
               in if np_error p then (np_get_error p, h, p)
                  else
                    let check = ck_add (InternetChecksum 0)
                          (take (4 * unat (ih_hlen h)) (buf_str original_serialized_version))
                    in if ck_value check \<noteq> 0 then (BadChecksum, h, p) else (NoError, h, p))"

definition ih_fo_val :: "ipv4_header \<Rightarrow> u16" where
  "ih_fo_val h = (if ih_df h then 0x4000 else 0) OR (if ih_mf h then 0x2000 else 0) OR (ih_offset h AND 0x1fff)"

definition ih_serialize :: "ipv4_header \<Rightarrow> exn + bytes" where
  "ih_serialize h =
    (if ih_ver h \<noteq> 4 then Inl (Runtime_Error ''wrong IP version'')
     else if 4 * ucast (ih_hlen h) < IP_LENGTH then Inl (Runtime_Error ''IP header too short'')
     else let ret = [];
              ret = nu_u8 ret (push_bit 4 (ih_ver h) OR (ih_hlen h AND 0xf));
              ret = nu_u8 ret (ih_tos h);
              ret = nu_u16 ret (ih_len h);
              ret = nu_u16 ret (ih_id h);
              ret = nu_u16 ret (ih_fo_val h);
              ret = nu_u8 ret (ih_ttl h);
              ret = nu_u8 ret (ih_proto h);
              ret = nu_u16 ret (ih_cksum h);
              ret = nu_u32 ret (ih_src h);
              ret = nu_u32 ret (ih_dst h)
          in Inr (str_resize ret (4 * ucast (ih_hlen h))))"

definition ih_payload_length :: "ipv4_header \<Rightarrow> u16" where
  "ih_payload_length h = ih_len h - 4 * ucast (ih_hlen h)"

definition ih_pseudo_cksum :: "ipv4_header \<Rightarrow> u32" where
  "ih_pseudo_cksum h =
    (let pcksum = drop_bit 16 (ih_src h) + (ih_src h AND 0xffff);
         pcksum = pcksum + (drop_bit 16 (ih_dst h) + (ih_dst h AND 0xffff));
         pcksum = pcksum + ucast (ih_proto h);
         pcksum = pcksum + ucast (ih_payload_length h)
     in pcksum)"

section \<open>The datagram\<close>

record ipv4_datagram =
  dg_header :: ipv4_header
  dg_payload :: buffer_list

definition IPv4Datagram :: ipv4_datagram where
  "IPv4Datagram = \<lparr>dg_header = IPv4Header, dg_payload = []\<rparr>"

text \<open>As in \<open>TCPSegment\<close>, the result of the header parser is not used.\<close>

definition dg_parse :: "ipv4_datagram \<Rightarrow> buffer \<Rightarrow> parse_result \<times> ipv4_datagram" where
  "dg_parse d buf =
    (let (_, h, p) = ih_parse (dg_header d) (NetParser buf);
         d = \<lparr>dg_header = h, dg_payload = [np_buffer p]\<rparr>
     in if bl_size (dg_payload d) \<noteq> ucast (ih_payload_length h) then (PacketTooShort, d)
        else (np_get_error p, d))"

definition dg_serialize :: "ipv4_datagram \<Rightarrow> exn + buffer_list" where
  "dg_serialize d =
    (if bl_size (dg_payload d) \<noteq> ucast (ih_payload_length (dg_header d))
     then Inl (Runtime_Error ''IPv4Datagram::serialize: payload is wrong size'')
     else
       let header_out = (dg_header d)\<lparr>ih_cksum := 0\<rparr>
       in case ih_serialize header_out of
            Inl e \<Rightarrow> Inl e
          | Inr header_zero_checksum \<Rightarrow>
              let check = ck_add (InternetChecksum 0) header_zero_checksum;
                  header_out = header_out\<lparr>ih_cksum := ck_value check\<rparr>
              in case ih_serialize header_out of
                   Inl e \<Rightarrow> Inl e
                 | Inr s \<Rightarrow> Inr (bl_append (bl_append [] (BufferList s)) (dg_payload d)))"

section \<open>Parsing inverts serializing\<close>

definition ih_of_bytes :: "bytes \<Rightarrow> ipv4_header" where
  "ih_of_bytes s =
    (let fo_val = be_int (take 2 (drop 6 s)) :: u16 in
     \<lparr>ih_ver = drop_bit 4 (s ! 0), ih_hlen = s ! 0 AND 0x0f, ih_tos = s ! 1, ih_len = be_int (take 2 (drop 2 s)),
      ih_id = be_int (take 2 (drop 4 s)), ih_df = (fo_val AND 0x4000 \<noteq> 0), ih_mf = (fo_val AND 0x2000 \<noteq> 0),
      ih_offset = fo_val AND 0x1fff, ih_ttl = s ! 8, ih_proto = s ! 9, ih_cksum = be_int (take 2 (drop 10 s)),
      ih_src = be_int (take 4 (drop 12 s)), ih_dst = be_int (take 4 (drop 16 s))\<rparr>)"

lemma ih_read_bytes:
  assumes "np_ok p" and "20 \<le> length (np_rest p)"
  shows "ih_read p = (ih_of_bytes (np_rest p), np_adv p 20)"
  using assms by (simp add: ih_read_def np_reads np_adv_adv ih_of_bytes_def Let_def) (simp add: numeral_nat)

definition ih_wire :: "ipv4_header \<Rightarrow> bytes" where
  "ih_wire h = [push_bit 4 (ih_ver h) OR (ih_hlen h AND 0xf), ih_tos h] @ be_bytes 2 (ih_len h) @ be_bytes 2 (ih_id h) @
     be_bytes 2 (ih_fo_val h) @ [ih_ttl h, ih_proto h] @ be_bytes 2 (ih_cksum h) @ be_bytes 4 (ih_src h) @
     be_bytes 4 (ih_dst h)"

lemma length_ih_wire [simp]: "length (ih_wire h) = 20"
  by (simp add: ih_wire_def)

text \<open>The header as the format describes it: version 4, five to fifteen words, 13 bits of offset.\<close>

definition ih_ok :: "ipv4_header \<Rightarrow> bool" where
  "ih_ok h \<longleftrightarrow> ih_ver h = 4 \<and> 5 \<le> unat (ih_hlen h) \<and> unat (ih_hlen h) < 16 \<and> unat (ih_offset h) < 8192"

definition ih_pad :: "ipv4_header \<Rightarrow> bytes" where
  "ih_pad h = replicate (4 * unat (ih_hlen h) - 20) 0"

lemma ih_serialize_wire:
  assumes "ih_ver h = 4" and "5 \<le> unat (ih_hlen h)"
  shows "ih_serialize h = Inr (ih_wire h @ ih_pad h)"
proof -
  have n: "unat (4 * ucast (ih_hlen h) :: u64) = 4 * unat (ih_hlen h)" by (rule unat_doff_bytes)
  then have "ih_serialize h = Inr (str_resize (ih_wire h) (4 * ucast (ih_hlen h)))"
    using assms by (simp add: ih_serialize_def ih_wire_def nu_writes be_bytes_expand [simplified] IP_LENGTH_def word_less_nat_alt)
  then show ?thesis using n assms(2) by (simp add: str_resize_pad ih_pad_def)
qed

lemma take_bit_unat_self: "unat (n :: 'a::len word) < 2 ^ k \<Longrightarrow> take_bit k n = n"
  by (simp add: word_unat_eq_iff unsigned_take_bit_eq take_bit_nat_eq_self)

lemma ih_nibble:
  assumes "unat (n :: u8) < 16"
  shows "n AND 15 = n" "drop_bit 4 n = 0" "(64 OR n) AND 15 = n"
proof -
  have m: "(15 :: u8) = mask 4" by (simp add: mask_eq_exp_minus_1)
  have n: "take_bit 4 n = n" using take_bit_unat_self [of n 4] assms by simp
  then show "drop_bit 4 n = 0" using drop_bit_take_bit [of 4 4 n] by simp
  show "n AND 15 = n" "(64 OR n) AND 15 = n"
    using n by (simp_all add: m take_bit_eq_mask [symmetric]) 
qed

lemma ih_fo_val_bits:
  assumes "unat (ih_offset h) < 8192"
  shows "ih_fo_val h AND 0x4000 \<noteq> 0 \<longleftrightarrow> ih_df h" "ih_fo_val h AND 0x2000 \<noteq> 0 \<longleftrightarrow> ih_mf h"
    "ih_fo_val h AND 0x1fff = ih_offset h"
proof -
  have m: "(0x1fff :: u16) = mask 13" by (simp add: mask_eq_exp_minus_1)
  have o: "ih_offset h AND 0x1fff = ih_offset h"
    using take_bit_unat_self [of "ih_offset h" 13] assms unfolding m by (simp add: take_bit_eq_mask [symmetric])
  then have "ih_offset h AND 0x4000 = ih_offset h AND (0x1fff AND 0x4000)"
    "ih_offset h AND 0x2000 = ih_offset h AND (0x1fff AND 0x2000)"
    by (simp_all only: and.assoc [symmetric])
  then show "ih_fo_val h AND 0x4000 \<noteq> 0 \<longleftrightarrow> ih_df h" "ih_fo_val h AND 0x2000 \<noteq> 0 \<longleftrightarrow> ih_mf h"
    "ih_fo_val h AND 0x1fff = ih_offset h"
    by (simp_all add: ih_fo_val_def o bit.conj_disj_distrib2)
qed

lemma ih_of_bytes_wire: "ih_ok h \<Longrightarrow> ih_of_bytes (ih_wire h @ s) = h"
  by (cases h) (simp add: ih_ok_def ih_of_bytes_def ih_wire_def be_bytes_expand Let_def ih_nibble ih_fo_val_bits)

text \<open>A well-formed header in front of the parser: only the checksum can still be wrong.\<close>

lemma ih_parse_wire:
  assumes "buf_ok b" and "buf_str b = ih_wire h @ ih_pad h @ s" and "ih_ok h" and "unat (ih_len h) = length (buf_str b)"
  shows "ih_parse h0 (NetParser b) =
    ((if ck_value (ck_add (InternetChecksum 0) (ih_wire h @ ih_pad h)) = 0 then NoError else BadChecksum),
     h, np_adv (NetParser b) (4 * unat (ih_hlen h)))"
proof -
  let ?p = "NetParser b" and ?n = "4 * unat (ih_hlen h)"
  have hl: "5 \<le> unat (ih_hlen h)" "ih_ver h = 4" using assms(3) by (simp_all add: ih_ok_def)
  have pad: "length (ih_pad h) = ?n - 20" by (simp add: ih_pad_def)
  have size: "unat (buf_size b) = 20 + length (ih_pad h) + length s" using assms(1,2) by (simp add: buf_size_nat)
  have read: "ih_read ?p = (h, np_adv ?p 20)"
    using ih_read_bytes [of ?p] assms(1,2) ih_of_bytes_wire [OF assms(3)] by simp
  have d: "unat (ucast (ih_hlen h) * 4 - IP_LENGTH :: u64) = ?n - 20"
    using hl(1) unat_doff_bytes [of "ih_hlen h"]
    by (subst unat_diff_no_wrap) (simp_all add: IP_LENGTH_def mult.commute)
  have adv: "np_remove_prefix (np_adv ?p 20) (ucast (ih_hlen h) * 4 - IP_LENGTH) = np_adv ?p ?n" "np_ok (np_adv ?p ?n)"
    using assms(1,2) d hl(1) np_remove_prefix_ok [of "np_adv ?p 20" "ucast (ih_hlen h) * 4 - IP_LENGTH"] pad
    by (simp_all add: np_adv_adv)
  have tk: "take ?n (buf_str b) = ih_wire h @ ih_pad h" using assms(2) hl(1) pad by simp
  have "\<not> buf_size b < IP_LENGTH" "\<not> buf_size b < 4 * ucast (ih_hlen h)" "\<not> ih_hlen h < 5"
    "buf_size b = ucast (ih_len h)"
    using size hl(1) pad assms(2,4) unat_doff_bytes [of "ih_hlen h"] unat_u16_bound [of "ih_len h"]
    by (simp_all add: IP_LENGTH_def word_less_nat_alt word_unat_eq_iff unat_ucast_mod)
  then show ?thesis
    using hl(2) adv tk read by (simp add: ih_parse_def Let_def NetParser_def) 
qed

lemma ih_wire_cksum:
  "ih_wire (h\<lparr>ih_cksum := w\<rparr>) = take 10 (ih_wire h) @ be_bytes 2 w @ drop 12 (ih_wire h)"
  by (simp add: ih_wire_def ih_fo_val_def)

lemma ih_frame [simp]:
  "ih_ok (h\<lparr>ih_cksum := w\<rparr>) = ih_ok h" "ih_pad (h\<lparr>ih_cksum := w\<rparr>) = ih_pad h"
  "ih_payload_length (h\<lparr>ih_cksum := w\<rparr>) = ih_payload_length h"
  by (simp_all add: ih_ok_def ih_pad_def ih_payload_length_def)

lemma ih_wire_verifies:
  assumes "unat (ih_hlen h) < 16"
  shows "ck_value (ck_add (InternetChecksum 0) (ih_wire (h\<lparr>ih_cksum :=
      ck_value (ck_add (InternetChecksum 0) (ih_wire (h\<lparr>ih_cksum := 0\<rparr>) @ ih_pad h))\<rparr>) @ ih_pad h)) = 0"
  using ck_complement [of "take 10 (ih_wire h)" 0 "drop 12 (ih_wire h) @ ih_pad h"] assms
  by (simp add: ih_wire_cksum ih_pad_def)

text \<open>The length field says what header and payload take together.\<close>

definition dg_ok :: "ipv4_datagram \<Rightarrow> bool" where
  "dg_ok d \<longleftrightarrow> ih_ok (dg_header d) \<and> bl_ok (dg_payload d) \<and>
     unat (ih_len (dg_header d)) = 4 * unat (ih_hlen (dg_header d)) + length (bl_concatenate (dg_payload d))"

lemma ih_payload_length_nat:
  "4 * unat (ih_hlen h) \<le> unat (ih_len h) \<Longrightarrow> unat (ih_payload_length h) = unat (ih_len h) - 4 * unat (ih_hlen h)"
  unfolding ih_payload_length_def using unat_u8_bound [of "ih_hlen h"]
  by (subst unat_diff_no_wrap) (simp_all add: unat_word_ariths unat_ucast_mod)

lemma dg_size:
  assumes "dg_ok d"
  shows "bl_size (dg_payload d) = ucast (ih_payload_length (dg_header d))"
  using assms ih_payload_length_nat [of "dg_header d"] unat_u16_bound [of "ih_len (dg_header d)"]
  by (simp add: dg_ok_def word_unat_eq_iff unat_ucast_mod bl_size_concatenate blc.valid_size)

lemma dg_serialize_wire:
  fixes d :: ipv4_datagram
  assumes "dg_ok d"
  defines "h \<equiv> dg_header d"
  defines "ck \<equiv> ck_value (ck_add (InternetChecksum 0) (ih_wire (h\<lparr>ih_cksum := 0\<rparr>) @ ih_pad h))"
  shows "dg_serialize d = Inr (Buffer (ih_wire (h\<lparr>ih_cksum := ck\<rparr>) @ ih_pad h) # dg_payload d)"
  using assms dg_size [OF assms(1)]
  by (simp add: dg_serialize_def ih_serialize_wire dg_ok_def ih_ok_def bl_append_def BufferList_def)

text \<open>What \<open>parse\<close> makes of a well-formed header and a payload of the right size, whatever the checksum field holds.\<close>

lemma dg_parse_wire:
  assumes "ih_ok h" and "unat (ih_len h) = 4 * unat (ih_hlen h) + length s"
  defines "b \<equiv> Buffer (ih_wire h @ ih_pad h @ s)"
  shows "\<And>d0. dg_parse d0 b = (NoError, \<lparr>dg_header = h, dg_payload = [np_buffer (np_adv (NetParser b) (4 * unat (ih_hlen h)))]\<rparr>)"
    and "buf_str (np_buffer (np_adv (NetParser b) (4 * unat (ih_hlen h)))) = s"
    and "buf_ok (np_buffer (np_adv (NetParser b) (4 * unat (ih_hlen h))))"
proof -
  let ?p = "np_adv (NetParser b) (4 * unat (ih_hlen h))"
  have hl: "5 \<le> unat (ih_hlen h)" using assms(1) by (simp add: ih_ok_def)
  have len: "length (ih_wire h @ ih_pad h) = 4 * unat (ih_hlen h)" using hl by (simp add: ih_pad_def)
  have b: "buf_ok b" "buf_str b = ih_wire h @ ih_pad h @ s" "unat (ih_len h) = length (buf_str b)"
    using assms(2) len unat_u16_bound [of "ih_len h"] by (simp_all add: b_def str_ok_def)
  have p: "np_ok ?p" "np_rest ?p = s"
    using b len by simp_all
  then show 1: "buf_str (np_buffer ?p) = s" "buf_ok (np_buffer ?p)" by (simp_all add: np_rest_def np_ok_def)
  have "unat (ih_payload_length h) = length s" using assms(2) ih_payload_length_nat [of h] by simp
  moreover have "str_ok s" using assms(2) unat_u16_bound [of "ih_len h"] by (simp add: str_ok_def)
  ultimately have "bl_size [np_buffer ?p] = ucast (ih_payload_length h)"
    using 1 by (simp add: bl_size_concatenate word_unat_eq_iff unat_ucast_mod str_ok_def)
  then show "dg_parse d0 b = (NoError, \<lparr>dg_header = h, dg_payload = [np_buffer ?p]\<rparr>)" for d0
    using ih_parse_wire [OF b(1,2) assms(1) b(3), of "dg_header d0"] p(1) by (simp add: dg_parse_def Let_def)
qed

text \<open>The same datagram up to the header checksum.\<close>

definition dg_same :: "ipv4_datagram \<Rightarrow> ipv4_datagram \<Rightarrow> bool" where
  "dg_same d d' \<longleftrightarrow> bl_concatenate (dg_payload d') = bl_concatenate (dg_payload d) \<and>
     (dg_header d')\<lparr>ih_cksum := ih_cksum (dg_header d)\<rparr> = dg_header d"

lemma dg_serialize_parse:
  assumes "dg_ok d"
  shows "\<exists>bl. dg_serialize d = Inr bl \<and> length (bl_concatenate bl) = unat (ih_len (dg_header d)) \<and>
    (\<forall>d0. \<exists>d'. dg_parse d0 (Buffer (bl_concatenate bl)) = (NoError, d') \<and> dg_same d d' \<and> bl_ok (dg_payload d')) \<and>
    (\<forall>h0. fst (ih_parse h0 (NetParser (Buffer (bl_concatenate bl)))) = NoError)"
proof -
  let ?h = "dg_header d" and ?s = "bl_concatenate (dg_payload d)"
  define h where "h = ?h\<lparr>ih_cksum := ck_value (ck_add (InternetChecksum 0) (ih_wire (?h\<lparr>ih_cksum := 0\<rparr>) @ ih_pad ?h))\<rparr>"
  define b where "b = Buffer (ih_wire h @ ih_pad h @ ?s)"
  have h: "ih_ok h" "unat (ih_len h) = 4 * unat (ih_hlen h) + length ?s" "unat (ih_hlen ?h) < 16" "5 \<le> unat (ih_hlen h)"
    using assms by (simp_all add: h_def dg_ok_def) (simp_all add: ih_ok_def)
  have len: "length (ih_wire h @ ih_pad h @ ?s) = unat (ih_len h)" using h(2,4) by (simp add: ih_pad_def)
  have bl: "dg_serialize d = Inr (Buffer (ih_wire h @ ih_pad h) # dg_payload d)"
    using dg_serialize_wire [OF assms] by (simp add: h_def)
  have "ck_value (ck_add (InternetChecksum 0) (ih_wire h @ ih_pad h)) = 0"
    using ih_wire_verifies [OF h(3)] by (simp add: h_def)
  moreover have "buf_ok b" "unat (ih_len h) = length (buf_str b)"
    using len unat_u16_bound [of "ih_len h"] by (simp_all add: b_def str_ok_def)
  ultimately have ck: "fst (ih_parse h0 (NetParser b)) = NoError" for h0
    using ih_parse_wire [of b h ?s h0] h(1) by (simp add: b_def)
  define d' where "d' = \<lparr>dg_header = h, dg_payload = [np_buffer (np_adv (NetParser b) (4 * unat (ih_hlen h)))]\<rparr>"
  have p: "dg_parse d0 b = (NoError, d')" for d0 using dg_parse_wire(1) [OF h(1,2)] by (simp add: d'_def b_def)
  have "bl_ok (dg_payload d')" "dg_same d d'"
    using dg_parse_wire(2,3) [OF h(1,2)] assms by (simp_all add: d'_def b_def bl_ok_def dg_same_def h_def dg_ok_def)
  then show ?thesis
    using bl ck p len unfolding b_def by (intro exI [of _ "Buffer (ih_wire h @ ih_pad h) # dg_payload d"]) (auto simp: h_def)
qed

lemma dg_same_ok: "dg_ok d \<Longrightarrow> dg_same d d' \<Longrightarrow> bl_ok (dg_payload d') \<Longrightarrow> dg_ok d'"
proof -
  assume d: "dg_ok d" and s: "dg_same d d'" and b: "bl_ok (dg_payload d')"
  have h: "(dg_header d')\<lparr>ih_cksum := ih_cksum (dg_header d)\<rparr> = dg_header d" using s by (simp add: dg_same_def)
  have "ih_ok (dg_header d')" "ih_len (dg_header d') = ih_len (dg_header d)" "ih_hlen (dg_header d') = ih_hlen (dg_header d)"
    using d arg_cong [OF h, of ih_ok] arg_cong [OF h, of ih_len] arg_cong [OF h, of ih_hlen] by (simp_all add: dg_ok_def)
  then show ?thesis using d s b by (simp add: dg_ok_def dg_same_def)
qed

section \<open>Properties\<close>

text \<open>
  C23. An Internet datagram survives the wire: for a header the format can express and a length field that
  counts header and payload, \<open>serialize\<close> succeeds, \<open>parse\<close> accepts the result and yields the same payload
  and the same header up to the checksum, which \<open>serialize\<close> fills in so that the header parser
  accepts it too.
\<close>

theorem dg_roundtrip:
  assumes "dg_ok d"
  shows "\<exists>bl. dg_serialize d = Inr bl \<and>
    (\<forall>d0. \<exists>d'. dg_parse d0 (Buffer (bl_concatenate bl)) = (NoError, d') \<and>
       bl_concatenate (dg_payload d') = bl_concatenate (dg_payload d) \<and>
       (dg_header d')\<lparr>ih_cksum := ih_cksum (dg_header d)\<rparr> = dg_header d) \<and>
    (\<forall>h0. fst (ih_parse h0 (NetParser (Buffer (bl_concatenate bl)))) = NoError)"
  using dg_serialize_parse [OF assms] unfolding dg_same_def by meson

text \<open>A datagram for the witnesses.\<close>

definition dg_example :: ipv4_datagram where
  "dg_example = \<lparr>dg_header = IPv4Header\<lparr>ih_len := 23, ih_src := 0x0a000001, ih_dst := 0x0a000002\<rparr>,
     dg_payload = [Buffer [1, 2, 3]]\<rparr>"

lemma dg_example_ok: "dg_ok dg_example"
  by (simp add: dg_ok_def dg_example_def ih_ok_def IPv4Header_def IP_LENGTH_def bl_ok_def str_ok_def)

theorem dg_roundtrip_witness:
  "\<exists>bl. dg_serialize dg_example = Inr bl \<and> fst (dg_parse IPv4Datagram (Buffer (bl_concatenate bl))) = NoError"
  using dg_roundtrip [OF dg_example_ok] by (metis fst_conv)

text \<open>
  \<open>IPv4Datagram::parse\<close> drops the result of the header parser, which alone checks the checksum: with a
  header the format can express and a matching length, a datagram is accepted whatever its checksum
  field holds, also when the header parser reports \<open>BadChecksum\<close>.
\<close>

theorem dg_parse_ignores_checksum:
  assumes "ih_ok h" and "unat (ih_len h) = 4 * unat (ih_hlen h) + length s" and "ih_serialize h = Inr hdr"
  shows "\<exists>d'. dg_parse d0 (Buffer (hdr @ s)) = (NoError, d') \<and> dg_header d' = h \<and> bl_concatenate (dg_payload d') = s"
proof -
  have "hdr = ih_wire h @ ih_pad h" using assms(1,3) by (simp add: ih_serialize_wire ih_ok_def)
  then show ?thesis using dg_parse_wire [OF assms(1,2)] by simp
qed

theorem dg_parse_ignores_checksum_witness:
  "let h = IPv4Header\<lparr>ih_len := 20, ih_cksum := 0xbad\<rparr>; b = Buffer (projr (ih_serialize h))
   in fst (ih_parse h (NetParser b)) = BadChecksum \<and> fst (dg_parse IPv4Datagram b) = NoError"
proof -
  let ?h = "IPv4Header\<lparr>ih_len := 20, ih_cksum := 0xbad\<rparr>"
  have "ih_ok ?h" "unat (ih_len ?h) = 4 * unat (ih_hlen ?h) + length ([] :: bytes)"
    by (simp_all add: ih_ok_def IPv4Header_def IP_LENGTH_def)
  moreover have "ih_serialize ?h = Inr (projr (ih_serialize ?h))" by code_simp
  ultimately have "fst (dg_parse IPv4Datagram (Buffer (projr (ih_serialize ?h) @ []))) = NoError"
    using dg_parse_ignores_checksum [of ?h "[]" "projr (ih_serialize ?h)" IPv4Datagram] by auto
  moreover have "fst (ih_parse ?h (NetParser (Buffer (projr (ih_serialize ?h))))) = BadChecksum" by code_simp
  ultimately show ?thesis by simp
qed

text \<open>The contribution of the pseudo-header is small enough for the checksum of any segment not to overflow.\<close>

lemma ih_pseudo_cksum_bound: "unat (ih_pseudo_cksum h) < 2 ^ 24"
proof -
  define a where "a = drop_bit 16 (ih_src h) + (ih_src h AND 0xffff)"
  define b where "b = drop_bit 16 (ih_dst h) + (ih_dst h AND 0xffff)"
  have "unat r div 65536 + unat r mod 65536 < 131072" for r :: u32
    using unat_u32_bound [of r] div_less_iff_less_mult [of 65536 "unat r" 65536] mod_less_divisor [of 65536 "unat r"]
    by simp
  then have "unat a < 131072" "unat b < 131072" unfolding a_def b_def unat_u32_halves by simp_all
  then have "unat (a + b + ucast (ih_proto h) + ucast (ih_payload_length h)) < 2 ^ 24"
    using unat_u8_bound [of "ih_proto h"] unat_u16_bound [of "ih_payload_length h"]
    by (simp add: unat_word_ariths unat_ucast_mod)
  then show ?thesis by (simp add: ih_pseudo_cksum_def a_def b_def)
qed

end
