(* ===== verification/Strings.thy ===== *)
theory Strings
  imports Sponge_Prelude
begin

text \<open>
  What the program uses of the standard library's conversions between numbers and text: \<open>to_string\<close>, the
  stream manipulators \<open>hex\<close>, \<open>setw\<close>, \<open>setfill\<close> and \<open>boolalpha\<close>, \<open>stoi\<close>, and \<open>inet_ntoa\<close>.
\<close>

section \<open>Printing\<close>

definition digit_char :: "nat \<Rightarrow> char" where
  "digit_char d = ''0123456789abcdef'' ! d"

fun radix_string :: "nat \<Rightarrow> nat \<Rightarrow> string" where
  "radix_string b n =
    (if n < b \<or> b < 2 then [digit_char n] else radix_string b (n div b) @ [digit_char (n mod b)])"

declare radix_string.simps [simp del]

definition dec_string :: "nat \<Rightarrow> string" where "dec_string = radix_string 10"

definition hex_string :: "nat \<Rightarrow> string" where "hex_string = radix_string 16"

definition setw :: "nat \<Rightarrow> char \<Rightarrow> string \<Rightarrow> string" where
  "setw w fill s = replicate (w - length s) fill @ s"

definition bool_alpha :: "bool \<Rightarrow> string" where
  "bool_alpha b = (if b then ''true'' else ''false'')"

definition bool_digit :: "bool \<Rightarrow> string" where
  "bool_digit b = (if b then ''1'' else ''0'')"

text \<open>\<open>inet_ntoa({htobe32(a)})\<close>: the bytes of the address from the top, in decimal.\<close>

definition inet_ntoa :: "u32 \<Rightarrow> string" where
  "inet_ntoa a =
    dec_string (unat (drop_bit 24 a)) @ ''.'' @ dec_string (unat (drop_bit 16 a) mod 256) @ ''.'' @
    dec_string (unat (drop_bit 8 a) mod 256) @ ''.'' @ dec_string (unat a mod 256)"

section \<open>Reading\<close>

definition is_digit :: "char \<Rightarrow> bool" where
  "is_digit c \<longleftrightarrow> c \<in> set ''0123456789''"

definition digit_value :: "char \<Rightarrow> nat" where
  "digit_value c = of_char c - 48"

definition digits_value :: "string \<Rightarrow> nat" where
  "digits_value s = foldl (\<lambda>n c. 10 * n + digit_value c) 0 s"

definition is_space :: "char \<Rightarrow> bool" where
  "is_space c \<longleftrightarrow> of_char c = (32 :: nat) \<or> 9 \<le> (of_char c :: nat) \<and> of_char c \<le> (13 :: nat)"

text \<open>\<open>stoi\<close> skips white space, takes a sign and the digits behind it, and ignores the rest.\<close>

definition stoi :: "string \<Rightarrow> exn + int" where
  "stoi s =
    (let s = dropWhile is_space s;
         neg = (s \<noteq> [] \<and> hd s = CHR ''-'');
         s = (if s \<noteq> [] \<and> (hd s = CHR ''-'' \<or> hd s = CHR ''+'') then tl s else s);
         ds = takeWhile is_digit s;
         v = (if neg then - int (digits_value ds) else int (digits_value ds))
     in if ds = [] then Inl (Invalid_Argument ''stoi'')
        else if v < - (2 ^ 31) \<or> 2 ^ 31 \<le> v then Inl (Out_Of_Range ''stoi'')
        else Inr v)"

section \<open>Lemmas\<close>

lemma digit_char_digit:
  assumes "d < 10"
  shows "is_digit (digit_char d)" "digit_value (digit_char d) = d"
proof -
  have "d \<in> {0, 1, 2, 3, 4, 5, 6, 7, 8, 9}" using assms by auto
  then show "is_digit (digit_char d)" "digit_value (digit_char d) = d"
    by (auto simp: digit_char_def is_digit_def digit_value_def)
qed

lemma dec_string_digits: "list_all is_digit (dec_string n) \<and> dec_string n \<noteq> [] \<and> digits_value (dec_string n) = n"
  unfolding dec_string_def
proof (induction "10 :: nat" n rule: radix_string.induct)
  case (1 n)
  then show ?case
    by (subst (1 2 3) radix_string.simps) (auto simp: digit_char_digit digits_value_def)
qed

lemma is_digit_facts: "is_digit c \<Longrightarrow> \<not> is_space c \<and> c \<noteq> CHR ''-'' \<and> c \<noteq> CHR ''+'' \<and> c \<noteq> CHR ''.''"
  by (auto simp: is_digit_def is_space_def)

lemma stoi_dec_string:
  assumes "n < 2 ^ 31"
  shows "stoi (dec_string n) = Inr (int n)"
proof -
  obtain c s where s: "dec_string n = c # s" using dec_string_digits [of n] by (cases "dec_string n") auto
  have c: "is_digit c" and tw: "takeWhile is_digit s = s"
    using dec_string_digits [of n] by (simp_all add: s list_all_iff takeWhile_eq_all_conv)
  from c show ?thesis
    using is_digit_facts [of c] assms dec_string_digits [of n]
    by (simp add: stoi_def s Let_def tw)
qed

lemma dec_string_inj: "dec_string m = dec_string n \<longleftrightarrow> m = n"
  by (metis dec_string_digits)

end
