(* ===== verification/Ethernet.thy ===== *)
theory Ethernet
  imports IPv4 Strings
begin

text \<open>
  Ethernet framing and ARP: \<open>EthernetHeader\<close> (tcp_helpers/ethernet_header.hh, ethernet_header.cc),
  \<open>EthernetFrame\<close> (tcp_helpers/ethernet_frame.hh, ethernet_frame.cc) and \<open>ARPMessage\<close>
  (tcp_helpers/arp_message.hh, arp_message.cc).
\<close>

section \<open>The header\<close>

type_synonym ethernet_address = "u8 list"

definition ETHERNET_BROADCAST :: ethernet_address where
  "ETHERNET_BROADCAST = [0xff, 0xff, 0xff, 0xff, 0xff, 0xff]"

definition ETH_LENGTH :: u64 where "ETH_LENGTH = 14"
definition TYPE_IPv4 :: u16 where "TYPE_IPv4 = 0x800"
definition TYPE_ARP :: u16 where "TYPE_ARP = 0x806"

record ethernet_header =
  eh_dst :: ethernet_address
  eh_src :: ethernet_address
  eh_type :: u16

text \<open>Value initialization, as in \<open>EthernetHeader h{}\<close>.\<close>

definition EthernetHeader :: ethernet_header where
  "EthernetHeader = \<lparr>eh_dst = replicate 6 0, eh_src = replicate 6 0, eh_type = 0\<rparr>"

definition eh_parse :: "ethernet_header \<Rightarrow> net_parser \<Rightarrow> parse_result \<times> ethernet_header \<times> net_parser" where
  "eh_parse h p =
    (if buf_size (np_buffer p) < ETH_LENGTH then (PacketTooShort, h, p)
     else
       let (dst, p) = read_many np_u8 6 p;
           (src, p) = read_many np_u8 6 p;
           (type, p) = np_u16 p
       in (np_get_error p, \<lparr>eh_dst = dst, eh_src = src, eh_type = type\<rparr>, p))"

text \<open>The loop that writes the bytes of an address.\<close>

definition put_address :: "bytes \<Rightarrow> ethernet_address \<Rightarrow> bytes" where
  "put_address ret a = fold (\<lambda>byte ret. nu_u8 ret byte) a ret"

definition eh_serialize :: "ethernet_header \<Rightarrow> bytes" where
  "eh_serialize h =
    (let ret = [];
         ret = put_address ret (eh_dst h);
         ret = put_address ret (eh_src h);
         ret = nu_u16 ret (eh_type h)
     in ret)"

fun eth_to_string :: "ethernet_address \<Rightarrow> string" where
  "eth_to_string [] = []"
| "eth_to_string [b] = setw 2 (CHR ''0'') (hex_string (unat b))"
| "eth_to_string (b # bs) = setw 2 (CHR ''0'') (hex_string (unat b)) @ '':'' @ eth_to_string bs"

definition eh_to_string :: "ethernet_header \<Rightarrow> string" where
  "eh_to_string h = ''dst='' @ eth_to_string (eh_dst h) @ '', src='' @ eth_to_string (eh_src h) @ '', type='' @
    (if eh_type h = TYPE_IPv4 then ''IPv4''
     else if eh_type h = TYPE_ARP then ''ARP''
     else ''[unknown type '' @ hex_string (unat (eh_type h)) @ ''!]'')"

section \<open>The frame\<close>

record ethernet_frame =
  ef_header :: ethernet_header
  ef_payload :: buffer_list

definition EthernetFrame :: ethernet_frame where
  "EthernetFrame = \<lparr>ef_header = EthernetHeader, ef_payload = []\<rparr>"

definition ef_parse :: "ethernet_frame \<Rightarrow> buffer \<Rightarrow> parse_result \<times> ethernet_frame" where
  "ef_parse f buf =
    (let (_, h, p) = eh_parse (ef_header f) (NetParser buf)
     in (np_get_error p, \<lparr>ef_header = h, ef_payload = [np_buffer p]\<rparr>))"

definition ef_serialize :: "ethernet_frame \<Rightarrow> buffer_list" where
  "ef_serialize f = bl_append (bl_append [] (BufferList (eh_serialize (ef_header f)))) (ef_payload f)"

section \<open>ARP\<close>

definition ARP_LENGTH :: u64 where "ARP_LENGTH = 28"
definition TYPE_ETHERNET :: u16 where "TYPE_ETHERNET = 1"
definition OPCODE_REQUEST :: u16 where "OPCODE_REQUEST = 1"
definition OPCODE_REPLY :: u16 where "OPCODE_REPLY = 2"

record arp_message =
  am_hardware_type :: u16
  am_protocol_type :: u16
  am_hardware_address_size :: u8
  am_protocol_address_size :: u8
  am_opcode :: u16
  am_sender_ethernet_address :: ethernet_address
  am_sender_ip_address :: u32
  am_target_ethernet_address :: ethernet_address
  am_target_ip_address :: u32

definition ARPMessage :: arp_message where
  "ARPMessage = \<lparr>am_hardware_type = TYPE_ETHERNET, am_protocol_type = TYPE_IPv4, am_hardware_address_size = 6,
     am_protocol_address_size = 4, am_opcode = 0, am_sender_ethernet_address = replicate 6 0,
     am_sender_ip_address = 0, am_target_ethernet_address = replicate 6 0, am_target_ip_address = 0\<rparr>"

definition am_supported :: "arp_message \<Rightarrow> bool" where
  "am_supported m \<longleftrightarrow> am_hardware_type m = TYPE_ETHERNET \<and> am_protocol_type m = TYPE_IPv4 \<and>
     am_hardware_address_size m = 6 \<and> am_protocol_address_size m = 4 \<and>
     (am_opcode m = OPCODE_REQUEST \<or> am_opcode m = OPCODE_REPLY)"

definition am_parse :: "arp_message \<Rightarrow> buffer \<Rightarrow> parse_result \<times> arp_message" where
  "am_parse m buf =
    (let p = NetParser buf in
     if buf_size (np_buffer p) < ARP_LENGTH then (PacketTooShort, m)
     else
       let (hardware_type, p) = np_u16 p;
           (protocol_type, p) = np_u16 p;
           (hardware_address_size, p) = np_u8 p;
           (protocol_address_size, p) = np_u8 p;
           (opcode, p) = np_u16 p;
           m = m\<lparr>am_hardware_type := hardware_type, am_protocol_type := protocol_type,
                 am_hardware_address_size := hardware_address_size,
                 am_protocol_address_size := protocol_address_size, am_opcode := opcode\<rparr>
       in if \<not> am_supported m then (Unsupported, m)
          else
            let (sender_ethernet_address, p) = read_many np_u8 6 p;
                (sender_ip_address, p) = np_u32 p;
                (target_ethernet_address, p) = read_many np_u8 6 p;
                (target_ip_address, p) = np_u32 p
            in (np_get_error p,
                m\<lparr>am_sender_ethernet_address := sender_ethernet_address, am_sender_ip_address := sender_ip_address,
                  am_target_ethernet_address := target_ethernet_address, am_target_ip_address := target_ip_address\<rparr>))"

definition am_serialize :: "arp_message \<Rightarrow> exn + bytes" where
  "am_serialize m =
    (if \<not> am_supported m
     then Inl (Runtime_Error ''ARPMessage::serialize(): unsupported field combination (must be Ethernet/IP, and request or reply)'')
     else let ret = [];
              ret = nu_u16 ret (am_hardware_type m);
              ret = nu_u16 ret (am_protocol_type m);
              ret = nu_u8 ret (am_hardware_address_size m);
              ret = nu_u8 ret (am_protocol_address_size m);
              ret = nu_u16 ret (am_opcode m);
              ret = put_address ret (am_sender_ethernet_address m);
              ret = nu_u32 ret (am_sender_ip_address m);
              ret = put_address ret (am_target_ethernet_address m);
              ret = nu_u32 ret (am_target_ip_address m)
          in Inr ret)"

definition am_to_string :: "arp_message \<Rightarrow> string" where
  "am_to_string m =
    (let opcode_str = ''(unknown type)'';
         opcode_str = (if am_opcode m = OPCODE_REQUEST then ''REQUEST'' else opcode_str);
         opcode_str = (if am_opcode m = OPCODE_REPLY then ''REPLY'' else opcode_str)
     in ''opcode='' @ opcode_str @ '', sender='' @ eth_to_string (am_sender_ethernet_address m) @ ''/'' @
        inet_ntoa (am_sender_ip_address m) @ '', target='' @ eth_to_string (am_target_ethernet_address m) @ ''/'' @
        inet_ntoa (am_target_ip_address m))"

section \<open>Reading addresses\<close>

text \<open>The arrays hold six bytes.\<close>

definition eth_ok :: "ethernet_address \<Rightarrow> bool" where
  "eth_ok a \<longleftrightarrow> length a = 6"

lemma put_address_append: "put_address s a = s @ a"
  by (induction a arbitrary: s) (simp_all add: put_address_def nu_writes be_bytes_expand [simplified])

lemma concat_be_bytes1: "concat (map (be_bytes 1) a) = (a :: bytes)"
  by (induction a) (simp_all add: be_bytes_expand [simplified])

lemma read_address:
  assumes "np_ok p" and "6 \<le> length (np_rest p)"
  shows "read_many np_u8 6 p = (take 6 (np_rest p), np_adv p 6)"
proof -
  have "np_rest p = concat (map (be_bytes 1) (take 6 (np_rest p))) @ drop 6 (np_rest p)"
    unfolding concat_be_bytes1 by simp
  moreover have "take 6 (np_rest p) \<noteq> []" using assms(2) by auto
  ultimately show ?thesis
    using u8f.read_many_put [OF assms(1), of "take 6 (np_rest p)" "drop 6 (np_rest p)"] assms(2)
    by (simp add: min.absorb2)
qed

lemma length_read_many [simp]: "length (fst (read_many get n p)) = n"
  by (induction n arbitrary: p) (simp_all add: case_prod_beta Let_def)

section \<open>Frames\<close>

definition eh_ok :: "ethernet_header \<Rightarrow> bool" where
  "eh_ok h \<longleftrightarrow> eth_ok (eh_dst h) \<and> eth_ok (eh_src h)"

lemma eh_serialize_wire: "eh_serialize h = eh_dst h @ eh_src h @ be_bytes 2 (eh_type h)"
  by (simp add: eh_serialize_def put_address_append nu_writes)

lemma eh_parse_wire:
  assumes "buf_ok b" and "buf_str b = eh_serialize h @ s" and "eh_ok h"
  shows "eh_parse h0 (NetParser b) = (NoError, h, np_adv (NetParser b) 14)"
proof -
  have len: "length (eh_dst h) = 6" "length (eh_src h) = 6" using assms(3) by (simp_all add: eh_ok_def eth_ok_def)
  have "\<not> buf_size b < ETH_LENGTH"
    using assms(1,2) len by (simp add: word_less_nat_alt buf_size_nat ETH_LENGTH_def eh_serialize_wire)
  then show ?thesis
    using assms(1,2) len
    by (simp add: eh_parse_def read_address np_reads np_adv_adv Let_def eh_serialize_wire) (simp add: NetParser_def)
qed

lemma ef_parse_wire:
  assumes "eh_ok h" and "str_ok (eh_serialize h @ s)"
  shows "\<exists>b. buf_ok b \<and> buf_str b = s \<and> (\<forall>f0. ef_parse f0 (Buffer (eh_serialize h @ s)) =
    (NoError, \<lparr>ef_header = h, ef_payload = [b]\<rparr>))"
proof -
  let ?p = "NetParser (Buffer (eh_serialize h @ s))"
  have p: "np_ok ?p" "14 \<le> length (np_rest ?p)"
    using assms by (simp_all add: eh_serialize_wire eh_ok_def eth_ok_def)
  have "np_rest (np_adv ?p 14) = s"
    using p assms(1) by (simp add: eh_serialize_wire eh_ok_def eth_ok_def)
  moreover have "np_ok (np_adv ?p 14)" using p by simp
  moreover have "eh_parse h0 ?p = (NoError, h, np_adv ?p 14)" for h0
    using assms by (intro eh_parse_wire) simp_all
  ultimately show ?thesis
    by (intro exI [of _ "np_buffer (np_adv ?p 14)"]) (simp add: ef_parse_def np_ok_def np_rest_def np_get_error_def)
qed

section \<open>ARP messages\<close>

definition am_ok :: "arp_message \<Rightarrow> bool" where
  "am_ok m \<longleftrightarrow> am_supported m \<and> eth_ok (am_sender_ethernet_address m) \<and> eth_ok (am_target_ethernet_address m)"

definition am_wire :: "arp_message \<Rightarrow> bytes" where
  "am_wire m = be_bytes 2 (am_hardware_type m) @ be_bytes 2 (am_protocol_type m) @
     [am_hardware_address_size m, am_protocol_address_size m] @ be_bytes 2 (am_opcode m) @
     am_sender_ethernet_address m @ be_bytes 4 (am_sender_ip_address m) @
     am_target_ethernet_address m @ be_bytes 4 (am_target_ip_address m)"

lemma am_serialize_wire: "am_supported m \<Longrightarrow> am_serialize m = Inr (am_wire m)"
  by (simp add: am_serialize_def am_wire_def put_address_append nu_writes be_bytes_expand [simplified])

lemma am_parse_wire:
  assumes "am_ok m" and "buf_ok b" and "buf_str b = am_wire m @ s"
  shows "am_parse m0 b = (NoError, m)"
proof -
  have len: "length (am_sender_ethernet_address m) = 6" "length (am_target_ethernet_address m) = 6" and sup: "am_supported m"
    using assms(1) by (simp_all add: am_ok_def eth_ok_def)
  have size: "\<not> buf_size b < ARP_LENGTH"
    using assms(2,3) len by (simp add: word_less_nat_alt buf_size_nat ARP_LENGTH_def am_wire_def)
  have p: "np_ok (NetParser b)" "np_rest (NetParser b) = am_wire m @ s" using assms by simp_all
  have l: "length (am_wire m) = 28" by (simp add: am_wire_def len)
  let ?p = "NetParser b"
  have r1: "np_u16 ?p = (am_hardware_type m, np_adv ?p 2)" 
    "np_u16 (np_adv ?p 2) = (am_protocol_type m, np_adv ?p 4)"
    "np_u8 (np_adv ?p 4) = (am_hardware_address_size m, np_adv ?p 5)"
    "np_u8 (np_adv ?p 5) = (am_protocol_address_size m, np_adv ?p 6)"
    "np_u16 (np_adv ?p 6) = (am_opcode m, np_adv ?p 8)"
    using p l by (simp_all add: np_reads np_adv_adv am_wire_def be_bytes_expand)
  have r2: "read_many np_u8 6 (np_adv ?p 8) = (am_sender_ethernet_address m, np_adv ?p 14)"
    "np_u32 (np_adv ?p 14) = (am_sender_ip_address m, np_adv ?p 18)"
    "read_many np_u8 6 (np_adv ?p 18) = (am_target_ethernet_address m, np_adv ?p 24)"
    "np_u32 (np_adv ?p 24) = (am_target_ip_address m, np_adv ?p 28)"
    using p l len by (simp_all add: np_reads read_address np_adv_adv am_wire_def)
  have s: "am_supported (m0\<lparr>am_hardware_type := am_hardware_type m, am_protocol_type := am_protocol_type m,
      am_hardware_address_size := am_hardware_address_size m, am_protocol_address_size := am_protocol_address_size m,
      am_opcode := am_opcode m\<rparr>)"
    using sup by (simp add: am_supported_def)
  have "np_buffer ?p = b" by (simp add: NetParser_def)
  then show ?thesis using size s p l by (simp add: am_parse_def r1 r2 Let_def)
qed
section \<open>Properties\<close>

text \<open>
  An Ethernet frame survives the wire: parsing a serialized frame succeeds and yields the same
  header and the same payload bytes.
\<close>

theorem ef_roundtrip:
  assumes "eh_ok (ef_header f)" and "bl_ok (ef_payload f)" and "length (bl_concatenate (ef_payload f)) < 2 ^ 32"
    and "ef_parse f0 (Buffer (bl_concatenate (ef_serialize f))) = (result, f')"
  shows "result = NoError \<and> ef_header f' = ef_header f \<and>
    bl_concatenate (ef_payload f') = bl_concatenate (ef_payload f)"
proof -
  have bl: "bl_concatenate (ef_serialize f) = eh_serialize (ef_header f) @ bl_concatenate (ef_payload f)"
    by (simp add: ef_serialize_def bl_append_def BufferList_def)
  have "str_ok (eh_serialize (ef_header f) @ bl_concatenate (ef_payload f))"
    using assms(1,3) by (simp add: str_ok_def eh_serialize_wire eh_ok_def eth_ok_def)
  from ef_parse_wire [OF assms(1) this] show ?thesis using assms(4) by (auto simp: bl)
qed

theorem ef_roundtrip_witness:
  "fst (ef_parse EthernetFrame (Buffer (bl_concatenate (ef_serialize
     (EthernetFrame\<lparr>ef_payload := [Buffer [1, 2, 3]]\<rparr>))))) = NoError"
proof -
  let ?f = "EthernetFrame\<lparr>ef_payload := [Buffer [1, 2, 3]]\<rparr>"
  have "eh_ok (ef_header ?f)" "bl_ok (ef_payload ?f)" "length (bl_concatenate (ef_payload ?f)) < 2 ^ 32"
    by (simp_all add: EthernetFrame_def EthernetHeader_def eh_ok_def eth_ok_def bl_ok_def str_ok_def)
  from ef_roundtrip [OF this surjective_pairing] show ?thesis by blast
qed

text \<open>
  \<open>EthernetFrame::parse\<close> drops the result of the header parser: bytes too short for a header are accepted
  as the payload of a frame that keeps the header it had before.
\<close>

theorem ef_parse_accepts_short:
  assumes "length (buf_str b) < 14"
  shows "ef_parse f0 b = (NoError, \<lparr>ef_header = ef_header f0, ef_payload = [b]\<rparr>)"
proof -
  have "buf_size b < ETH_LENGTH"
    using assms by (simp add: buf_size_def ETH_LENGTH_def word_less_nat_alt str_size_def unat_of_nat)
  then show ?thesis by (simp add: ef_parse_def eh_parse_def NetParser_def np_get_error_def)
qed

theorem ef_parse_accepts_short_witness: "fst (ef_parse EthernetFrame (Buffer [1, 2])) = NoError"
  using ef_parse_accepts_short [of "Buffer [1, 2]" EthernetFrame] by simp

text \<open>
  An ARP message the code supports survives the wire; any other is refused by \<open>serialize\<close>.
\<close>

theorem am_roundtrip:
  assumes "eth_ok (am_sender_ethernet_address m)" and "eth_ok (am_target_ethernet_address m)"
  shows "case am_serialize m of
      Inl e \<Rightarrow> \<not> am_supported m
    | Inr s \<Rightarrow> am_supported m \<and> (\<forall>m0 rest. str_ok (s @ rest) \<longrightarrow> am_parse m0 (Buffer (s @ rest)) = (NoError, m))"
proof (cases "am_supported m")
  case True
  then have "am_ok m" using assms by (simp add: am_ok_def)
  then show ?thesis using True am_parse_wire [of m] by (simp add: am_serialize_wire)
qed (simp add: am_serialize_def)

theorem am_roundtrip_witness:
  "am_parse ARPMessage (Buffer (projr (am_serialize (ARPMessage\<lparr>am_opcode := OPCODE_REPLY\<rparr>)))) =
   (NoError, ARPMessage\<lparr>am_opcode := OPCODE_REPLY\<rparr>)"
proof -
  let ?m = "ARPMessage\<lparr>am_opcode := OPCODE_REPLY\<rparr>"
  have "eth_ok (am_sender_ethernet_address ?m)" "eth_ok (am_target_ethernet_address ?m)"
    by (simp_all add: ARPMessage_def eth_ok_def)
  note r = am_roundtrip [OF this]
  have s: "am_serialize ?m = Inr (am_wire ?m)"
    by (simp add: am_serialize_wire am_supported_def ARPMessage_def OPCODE_REPLY_def)
  have "length (am_wire ?m) = 28" by (simp add: am_wire_def ARPMessage_def)
  then have "str_ok (am_wire ?m @ [])" by (simp add: str_ok_def)
  then show ?thesis using r unfolding s sum.case sum.sel by (metis append_Nil2)
qed

end
