(* ===== verification/Address.thy ===== *)
theory Address
  imports Strings Net_Parser
begin

text \<open>
  \<open>Address\<close> (util/address.hh, util/address.cc), a socket address stored as the raw bytes of a
  \<open>sockaddr_storage\<close>.

  The resolver \<open>getaddrinfo\<close> and its inverse \<open>getnameinfo\<close> are outside the program: they are the fields of
  the parameter \<open>db\<close>, and \<open>db_numeric\<close> states the documented behaviour the program relies on.
\<close>

unbundle bit_operations_syntax

section \<open>The class\<close>

definition AF_INET :: u16 where "AF_INET = 2"
definition AI_NUMERICHOST :: u32 where "AI_NUMERICHOST = 4"
definition AI_ALL :: u32 where "AI_ALL = 16"
definition AI_NUMERICSERV :: u32 where "AI_NUMERICSERV = 1024"

text \<open>The layout of \<open>sockaddr_in\<close>: family (host order, little endian), port and address (network order), padding.\<close>

definition sockaddr_in :: "u16 \<Rightarrow> u16 \<Rightarrow> u32 \<Rightarrow> bytes" where
  "sockaddr_in family port s_addr =
    [ucast family, ucast (drop_bit 8 family)] @ be_bytes 2 port @ be_bytes 4 s_addr @ replicate 8 0"

definition SIZEOF_SOCKADDR_IN :: u32 where "SIZEOF_SOCKADDR_IN = 16"
definition SIZEOF_SOCKADDR_STORAGE :: u64 where "SIZEOF_SOCKADDR_STORAGE = 128"

record address =
  ad_size :: u32
  ad_storage :: bytes

record addrinfo =
  ai_flags :: u32
  ai_family :: u16

text \<open>
  The answers of the resolver: an error code, or the list of raw addresses with their lengths; and
  of \<open>getnameinfo\<close> (with \<open>NI_NUMERICHOST | NI_NUMERICSERV\<close>): an error code, or host and service as text.
\<close>

record net_db =
  db_getaddrinfo :: "string \<Rightarrow> string \<Rightarrow> addrinfo \<Rightarrow> int + (bytes \<times> u32) list"
  db_getnameinfo :: "bytes \<Rightarrow> u32 \<Rightarrow> int + string \<times> string"

definition Address_raw :: "bytes \<Rightarrow> u64 \<Rightarrow> exn + address" where
  "Address_raw addr len =
    (if len > SIZEOF_SOCKADDR_STORAGE then Inl (Runtime_Error ''invalid sockaddr size'')
     else Inr \<lparr>ad_size = ucast len, ad_storage = take (unat len) addr @ replicate (128 - unat len) 0\<rparr>)"

definition Address_node :: "net_db \<Rightarrow> string \<Rightarrow> string \<Rightarrow> addrinfo \<Rightarrow> exn + address" where
  "Address_node db node service hints =
    (case db_getaddrinfo db node service hints of
       Inl gai_ret \<Rightarrow> Inl (System_Error (''getaddrinfo('' @ node @ '', '' @ service @ '')'') gai_ret)
     | Inr [] \<Rightarrow> Inl (Runtime_Error ''getaddrinfo returned successfully but with no results'')
     | Inr ((ai_addr, ai_addrlen) # _) \<Rightarrow> Address_raw ai_addr (ucast ai_addrlen))"

definition make_hints :: "u32 \<Rightarrow> u16 \<Rightarrow> addrinfo" where
  "make_hints flags family = \<lparr>ai_flags = flags, ai_family = family\<rparr>"

definition Address_host :: "net_db \<Rightarrow> string \<Rightarrow> string \<Rightarrow> exn + address" where
  "Address_host db hostname service = Address_node db hostname service (make_hints AI_ALL AF_INET)"

definition Address_ip :: "net_db \<Rightarrow> string \<Rightarrow> u16 \<Rightarrow> exn + address" where
  "Address_ip db ip port =
    Address_node db ip (dec_string (unat port)) (make_hints (AI_NUMERICHOST OR AI_NUMERICSERV) AF_INET)"

definition ad_ip_port :: "net_db \<Rightarrow> address \<Rightarrow> exn + string \<times> u16" where
  "ad_ip_port db a =
    (case db_getnameinfo db (ad_storage a) (ad_size a) of
       Inl gni_ret \<Rightarrow> Inl (System_Error ''getnameinfo'' gni_ret)
     | Inr (ip, port) \<Rightarrow>
         (case stoi port of Inl e \<Rightarrow> Inl e | Inr v \<Rightarrow> Inr (ip, word_of_int v)))"

definition ad_ip :: "net_db \<Rightarrow> address \<Rightarrow> exn + string" where
  "ad_ip db a = map_sum id fst (ad_ip_port db a)"

definition ad_port :: "net_db \<Rightarrow> address \<Rightarrow> exn + u16" where
  "ad_port db a = map_sum id snd (ad_ip_port db a)"

definition ad_to_string :: "net_db \<Rightarrow> address \<Rightarrow> exn + string" where
  "ad_to_string db a =
    (case ad_ip_port db a of Inl e \<Rightarrow> Inl e | Inr (ip, port) \<Rightarrow> Inr (ip @ '':'' @ dec_string (unat port)))"

definition ad_family :: "address \<Rightarrow> u16" where
  "ad_family a = be_int [ad_storage a ! 1, ad_storage a ! 0]"

definition ad_ipv4_numeric :: "address \<Rightarrow> exn + u32" where
  "ad_ipv4_numeric a =
    (if ad_family a \<noteq> AF_INET \<or> ad_size a \<noteq> SIZEOF_SOCKADDR_IN
     then Inl (Runtime_Error ''ipv4_numeric called on non-IPV4 address'')
     else Inr (be_int (take 4 (drop 4 (ad_storage a)))))"

definition ad_from_ipv4_numeric :: "u32 \<Rightarrow> exn + address" where
  "ad_from_ipv4_numeric ip_address = Address_raw (sockaddr_in AF_INET 0 ip_address) (ucast SIZEOF_SOCKADDR_IN)"

text \<open>\<open>memcmp\<close> over the first \<open>_size\<close> bytes.\<close>

definition ad_equal :: "address \<Rightarrow> address \<Rightarrow> bool" where
  "ad_equal a b \<longleftrightarrow>
    (if ad_size a \<noteq> ad_size b then False
     else take (unat (ad_size a)) (ad_storage a) = take (unat (ad_size a)) (ad_storage b))"

section \<open>IPv4 addresses\<close>

text \<open>The address object that stands for an IPv4 address and a port.\<close>

definition ad_inet :: "u32 \<Rightarrow> u16 \<Rightarrow> address" where
  "ad_inet n port = \<lparr>ad_size = SIZEOF_SOCKADDR_IN, ad_storage = sockaddr_in AF_INET port n @ replicate 112 0\<rparr>"

lemma length_sockaddr_in [simp]: "length (sockaddr_in f p n) = 16"
  by (simp add: sockaddr_in_def)

lemma Address_raw_inet: "Address_raw (sockaddr_in AF_INET port n) 16 = Inr (ad_inet n port)"
  by (simp add: Address_raw_def ad_inet_def SIZEOF_SOCKADDR_STORAGE_def SIZEOF_SOCKADDR_IN_def)

lemma ad_from_ipv4_numeric_eq: "ad_from_ipv4_numeric n = Inr (ad_inet n 0)"
  using Address_raw_inet [of 0 n] by (simp add: ad_from_ipv4_numeric_def SIZEOF_SOCKADDR_IN_def)

lemma ad_ipv4_numeric_inet [simp]: "ad_ipv4_numeric (ad_inet n port) = Inr n"
proof -
  have "ad_family (ad_inet n port) = AF_INET"
    by (simp add: ad_family_def ad_inet_def sockaddr_in_def AF_INET_def be_int_expand)
  moreover have "take 4 (drop 4 (ad_storage (ad_inet n port))) = be_bytes 4 n"
    by (simp add: ad_inet_def sockaddr_in_def)
  ultimately show ?thesis by (simp add: ad_ipv4_numeric_def) (simp add: ad_inet_def)
qed

lemma ad_equal_inet: "ad_equal (ad_inet n p) (ad_inet m q) \<longleftrightarrow> n = m \<and> p = q"
proof -
  have "take 16 (ad_storage (ad_inet n p)) = sockaddr_in AF_INET p n" for n p by (simp add: ad_inet_def)
  moreover have "sockaddr_in AF_INET p n = sockaddr_in AF_INET q m \<longleftrightarrow> be_bytes 2 p = be_bytes 2 q \<and> be_bytes 4 n = be_bytes 4 m"
    by (simp add: sockaddr_in_def)
  moreover have "be_bytes 2 p = be_bytes 2 q \<longleftrightarrow> p = q" "be_bytes 4 n = be_bytes 4 m \<longleftrightarrow> n = m"
    by (metis be_int_be_bytes2) (metis be_int_be_bytes4)
  ultimately show ?thesis by (auto simp: ad_equal_def ad_inet_def SIZEOF_SOCKADDR_IN_def)
qed

text \<open>
  What the program relies on of the name service: a dotted quad and a decimal port resolve, without
  a lookup, to that address and port, and back.
\<close>

definition db_numeric :: "net_db \<Rightarrow> bool" where
  "db_numeric db \<longleftrightarrow>
    (\<forall>n port. \<exists>more. db_getaddrinfo db (inet_ntoa n) (dec_string (unat port))
        (make_hints (AI_NUMERICHOST OR AI_NUMERICSERV) AF_INET) = Inr ((sockaddr_in AF_INET port n, 16) # more)) \<and>
    (\<forall>n port. db_getnameinfo db (ad_storage (ad_inet n port)) SIZEOF_SOCKADDR_IN =
        Inr (inet_ntoa n, dec_string (unat port)))"

lemma Address_ip_numeric:
  assumes "db_numeric db"
  shows "Address_ip db (inet_ntoa n) port = Inr (ad_inet n port)"
proof -
  obtain more where "db_getaddrinfo db (inet_ntoa n) (dec_string (unat port))
      (make_hints (AI_NUMERICHOST OR AI_NUMERICSERV) AF_INET) = Inr ((sockaddr_in AF_INET port n, 16) # more)"
    using assms unfolding db_numeric_def by blast
  then show ?thesis by (simp add: Address_ip_def Address_node_def Address_raw_inet)
qed

lemma ad_ip_port_numeric:
  assumes "db_numeric db"
  shows "ad_ip_port db (ad_inet n port) = Inr (inet_ntoa n, port)" "ad_port db (ad_inet n port) = Inr port"
proof -
  have "db_getnameinfo db (ad_storage (ad_inet n port)) (ad_size (ad_inet n port)) = Inr (inet_ntoa n, dec_string (unat port))"
    using assms by (simp add: db_numeric_def) (simp add: ad_inet_def)
  moreover have "stoi (dec_string (unat port)) = Inr (int (unat port))"
    using unat_u16_bound [of port] by (intro stoi_dec_string) simp
  ultimately show "ad_ip_port db (ad_inet n port) = Inr (inet_ntoa n, port)" by (simp add: ad_ip_port_def)
  then show "ad_port db (ad_inet n port) = Inr port" by (simp add: ad_port_def)
qed

end
