(* ===== verification/Network_Interface.thy ===== *)
theory Network_Interface
  imports Ethernet Address
begin

text \<open>
  \<open>NetworkInterface\<close> (network_interface.hh, network_interface.cc): it sends Internet datagrams in Ethernet
  frames, resolving next hops with ARP, and queues datagrams while a resolution is pending.

  An operation yields the interface it leaves behind together with its outcome, an exception or a
  result, because a call that throws may already have changed the queues.
\<close>

section \<open>The class\<close>

definition MAPPING_TIME_LIMIT :: u64 where "MAPPING_TIME_LIMIT = 30 * 1000"
definition ARP_TIME :: u64 where "ARP_TIME = 5 * 1000"

record network_interface =
  ni_ethernet_address :: ethernet_address
  ni_ip_address :: address
  ni_frames_out :: "ethernet_frame list"
  ni_frames_waited :: "(ipv4_datagram \<times> address) list"
  ni_ip_map :: "u32 \<rightharpoonup> ethernet_address \<times> u64"
  ni_ARP_timer :: "u64 \<rightharpoonup> u64"

definition NetworkInterface :: "ethernet_address \<Rightarrow> address \<Rightarrow> network_interface" where
  "NetworkInterface ethernet_address ip_address =
    \<lparr>ni_ethernet_address = ethernet_address, ni_ip_address = ip_address, ni_frames_out = [],
     ni_frames_waited = [], ni_ip_map = Map.empty, ni_ARP_timer = Map.empty\<rparr>"

definition ni_arp_message :: "network_interface \<Rightarrow> u32 \<Rightarrow> u16 \<Rightarrow> ethernet_address \<Rightarrow> u32 \<Rightarrow> arp_message" where
  "ni_arp_message ni own_ip opcode target_ethernet_address target_ip_address =
    (let m = ARPMessage\<lparr>am_opcode := opcode, am_sender_ethernet_address := ni_ethernet_address ni,
               am_sender_ip_address := own_ip\<rparr>;
         m = (if opcode = OPCODE_REPLY then m\<lparr>am_target_ethernet_address := target_ethernet_address\<rparr> else m)
     in m\<lparr>am_target_ip_address := target_ip_address\<rparr>)"

definition ni_send_ARP ::
    "network_interface \<Rightarrow> u16 \<Rightarrow> ethernet_address \<Rightarrow> u32 \<Rightarrow> network_interface \<times> (exn + unit)" where
  "ni_send_ARP ni opcode target_ethernet_address target_ip_address =
    (case ad_ipv4_numeric (ni_ip_address ni) of
       Inl e \<Rightarrow> (ni, Inl e)
     | Inr own_ip \<Rightarrow>
         let arp = ni_arp_message ni own_ip opcode target_ethernet_address target_ip_address;
             linkframe_header = \<lparr>eh_dst = target_ethernet_address, eh_src = ni_ethernet_address ni, eh_type = TYPE_ARP\<rparr>
         in case am_serialize arp of
              Inl e \<Rightarrow> (ni, Inl e)
            | Inr s \<Rightarrow>
                let serialized_frame = Buffer (eh_serialize linkframe_header @ s);
                    (_, frame) = ef_parse EthernetFrame serialized_frame
                in (ni\<lparr>ni_frames_out := ni_frames_out ni @ [frame]\<rparr>, Inr ()))"

definition ni_send_frame ::
    "network_interface \<Rightarrow> ipv4_datagram \<Rightarrow> ethernet_address \<Rightarrow> network_interface \<times> (exn + unit)" where
  "ni_send_frame ni dgram dst =
    (let linkframe_header = \<lparr>eh_dst = dst, eh_src = ni_ethernet_address ni, eh_type = TYPE_IPv4\<rparr>
     in case dg_serialize dgram of
          Inl e \<Rightarrow> (ni, Inl e)
        | Inr s \<Rightarrow>
            let serialized_frame = Buffer (eh_serialize linkframe_header @ bl_concatenate s);
                (_, frame) = ef_parse EthernetFrame serialized_frame
            in (ni\<lparr>ni_frames_out := ni_frames_out ni @ [frame]\<rparr>, Inr ()))"

definition ni_send_datagram ::
    "network_interface \<Rightarrow> ipv4_datagram \<Rightarrow> address \<Rightarrow> network_interface \<times> (exn + unit)" where
  "ni_send_datagram ni dgram next_hop =
    (case ad_ipv4_numeric next_hop of
       Inl e \<Rightarrow> (ni, Inl e)
     | Inr next_hop_ip \<Rightarrow>
         (case ni_ip_map ni next_hop_ip of
            Some (mac, _) \<Rightarrow> ni_send_frame ni dgram mac
          | None \<Rightarrow>
              let ni = ni\<lparr>ni_frames_waited := ni_frames_waited ni @ [(dgram, next_hop)]\<rparr>
              in if ni_ARP_timer ni (ucast next_hop_ip) \<noteq> None then (ni, Inr ())
                 else case ni_send_ARP ni OPCODE_REQUEST ETHERNET_BROADCAST next_hop_ip of
                        (ni, Inl e) \<Rightarrow> (ni, Inl e)
                      | (ni, Inr _) \<Rightarrow> (ni\<lparr>ni_ARP_timer := (ni_ARP_timer ni)(ucast next_hop_ip \<mapsto> 0)\<rparr>, Inr ())))"

text \<open>The loop that sends what waits, up to the first datagram whose next hop is still unknown.\<close>

fun ni_drain ::
    "network_interface \<Rightarrow> (ipv4_datagram \<times> address) list \<Rightarrow> network_interface \<times> (exn + unit)" where
  "ni_drain ni [] = (ni\<lparr>ni_frames_waited := []\<rparr>, Inr ())"
| "ni_drain ni ((dgram, next_hop) # waited) =
    (let ni = ni\<lparr>ni_frames_waited := (dgram, next_hop) # waited\<rparr> in
     case ad_ipv4_numeric next_hop of
       Inl e \<Rightarrow> (ni, Inl e)
     | Inr ip \<Rightarrow>
         (case ni_ip_map ni ip of
            None \<Rightarrow> (ni, Inr ())
          | Some (mac, _) \<Rightarrow>
              (case ni_send_frame ni dgram mac of
                 (ni, Inl e) \<Rightarrow> (ni, Inl e)
               | (ni, Inr _) \<Rightarrow> ni_drain ni waited)))"

definition ni_recv_ARP :: "network_interface \<Rightarrow> arp_message \<Rightarrow> network_interface \<times> (exn + unit)" where
  "ni_recv_ARP ni m =
    (let ni = ni\<lparr>ni_ip_map := (ni_ip_map ni)(am_sender_ip_address m \<mapsto> (am_sender_ethernet_address m, 0))\<rparr>;
         reply = (if am_opcode m = OPCODE_REQUEST
                  then case ad_ipv4_numeric (ni_ip_address ni) of
                         Inl e \<Rightarrow> (ni, Inl e)
                       | Inr own_ip \<Rightarrow>
                           if am_target_ip_address m = own_ip
                           then ni_send_ARP ni OPCODE_REPLY (am_sender_ethernet_address m) (am_sender_ip_address m)
                           else (ni, Inr ())
                  else (ni, Inr ()))
     in case reply of (ni, Inl e) \<Rightarrow> (ni, Inl e) | (ni, Inr _) \<Rightarrow> ni_drain ni (ni_frames_waited ni))"

definition ni_recv_frame ::
    "network_interface \<Rightarrow> ethernet_frame \<Rightarrow> network_interface \<times> (exn + ipv4_datagram option)" where
  "ni_recv_frame ni frame =
    (if eh_dst (ef_header frame) \<noteq> ni_ethernet_address ni \<and> eh_dst (ef_header frame) \<noteq> ETHERNET_BROADCAST
     then (ni, Inr None)
     else if eh_type (ef_header frame) = TYPE_IPv4
     then let (result, ip_datagram) = dg_parse IPv4Datagram (Buffer (bl_concatenate (ef_payload frame)))
          in (ni, Inr (if result = NoError then Some ip_datagram else None))
     else if eh_type (ef_header frame) = TYPE_ARP
     then let (result, m) = am_parse ARPMessage (Buffer (bl_concatenate (ef_payload frame)))
          in if result = NoError
             then case ni_recv_ARP ni m of (ni, Inl e) \<Rightarrow> (ni, Inl e) | (ni, Inr _) \<Rightarrow> (ni, Inr None)
             else (ni, Inr None)
     else (ni, Inr None))"

definition ni_tick :: "network_interface \<Rightarrow> u64 \<Rightarrow> network_interface" where
  "ni_tick ni ms_since_last_tick =
    ni\<lparr>ni_ip_map := (\<lambda>ip. case ni_ip_map ni ip of
         None \<Rightarrow> None
       | Some (mac, t) \<Rightarrow>
           let t = t + ms_since_last_tick in if t > MAPPING_TIME_LIMIT then None else Some (mac, t)),
      ni_ARP_timer := (\<lambda>ip. case ni_ARP_timer ni ip of
         None \<Rightarrow> None
       | Some t \<Rightarrow> let t = t + ms_since_last_tick in if t > ARP_TIME then None else Some t)\<rparr>"

section \<open>Well-formed interfaces\<close>

text \<open>
  Six-byte Ethernet addresses everywhere, IPv4 addresses where the code asks for their number, and
  queued datagrams that can be serialized.
\<close>

definition ad_is_ipv4 :: "address \<Rightarrow> bool" where
  "ad_is_ipv4 a \<longleftrightarrow> (\<exists>n. ad_ipv4_numeric a = Inr n)"

definition ni_ok :: "network_interface \<Rightarrow> bool" where
  "ni_ok ni \<longleftrightarrow> eth_ok (ni_ethernet_address ni) \<and> ad_is_ipv4 (ni_ip_address ni) \<and>
     (\<forall>ip mac t. ni_ip_map ni ip = Some (mac, t) \<longrightarrow> eth_ok mac) \<and>
     (\<forall>(d, a) \<in> set (ni_frames_waited ni). dg_ok d \<and> ad_is_ipv4 a)"

definition ef_ok :: "ethernet_frame \<Rightarrow> bool" where
  "ef_ok f \<longleftrightarrow> eh_ok (ef_header f) \<and> bl_ok (ef_payload f) \<and> length (bl_concatenate (ef_payload f)) \<le> 65535"

text \<open>A frame of this interface that carries the datagram.\<close>

definition ni_carries :: "ethernet_address \<Rightarrow> ethernet_address \<Rightarrow> ipv4_datagram \<Rightarrow> ethernet_frame \<Rightarrow> bool" where
  "ni_carries src dst d f \<longleftrightarrow> ef_header f = \<lparr>eh_dst = dst, eh_src = src, eh_type = TYPE_IPv4\<rparr> \<and> ef_ok f \<and>
     (\<exists>d'. dg_parse IPv4Datagram (Buffer (bl_concatenate (ef_payload f))) = (NoError, d') \<and> dg_same d d' \<and> dg_ok d')"

lemma ni_send_frame_ok:
  assumes "eth_ok (ni_ethernet_address ni)" and "eth_ok dst" and "dg_ok d"
  shows "\<exists>f. ni_send_frame ni d dst = (ni\<lparr>ni_frames_out := ni_frames_out ni @ [f]\<rparr>, Inr ()) \<and>
    ni_carries (ni_ethernet_address ni) dst d f"
proof -
  let ?h = "\<lparr>eh_dst = dst, eh_src = ni_ethernet_address ni, eh_type = TYPE_IPv4\<rparr>"
  obtain bl d' where bl: "dg_serialize d = Inr bl" "length (bl_concatenate bl) = unat (ih_len (dg_header d))"
    and d': "dg_parse IPv4Datagram (Buffer (bl_concatenate bl)) = (NoError, d')" "dg_same d d'" "bl_ok (dg_payload d')"
    using dg_serialize_parse [OF assms(3)] by metis
  have h: "eh_ok ?h" using assms by (simp add: eh_ok_def)
  have "str_ok (eh_serialize ?h @ bl_concatenate bl)"
    using bl(2) unat_u16_bound [of "ih_len (dg_header d)"] assms by (simp add: str_ok_def eh_serialize_wire eth_ok_def)
  from ef_parse_wire [OF h this] obtain b where
    b: "buf_ok b" "buf_str b = bl_concatenate bl"
    "ef_parse EthernetFrame (Buffer (eh_serialize ?h @ bl_concatenate bl)) = (NoError, \<lparr>ef_header = ?h, ef_payload = [b]\<rparr>)"
    by blast
  then have "ef_ok \<lparr>ef_header = ?h, ef_payload = [b]\<rparr>"
    using h bl(2) unat_u16_bound [of "ih_len (dg_header d)"] by (simp add: ef_ok_def bl_ok_def str_ok_def)
  then show ?thesis
    using b bl(1) d' dg_same_ok [OF assms(3) d'(2,3)]
    by (intro exI [of _ "\<lparr>ef_header = ?h, ef_payload = [b]\<rparr>"]) (simp add: ni_send_frame_def ni_carries_def)
qed

lemma ni_arp_message_ok:
  assumes "eth_ok (ni_ethernet_address ni)" and "eth_ok mac" and "op \<in> {OPCODE_REQUEST, OPCODE_REPLY}"
  shows "am_ok (ni_arp_message ni n op mac ip)"
  using assms by (auto simp: am_ok_def ni_arp_message_def am_supported_def ARPMessage_def Let_def eth_ok_def)

lemma ni_send_ARP_ok:
  assumes "eth_ok (ni_ethernet_address ni)" and "eth_ok mac" and "op \<in> {OPCODE_REQUEST, OPCODE_REPLY}"
    and "ad_ipv4_numeric (ni_ip_address ni) = Inr n"
  shows "\<exists>f. ni_send_ARP ni op mac ip = (ni\<lparr>ni_frames_out := ni_frames_out ni @ [f]\<rparr>, Inr ()) \<and>
    ef_header f = \<lparr>eh_dst = mac, eh_src = ni_ethernet_address ni, eh_type = TYPE_ARP\<rparr> \<and>
    (\<forall>m0. am_parse m0 (Buffer (bl_concatenate (ef_payload f))) = (NoError, ni_arp_message ni n op mac ip))"
proof -
  let ?h = "\<lparr>eh_dst = mac, eh_src = ni_ethernet_address ni, eh_type = TYPE_ARP\<rparr>"
  let ?m = "ni_arp_message ni n op mac ip"
  have m: "am_ok ?m" using assms by (intro ni_arp_message_ok) auto
  have h: "eh_ok ?h" using assms by (simp add: eh_ok_def)
  have s: "am_serialize ?m = Inr (am_wire ?m)" "length (am_wire ?m) = 28"
    using m by (simp_all add: am_serialize_wire am_ok_def eth_ok_def am_wire_def)
  then have "str_ok (eh_serialize ?h @ am_wire ?m)" using assms by (simp add: str_ok_def eh_serialize_wire eth_ok_def)
  from ef_parse_wire [OF h this] obtain b where b: "buf_ok b" "buf_str b = am_wire ?m"
    "ef_parse EthernetFrame (Buffer (eh_serialize ?h @ am_wire ?m)) = (NoError, \<lparr>ef_header = ?h, ef_payload = [b]\<rparr>)"
    by blast
  have "am_parse m0 (Buffer (am_wire ?m)) = (NoError, ?m)" for m0
    using am_parse_wire [OF m, of "Buffer (am_wire ?m)" "[]"] s(2) by (simp add: str_ok_def)
  then show ?thesis
    using b s(1) assms(4)
    by (intro exI [of _ "\<lparr>ef_header = ?h, ef_payload = [b]\<rparr>"]) (simp add: ni_send_ARP_def)
qed

text \<open>The datagrams at the head of the queue whose next hop is known leave it, in order, one frame each.\<close>

definition ni_known :: "network_interface \<Rightarrow> ipv4_datagram \<times> address \<Rightarrow> bool" where
  "ni_known ni w \<longleftrightarrow> (\<exists>ip. ad_ipv4_numeric (snd w) = Inr ip \<and> ni_ip_map ni ip \<noteq> None)"

definition ni_mac :: "network_interface \<Rightarrow> address \<Rightarrow> ethernet_address" where
  "ni_mac ni a = fst (the (ni_ip_map ni (projr (ad_ipv4_numeric a))))"

lemma ni_drain_spec:
  assumes "eth_ok (ni_ethernet_address ni)" and "\<forall>ip mac t. ni_ip_map ni ip = Some (mac, t) \<longrightarrow> eth_ok mac"
    and "\<forall>(d, a) \<in> set ws. dg_ok d \<and> ad_is_ipv4 a"
  shows "\<exists>fs. ni_drain ni ws = (ni\<lparr>ni_frames_out := ni_frames_out ni @ fs,
      ni_frames_waited := dropWhile (ni_known ni) ws\<rparr>, Inr ()) \<and>
    list_all2 (\<lambda>(d, a) f. ni_carries (ni_ethernet_address ni) (ni_mac ni a) d f) (takeWhile (ni_known ni) ws) fs"
  using assms
proof (induction ws arbitrary: ni)
  case Nil
  then show ?case by (intro exI [of _ "[]"]) simp
next
  case (Cons w ws)
  obtain d a where w: "w = (d, a)" by (cases w)
  let ?n = "ni\<lparr>ni_frames_waited := (d, a) # ws\<rparr>"
  obtain ip where ip: "ad_ipv4_numeric a = Inr ip" using Cons.prems(3) by (auto simp: w ad_is_ipv4_def)
  show ?case
  proof (cases "ni_ip_map ni ip")
    case None
    then have "\<not> ni_known ni (d, a)" by (simp add: ni_known_def ip)
    then show ?thesis using None ip by (intro exI [of _ "[]"]) (simp add: w)
  next
    case (Some v)
    obtain mac t where v: "v = (mac, t)" by (cases v)
    have k: "ni_known ni (d, a)" "ni_mac ni a = mac" using Some v by (simp_all add: ni_known_def ni_mac_def ip)
    have m: "eth_ok mac" using Cons.prems(2) Some v by blast
    have "\<exists>f. ni_send_frame ?n d mac = (?n\<lparr>ni_frames_out := ni_frames_out ?n @ [f]\<rparr>, Inr ()) \<and>
        ni_carries (ni_ethernet_address ?n) mac d f"
      using Cons.prems m by (intro ni_send_frame_ok) (auto simp: w)
    then obtain f where f: "ni_send_frame ?n d mac = (?n\<lparr>ni_frames_out := ni_frames_out ni @ [f]\<rparr>, Inr ())"
        "ni_carries (ni_ethernet_address ni) mac d f" by auto
    let ?m = "?n\<lparr>ni_frames_out := ni_frames_out ni @ [f]\<rparr>"
    have eq: "ni_known ?m = ni_known ni" "ni_mac ?m = ni_mac ni" by (auto simp: ni_known_def ni_mac_def fun_eq_iff)
    have pre: "eth_ok (ni_ethernet_address ?m)" "\<forall>ip mac t. ni_ip_map ?m ip = Some (mac, t) \<longrightarrow> eth_ok mac"
      "\<forall>(d, a) \<in> set ws. dg_ok d \<and> ad_is_ipv4 a"
      using Cons.prems by auto
    from Cons.IH [OF this] obtain fs where fs: "ni_drain ?m ws = (?m\<lparr>ni_frames_out := ni_frames_out ?m @ fs,
        ni_frames_waited := dropWhile (ni_known ni) ws\<rparr>, Inr ())"
      "list_all2 (\<lambda>(d, a) f. ni_carries (ni_ethernet_address ni) (ni_mac ni a) d f) (takeWhile (ni_known ni) ws) fs"
      unfolding eq by auto
    have "ni_drain ni (w # ws) = ni_drain ?m ws" using ip Some v f(1) by (simp add: w)
    then show ?thesis using fs f(2) k by (intro exI [of _ "f # fs"]) (simp add: w)
  qed
qed
lemma am_parse_addresses:
  assumes "am_parse m0 b = (NoError, m)"
  shows "eth_ok (am_sender_ethernet_address m)"
proof -
  have "eth_ok (fst (read_many np_u8 6 p))" for p by (simp add: eth_ok_def)
  then show ?thesis
    using assms unfolding am_parse_def Let_def case_prod_beta by (auto split: if_splits)
qed

lemma ni_recv_ARP_spec:
  fixes ni :: network_interface
  assumes "ni_ok ni" and "eth_ok (am_sender_ethernet_address m)" and "ad_ipv4_numeric (ni_ip_address ni) = Inr n"
  defines "ni1 \<equiv> ni\<lparr>ni_ip_map := (ni_ip_map ni)(am_sender_ip_address m \<mapsto> (am_sender_ethernet_address m, 0))\<rparr>"
  shows "\<exists>reply fs. ni_recv_ARP ni m = (ni1\<lparr>ni_frames_out := ni_frames_out ni @ reply @ fs,
      ni_frames_waited := dropWhile (ni_known ni1) (ni_frames_waited ni)\<rparr>, Inr ()) \<and>
    (if am_opcode m = OPCODE_REQUEST \<and> am_target_ip_address m = n
     then \<exists>f. reply = [f] \<and>
       ef_header f = \<lparr>eh_dst = am_sender_ethernet_address m, eh_src = ni_ethernet_address ni, eh_type = TYPE_ARP\<rparr> \<and>
       (\<forall>m0. am_parse m0 (Buffer (bl_concatenate (ef_payload f))) =
         (NoError, ni_arp_message ni n OPCODE_REPLY (am_sender_ethernet_address m) (am_sender_ip_address m)))
     else reply = []) \<and>
    list_all2 (\<lambda>(d, a) f. ni_carries (ni_ethernet_address ni) (ni_mac ni1 a) d f)
      (takeWhile (ni_known ni1) (ni_frames_waited ni)) fs"
proof -
  let ?q = "am_opcode m = OPCODE_REQUEST \<and> am_target_ip_address m = n"
  let ?mac = "am_sender_ethernet_address m" and ?ip = "am_sender_ip_address m"
  have own: "eth_ok (ni_ethernet_address ni1)" "ad_ipv4_numeric (ni_ip_address ni1) = Inr n"
    using assms by (simp_all add: ni_ok_def)
  have msg: "ni_arp_message ni1 = ni_arp_message ni" by (simp add: ni1_def ni_arp_message_def fun_eq_iff)
  obtain f where f: "ni_send_ARP ni1 OPCODE_REPLY ?mac ?ip = (ni1\<lparr>ni_frames_out := ni_frames_out ni @ [f]\<rparr>, Inr ())"
    "ef_header f = \<lparr>eh_dst = ?mac, eh_src = ni_ethernet_address ni, eh_type = TYPE_ARP\<rparr>"
    "\<forall>m0. am_parse m0 (Buffer (bl_concatenate (ef_payload f))) = (NoError, ni_arp_message ni n OPCODE_REPLY ?mac ?ip)"
    using ni_send_ARP_ok [OF own(1) assms(2) _ own(2), of OPCODE_REPLY ?ip] unfolding msg by (auto simp: ni1_def)
  define reply where "reply = (if ?q then [f] else [])"
  let ?ni2 = "ni1\<lparr>ni_frames_out := ni_frames_out ni @ reply\<rparr>"
  have r: "ni_recv_ARP ni m = ni_drain ?ni2 (ni_frames_waited ni)"
    using f(1) own(2) assms(3) by (simp add: ni_recv_ARP_def ni1_def [symmetric] reply_def Let_def) (simp add: ni1_def)
  have eq: "ni_known ?ni2 = ni_known ni1" "ni_mac ?ni2 = ni_mac ni1" by (auto simp: ni_known_def ni_mac_def fun_eq_iff)
  have "eth_ok (ni_ethernet_address ?ni2)" "\<forall>ip mac t. ni_ip_map ?ni2 ip = Some (mac, t) \<longrightarrow> eth_ok mac"
    "\<forall>(d, a) \<in> set (ni_frames_waited ni). dg_ok d \<and> ad_is_ipv4 a"
    using assms(1,2) by (auto simp: ni_ok_def ni1_def)
  from ni_drain_spec [OF this] obtain fs where fs: "ni_drain ?ni2 (ni_frames_waited ni) =
      (ni1\<lparr>ni_frames_out := ni_frames_out ni @ reply @ fs, ni_frames_waited := dropWhile (ni_known ni1) (ni_frames_waited ni)\<rparr>, Inr ())"
    "list_all2 (\<lambda>(d, a) f. ni_carries (ni_ethernet_address ni) (ni_mac ni1 a) d f) (takeWhile (ni_known ni1) (ni_frames_waited ni)) fs"
    unfolding eq by (auto simp: ni1_def)
  show ?thesis
    using r fs f(2,3) by (intro exI [of _ reply] exI [of _ fs]) (simp add: reply_def)
qed

lemma ni_send_datagram_unknown:
  assumes "eth_ok (ni_ethernet_address ni)" and "ad_ipv4_numeric (ni_ip_address ni) = Inr n"
    and "ad_ipv4_numeric a = Inr ip" and "ni_ip_map ni ip = None" and "ni_ARP_timer ni (ucast ip) = None"
  shows "\<exists>f. ni_send_datagram ni d a = (ni\<lparr>ni_frames_out := ni_frames_out ni @ [f],
      ni_frames_waited := ni_frames_waited ni @ [(d, a)], ni_ARP_timer := (ni_ARP_timer ni)(ucast ip \<mapsto> 0)\<rparr>, Inr ()) \<and>
    ef_header f = \<lparr>eh_dst = ETHERNET_BROADCAST, eh_src = ni_ethernet_address ni, eh_type = TYPE_ARP\<rparr> \<and>
    (\<forall>m0. am_parse m0 (Buffer (bl_concatenate (ef_payload f))) =
      (NoError, ni_arp_message ni n OPCODE_REQUEST ETHERNET_BROADCAST ip))"
proof -
  let ?n = "ni\<lparr>ni_frames_waited := ni_frames_waited ni @ [(d, a)]\<rparr>"
  have msg: "ni_arp_message ?n = ni_arp_message ni" by (simp add: ni_arp_message_def fun_eq_iff)
  have "\<exists>f. ni_send_ARP ?n OPCODE_REQUEST ETHERNET_BROADCAST ip = (?n\<lparr>ni_frames_out := ni_frames_out ?n @ [f]\<rparr>, Inr ()) \<and>
      ef_header f = \<lparr>eh_dst = ETHERNET_BROADCAST, eh_src = ni_ethernet_address ?n, eh_type = TYPE_ARP\<rparr> \<and>
      (\<forall>m0. am_parse m0 (Buffer (bl_concatenate (ef_payload f))) =
        (NoError, ni_arp_message ni n OPCODE_REQUEST ETHERNET_BROADCAST ip))"
    unfolding msg [symmetric]
    using assms by (intro ni_send_ARP_ok) (simp_all add: eth_ok_def ETHERNET_BROADCAST_def)
  then obtain f where f: "ni_send_ARP ?n OPCODE_REQUEST ETHERNET_BROADCAST ip = (?n\<lparr>ni_frames_out := ni_frames_out ni @ [f]\<rparr>, Inr ())"
    "ef_header f = \<lparr>eh_dst = ETHERNET_BROADCAST, eh_src = ni_ethernet_address ni, eh_type = TYPE_ARP\<rparr>"
    "\<forall>m0. am_parse m0 (Buffer (bl_concatenate (ef_payload f))) = (NoError, ni_arp_message ni n OPCODE_REQUEST ETHERNET_BROADCAST ip)"
    by auto
  then show ?thesis
    using assms(3-5) by (intro exI [of _ f]) (simp add: ni_send_datagram_def)
qed

section \<open>Everything that can happen to an interface\<close>

inductive ni_reach :: "network_interface \<Rightarrow> network_interface \<Rightarrow> bool" for ni0 where
  start: "ni_reach ni0 ni0"
| sending: "ni_reach ni0 ni \<Longrightarrow> dg_ok d \<Longrightarrow> ad_is_ipv4 a \<Longrightarrow> ni_send_datagram ni d a = (ni', r) \<Longrightarrow> ni_reach ni0 ni'"
| receiving: "ni_reach ni0 ni \<Longrightarrow> ni_recv_frame ni f = (ni', r') \<Longrightarrow> ni_reach ni0 ni'"
| ticking: "ni_reach ni0 ni \<Longrightarrow> ni_reach ni0 (ni_tick ni ms)"
| popping: "ni_reach ni0 ni \<Longrightarrow> ni_frames_out ni = f # fs \<Longrightarrow> ni_reach ni0 (ni\<lparr>ni_frames_out := fs\<rparr>)"

lemma ni_send_datagram_ok:
  assumes "ni_ok ni" and "dg_ok d" and "ad_is_ipv4 a"
  shows "\<exists>ni'. ni_send_datagram ni d a = (ni', Inr ()) \<and> ni_ok ni'"
proof -
  obtain ip n where ip: "ad_ipv4_numeric a = Inr ip" and n: "ad_ipv4_numeric (ni_ip_address ni) = Inr n"
    using assms by (auto simp: ni_ok_def ad_is_ipv4_def)
  have own: "eth_ok (ni_ethernet_address ni)" using assms(1) by (simp add: ni_ok_def)
  show ?thesis
  proof (cases "ni_ip_map ni ip")
    case (Some v)
    then have "eth_ok (fst v)" using assms(1) by (cases v) (auto simp: ni_ok_def)
    from ni_send_frame_ok [OF own this assms(2)] show ?thesis
      using Some ip assms(1) by (cases v) (auto simp: ni_send_datagram_def ni_ok_def)
  next
    case None
    show ?thesis
    proof (cases "ni_ARP_timer ni (ucast ip)")
      case (Some t)
      then show ?thesis using None ip assms by (auto simp: ni_send_datagram_def ni_ok_def)
    next
      case timer: None
      from ni_send_datagram_unknown [OF own n ip None timer, of d] show ?thesis
        using assms by (auto simp: ni_ok_def)
    qed
  qed
qed

lemma ni_recv_frame_ok:
  assumes "ni_ok ni"
  shows "\<exists>ni' r. ni_recv_frame ni f = (ni', Inr r) \<and> ni_ok ni'"
proof (cases "am_parse ARPMessage (Buffer (bl_concatenate (ef_payload f)))")
  case (Pair res m)
  obtain n where n: "ad_ipv4_numeric (ni_ip_address ni) = Inr n"
    using assms by (auto simp: ni_ok_def ad_is_ipv4_def)
  have "\<exists>ni'. ni_recv_ARP ni m = (ni', Inr ()) \<and> ni_ok ni'" if "res = NoError"
  proof -
    have e: "eth_ok (am_sender_ethernet_address m)" using Pair that by (auto intro: am_parse_addresses)
    let ?ni1 = "ni\<lparr>ni_ip_map := (ni_ip_map ni)(am_sender_ip_address m \<mapsto> (am_sender_ethernet_address m, 0))\<rparr>"
    let ?ws = "dropWhile (ni_known ?ni1) (ni_frames_waited ni)"
    from ni_recv_ARP_spec [OF assms e n] obtain out where
      eq: "ni_recv_ARP ni m = (?ni1\<lparr>ni_frames_out := out, ni_frames_waited := ?ws\<rparr>, Inr ())" by blast
    have "set ?ws \<subseteq> set (ni_frames_waited ni)" by (auto dest: set_dropWhileD)
    then have "ni_ok (?ni1\<lparr>ni_frames_out := out, ni_frames_waited := ?ws\<rparr>)"
      using assms e by (auto simp: ni_ok_def)
    then show ?thesis using eq by blast
  qed
  then show ?thesis
    using assms Pair by (auto simp: ni_recv_frame_def Let_def case_prod_beta)
qed

lemma ni_tick_ok: "ni_ok ni \<Longrightarrow> ni_ok (ni_tick ni ms)"
  by (auto simp: ni_ok_def ni_tick_def Let_def split: option.splits if_splits)

lemma ni_reach_ok: "ni_reach ni0 ni \<Longrightarrow> ni_ok ni0 \<Longrightarrow> ni_ok ni"
proof (induction rule: ni_reach.induct)
  case start
  then show ?case .
next
  case (sending ni d a ni' r)
  obtain ni1 where "ni_send_datagram ni d a = (ni1, Inr ())" "ni_ok ni1"
    using ni_send_datagram_ok [OF sending.IH [OF sending.prems] sending.hyps(2,3)] by blast
  then show ?case using sending.hyps(4) by simp
next
  case (receiving ni f ni' r')
  obtain ni1 r where "ni_recv_frame ni f = (ni1, Inr r)" "ni_ok ni1"
    using ni_recv_frame_ok [OF receiving.IH [OF receiving.prems], of f] by blast
  then show ?case using receiving.hyps(2) by simp
next
  case (ticking ni ms)
  then show ?case by (intro ni_tick_ok)
next
  case (popping ni f fs)
  then have "ni_ok ni" by blast
  then show ?case by (simp add: ni_ok_def)
qed
text \<open>Time: a sequence of ticks ages every entry by their sum.\<close>

lemma ni_tick_map:
  "ni_ip_map (ni_tick ni ms) ip = (case ni_ip_map ni ip of None \<Rightarrow> None
     | Some (mac, t) \<Rightarrow> if t + ms > MAPPING_TIME_LIMIT then None else Some (mac, t + ms))"
  "ni_ARP_timer (ni_tick ni ms) key = (case ni_ARP_timer ni key of None \<Rightarrow> None
     | Some t \<Rightarrow> if t + ms > ARP_TIME then None else Some (t + ms))"
  by (simp_all add: ni_tick_def Let_def split: option.split)

lemma ni_ticks_forgotten:
  "ni_ip_map ni ip = None \<Longrightarrow> ni_ip_map (foldl ni_tick ni mss) ip = None"
  "ni_ARP_timer ni key = None \<Longrightarrow> ni_ARP_timer (foldl ni_tick ni mss) key = None"
  by (induction mss arbitrary: ni) (simp_all add: ni_tick_map)

lemma ni_ticks_map:
  assumes "ni_ip_map ni ip = Some (mac, t)" and "unat t + sum_list (map unat mss) < 2 ^ 64" and "unat t \<le> 30000"
  shows "ni_ip_map (foldl ni_tick ni mss) ip =
    (if unat t + sum_list (map unat mss) \<le> 30000 then Some (mac, t + sum_list mss) else None)"
  using assms
proof (induction mss arbitrary: ni t)
  case (Cons ms mss)
  have u: "unat (t + ms) = unat t + unat ms" using Cons.prems(2) by (simp add: unat_word_ariths)
  show ?case
  proof (cases "unat (t + ms) \<le> 30000")
    case True
    then have "ni_ip_map (ni_tick ni ms) ip = Some (mac, t + ms)"
      using Cons.prems(1) by (simp add: ni_tick_map MAPPING_TIME_LIMIT_def word_less_nat_alt)
    from Cons.IH [OF this] show ?thesis using True Cons.prems(2) by (simp add: u add.assoc)
  next
    case False
    then have "ni_ip_map (ni_tick ni ms) ip = None"
      using Cons.prems(1) by (simp add: ni_tick_map MAPPING_TIME_LIMIT_def word_less_nat_alt)
    from ni_ticks_forgotten(1) [OF this] show ?thesis using False by (simp add: u)
  qed
qed simp

lemma ni_ticks_timer:
  assumes "ni_ARP_timer ni key = Some t" and "unat t + sum_list (map unat mss) < 2 ^ 64" and "unat t \<le> 5000"
  shows "ni_ARP_timer (foldl ni_tick ni mss) key =
    (if unat t + sum_list (map unat mss) \<le> 5000 then Some (t + sum_list mss) else None)"
  using assms
proof (induction mss arbitrary: ni t)
  case (Cons ms mss)
  have u: "unat (t + ms) = unat t + unat ms" using Cons.prems(2) by (simp add: unat_word_ariths)
  show ?case
  proof (cases "unat (t + ms) \<le> 5000")
    case True
    then have "ni_ARP_timer (ni_tick ni ms) key = Some (t + ms)"
      using Cons.prems(1) by (simp add: ni_tick_map ARP_TIME_def word_less_nat_alt)
    from Cons.IH [OF this] show ?thesis using True Cons.prems(2) by (simp add: u add.assoc)
  next
    case False
    then have "ni_ARP_timer (ni_tick ni ms) key = None"
      using Cons.prems(1) by (simp add: ni_tick_map ARP_TIME_def word_less_nat_alt)
    from ni_ticks_forgotten(2) [OF this] show ?thesis using False by (simp add: u)
  qed
qed simp

lemma ni_ticks_frame:
  "ni_frames_out (foldl ni_tick ni mss) = ni_frames_out ni"
  "ni_frames_waited (foldl ni_tick ni mss) = ni_frames_waited ni"
  by (induction mss arbitrary: ni) (simp_all add: ni_tick_def)


lemma ni_recv_frame_carries:
  assumes "ni_carries src dst d f" and "dst = ni_ethernet_address ni \<or> dst = ETHERNET_BROADCAST"
  shows "\<exists>d'. ni_recv_frame ni f = (ni, Inr (Some d')) \<and> dg_same d d' \<and> dg_ok d'"
  using assms by (auto simp: ni_recv_frame_def ni_carries_def)

text \<open>Two interfaces on one link, for the witnesses.\<close>

definition ni_example_a :: network_interface where
  "ni_example_a = NetworkInterface [2, 0, 0, 0, 0, 1] (ad_inet 0x0a000001 0)"

definition ni_example_b :: network_interface where
  "ni_example_b = NetworkInterface [2, 0, 0, 0, 0, 2] (ad_inet 0x0a000002 0)"

lemma ni_example_ok: "ni_ok ni_example_a" "ni_ok ni_example_b"
  by (simp_all add: ni_example_a_def ni_example_b_def NetworkInterface_def ni_ok_def eth_ok_def ad_is_ipv4_def)

section \<open>Properties\<close>



text \<open>
  C25. No operation of an interface throws: whatever frames arrive and however time passes, as long as the
  datagrams handed to it can be serialized and the next hops are IPv4 addresses, receiving any frame
  and sending any such datagram succeed.
\<close>

theorem ni_never_throws:
  assumes "ni_reach (NetworkInterface mac ip) ni" and "eth_ok mac" and "ad_is_ipv4 ip"
  shows "(\<exists>r. snd (ni_recv_frame ni f) = Inr r) \<and>
    (dg_ok d \<and> ad_is_ipv4 hop \<longrightarrow> snd (ni_send_datagram ni d hop) = Inr ())"
proof -
  have "ni_ok (NetworkInterface mac ip)" using assms(2,3) by (simp add: ni_ok_def NetworkInterface_def)
  then have "ni_ok ni" using ni_reach_ok [OF assms(1)] by blast
  then show ?thesis using ni_recv_frame_ok [of ni f] ni_send_datagram_ok [of ni d hop] by auto
qed

theorem ni_never_throws_witness:
  "snd (ni_send_datagram (ni_tick ni_example_a 10) dg_example (ad_inet 7 0)) = Inr ()"
proof -
  have "ni_reach (NetworkInterface [2, 0, 0, 0, 0, 1] (ad_inet 0x0a000001 0)) (ni_tick ni_example_a 10)"
    unfolding ni_example_a_def by (intro ni_reach.ticking ni_reach.start)
  then show ?thesis
    using ni_never_throws [of "[2, 0, 0, 0, 0, 1]" "ad_inet 0x0a000001 0" "ni_tick ni_example_a 10" _ dg_example "ad_inet 7 0"]
      dg_example_ok
    by (simp add: eth_ok_def ad_is_ipv4_def)
qed

text \<open>
  What is learned is remembered for exactly 30 seconds, and a request is not repeated for exactly five:
  after ticks that add up to a given time, an entry made at the start is still there, aged by that
  time, if and only if the time is within the limit.
\<close>

theorem ni_expiry:
  fixes mss :: "u64 list"
  assumes "ni_ip_map ni ip = Some (mac, 0)" and "ni_ARP_timer ni key = Some 0" and "sum_list (map unat mss) < 2 ^ 64"
  shows "ni_ip_map (foldl ni_tick ni mss) ip =
      (if sum_list (map unat mss) \<le> 30000 then Some (mac, sum_list mss) else None) \<and>
    ni_ARP_timer (foldl ni_tick ni mss) key = (if sum_list (map unat mss) \<le> 5000 then Some (sum_list mss) else None)"
  using ni_ticks_map [OF assms(1), of mss] ni_ticks_timer [OF assms(2), of mss] assms(3) by simp

theorem ni_expiry_witness:
  "ni_ARP_timer (foldl ni_tick (ni_example_a\<lparr>ni_ip_map := [7 \<mapsto> ([1, 2, 3, 4, 5, 6], 0)], ni_ARP_timer := [7 \<mapsto> 0]\<rparr>)
     [5000, 1]) 7 = None"
  using ni_expiry [of "ni_example_a\<lparr>ni_ip_map := [7 \<mapsto> ([1, 2, 3, 4, 5, 6], 0)], ni_ARP_timer := [7 \<mapsto> 0]\<rparr>" 7
    "[1, 2, 3, 4, 5, 6]" 7 "[5000, 1]"] by simp

text \<open>
  The two ways to send: to a known next hop, one frame goes out that makes the interface with that
  Ethernet address hand up the same datagram; to an unknown one, the datagram waits at the end of the
  queue, and one request is broadcast unless one was already sent within the last five seconds.
\<close>

theorem ni_send_cases:
  assumes "ni_ok ni" and "dg_ok d" and "ad_ipv4_numeric hop = Inr ip"
  defines "ni' \<equiv> fst (ni_send_datagram ni d hop)"
  shows "case ni_ip_map ni ip of
      Some (mac, t) \<Rightarrow> \<exists>f. ni_frames_out ni' = ni_frames_out ni @ [f] \<and> ni_frames_waited ni' = ni_frames_waited ni \<and>
        (\<forall>peer. ni_ethernet_address peer = mac \<longrightarrow> (\<exists>d'. ni_recv_frame peer f = (peer, Inr (Some d')) \<and> dg_same d d'))
    | None \<Rightarrow> ni_frames_waited ni' = ni_frames_waited ni @ [(d, hop)] \<and>
        (if ni_ARP_timer ni (ucast ip) \<noteq> None then ni_frames_out ni' = ni_frames_out ni
         else \<exists>f. ni_frames_out ni' = ni_frames_out ni @ [f] \<and> eh_dst (ef_header f) = ETHERNET_BROADCAST \<and>
           eh_type (ef_header f) = TYPE_ARP \<and> ni_ARP_timer ni' (ucast ip) = Some 0)"
proof -
  have own: "eth_ok (ni_ethernet_address ni)" using assms(1) by (simp add: ni_ok_def)
  obtain n where n: "ad_ipv4_numeric (ni_ip_address ni) = Inr n" using assms(1) by (auto simp: ni_ok_def ad_is_ipv4_def)
  show ?thesis
  proof (cases "ni_ip_map ni ip")
    case None
    show ?thesis
    proof (cases "ni_ARP_timer ni (ucast ip)")
      case (Some t)
      then show ?thesis using None assms(3) by (simp add: ni'_def ni_send_datagram_def)
    next
      case timer: None
      from ni_send_datagram_unknown [OF own n assms(3) None timer, of d] show ?thesis
        using None timer by (auto simp: ni'_def)
    qed
  next
    case (Some v)
    obtain mac t where v: "v = (mac, t)" by (cases v)
    have "eth_ok mac" using assms(1) Some v by (auto simp: ni_ok_def)
    from ni_send_frame_ok [OF own this assms(2)] obtain f where
      f: "ni_send_datagram ni d hop = (ni\<lparr>ni_frames_out := ni_frames_out ni @ [f]\<rparr>, Inr ())"
      "ni_carries (ni_ethernet_address ni) mac d f"
      using Some v assms(3) by (auto simp: ni_send_datagram_def)
    have "\<exists>d'. ni_recv_frame peer f = (peer, Inr (Some d')) \<and> dg_same d d'" if "ni_ethernet_address peer = mac" for peer
      using ni_recv_frame_carries [OF f(2), of peer] that by auto
    then show ?thesis using Some v f(1) by (simp add: ni'_def)
  qed
qed

theorem ni_send_cases_witness:
  "\<exists>f. ni_frames_out (fst (ni_send_datagram ni_example_a dg_example (ad_inet 7 0))) = [f]"
proof -
  have "ni_ip_map ni_example_a 7 = None" "ni_ARP_timer ni_example_a (ucast (7 :: u32)) = None" "ni_frames_out ni_example_a = []"
    by (simp_all add: ni_example_a_def NetworkInterface_def)
  then show ?thesis
    using ni_send_cases [OF ni_example_ok(1) dg_example_ok, of "ad_inet 7 0" 7] by auto
qed

text \<open>
  Head-of-line blocking: while the first waiting datagram's next hop is unknown, an ARP message that
  resolves a later one sends none of the waiting datagrams; they all stay queued.
\<close>

theorem ni_head_of_line:
  assumes "ni_ok ni" and "ni_frames_waited ni = (d1, hop1) # (d2, hop2) # ws" and "ad_ipv4_numeric hop1 = Inr ip1"
    and "ad_ipv4_numeric hop2 = Inr (am_sender_ip_address m)" and "ip1 \<noteq> am_sender_ip_address m" and "ni_ip_map ni ip1 = None"
    and "eth_ok (am_sender_ethernet_address m)" and "am_opcode m = OPCODE_REPLY"
  shows "ni_frames_waited (fst (ni_recv_ARP ni m)) = ni_frames_waited ni \<and>
    ni_frames_out (fst (ni_recv_ARP ni m)) = ni_frames_out ni \<and>
    ni_ip_map (fst (ni_recv_ARP ni m)) (am_sender_ip_address m) = Some (am_sender_ethernet_address m, 0)"
proof -
  obtain n where n: "ad_ipv4_numeric (ni_ip_address ni) = Inr n" using assms(1) by (auto simp: ni_ok_def ad_is_ipv4_def)
  let ?ni1 = "ni\<lparr>ni_ip_map := (ni_ip_map ni)(am_sender_ip_address m \<mapsto> (am_sender_ethernet_address m, 0))\<rparr>"
  have "\<not> ni_known ?ni1 (d1, hop1)" using assms(3,5,6) by (simp add: ni_known_def)
  then show ?thesis
    using ni_recv_ARP_spec [OF assms(1,7) n] assms(2,8) by (auto simp: OPCODE_REPLY_def OPCODE_REQUEST_def)
qed

theorem ni_head_of_line_witness:
  "length (ni_frames_waited (fst (ni_recv_ARP
     (ni_example_a\<lparr>ni_frames_waited := [(dg_example, ad_inet 7 0), (dg_example, ad_inet 8 0)]\<rparr>)
     (ARPMessage\<lparr>am_opcode := OPCODE_REPLY, am_sender_ip_address := 8\<rparr>)))) = 2"
proof -
  let ?ni = "ni_example_a\<lparr>ni_frames_waited := [(dg_example, ad_inet 7 0), (dg_example, ad_inet 8 0)]\<rparr>"
  let ?m = "ARPMessage\<lparr>am_opcode := OPCODE_REPLY, am_sender_ip_address := 8\<rparr>"
  have "ni_ok ?ni" using ni_example_ok(1) dg_example_ok by (auto simp: ni_ok_def ad_is_ipv4_def)
  moreover have "eth_ok (am_sender_ethernet_address ?m)" by (simp add: ARPMessage_def eth_ok_def)
  ultimately show ?thesis
    using ni_head_of_line [of ?ni dg_example "ad_inet 7 0" dg_example "ad_inet 8 0" "[]" 7 ?m]
    by (simp add: ni_example_a_def NetworkInterface_def)
qed

end
