(* ===== verification/Router.thy ===== *)
theory Router
  imports Network_Interface
begin

text \<open>
  \<open>AsyncNetworkInterface\<close>, \<open>RouteTableEntry\<close> and \<open>Router\<close> (router.hh, router.cc).

  The C++ standard leaves a shift of a 32-bit value by 32 or more, or by a negative amount, undefined.
  The parameter \<open>ub\<close> stands for whatever such a shift yields; the theorems hold for every choice of it.
\<close>

unbundle bit_operations_syntax

section \<open>AsyncNetworkInterface\<close>

record async_interface =
  ai_interface :: network_interface
  ai_datagrams_out :: "ipv4_datagram list"

definition AsyncNetworkInterface :: "network_interface \<Rightarrow> async_interface" where
  "AsyncNetworkInterface ni = \<lparr>ai_interface = ni, ai_datagrams_out = []\<rparr>"

definition ai_recv_frame :: "async_interface \<Rightarrow> ethernet_frame \<Rightarrow> async_interface \<times> (exn + unit)" where
  "ai_recv_frame ai frame =
    (case ni_recv_frame (ai_interface ai) frame of
       (ni, Inl e) \<Rightarrow> (ai\<lparr>ai_interface := ni\<rparr>, Inl e)
     | (ni, Inr None) \<Rightarrow> (ai\<lparr>ai_interface := ni\<rparr>, Inr ())
     | (ni, Inr (Some d)) \<Rightarrow>
         (ai\<lparr>ai_interface := ni, ai_datagrams_out := ai_datagrams_out ai @ [d]\<rparr>, Inr ()))"

definition ai_send_datagram ::
    "async_interface \<Rightarrow> ipv4_datagram \<Rightarrow> address \<Rightarrow> async_interface \<times> (exn + unit)" where
  "ai_send_datagram ai dgram next_hop =
    (let (ni, r) = ni_send_datagram (ai_interface ai) dgram next_hop in (ai\<lparr>ai_interface := ni\<rparr>, r))"

section \<open>Router\<close>

record route_entry =
  re_route_prefix :: u32
  re_prefix_length :: u8
  re_next_hop :: "address option"
  re_interface_num :: u64

definition RouteTableEntry0 :: route_entry where
  "RouteTableEntry0 = \<lparr>re_route_prefix = 0, re_prefix_length = 0, re_next_hop = None, re_interface_num = 0\<rparr>"

definition RouteTableEntry :: "u32 \<Rightarrow> u8 \<Rightarrow> address option \<Rightarrow> u64 \<Rightarrow> route_entry" where
  "RouteTableEntry route_prefix prefix_length next_hop interface_num =
    \<lparr>re_route_prefix = route_prefix, re_prefix_length = prefix_length, re_next_hop = next_hop,
     re_interface_num = interface_num\<rparr>"

record router =
  rt_interfaces :: "async_interface list"
  rt_routing_table :: "route_entry list"

definition Router :: router where
  "Router = \<lparr>rt_interfaces = [], rt_routing_table = []\<rparr>"

definition rt_add_interface :: "router \<Rightarrow> async_interface \<Rightarrow> router \<times> u64" where
  "rt_add_interface r ai =
    (let r = r\<lparr>rt_interfaces := rt_interfaces r @ [ai]\<rparr> in (r, of_nat (length (rt_interfaces r)) - 1))"

definition rt_interface :: "router \<Rightarrow> u64 \<Rightarrow> exn + async_interface" where
  "rt_interface r N =
    (if unat N < length (rt_interfaces r) then Inr (rt_interfaces r ! unat N)
     else Inl (Out_Of_Range ''vector::_M_range_check''))"

definition rt_add_route :: "router \<Rightarrow> u32 \<Rightarrow> u8 \<Rightarrow> address option \<Rightarrow> u64 \<Rightarrow> router" where
  "rt_add_route r route_prefix prefix_length next_hop interface_num =
    r\<lparr>rt_routing_table := rt_routing_table r @ [RouteTableEntry route_prefix prefix_length next_hop interface_num]\<rparr>"

text \<open>\<open>x >> (32 - n)\<close>, where the amount is an \<open>int\<close>.\<close>

definition shr32 :: "(u32 \<Rightarrow> int \<Rightarrow> u32) \<Rightarrow> u32 \<Rightarrow> u8 \<Rightarrow> u32" where
  "shr32 ub x n =
    (let k = 32 - int (unat n) in if 0 \<le> k \<and> k < 32 then drop_bit (nat k) x else ub x k)"

text \<open>One round of the loop over the table: \<open>find_match\<close>, \<open>max_prelen\<close> and \<open>matched_entry\<close>.\<close>

definition rt_scan_entry ::
    "(u32 \<Rightarrow> int \<Rightarrow> u32) \<Rightarrow> u32 \<Rightarrow> route_entry \<Rightarrow> bool \<times> u8 \<times> route_entry \<Rightarrow> bool \<times> u8 \<times> route_entry" where
  "rt_scan_entry ub dst_ip entry st =
    (let (find_match, max_prelen, matched_entry) = st in
     if re_prefix_length entry = 0 \<and> max_prelen \<le> re_prefix_length entry
     then (True, re_prefix_length entry, entry)
     else if shr32 ub (re_route_prefix entry) (re_prefix_length entry) = shr32 ub dst_ip (re_prefix_length entry) \<and>
             max_prelen \<le> re_prefix_length entry
     then (True, re_prefix_length entry, entry)
     else (find_match, max_prelen, matched_entry))"

definition rt_lookup :: "(u32 \<Rightarrow> int \<Rightarrow> u32) \<Rightarrow> route_entry list \<Rightarrow> u32 \<Rightarrow> route_entry option" where
  "rt_lookup ub table dst_ip =
    (let (find_match, _, matched_entry) = fold (rt_scan_entry ub dst_ip) table (False, 0, RouteTableEntry0)
     in if find_match then Some matched_entry else None)"

text \<open>The datagram is a reference: its TTL is decremented in place. Indexing the vector out of range is undefined.\<close>

definition rt_route_one_datagram ::
    "(u32 \<Rightarrow> int \<Rightarrow> u32) \<Rightarrow> router \<Rightarrow> ipv4_datagram \<Rightarrow> router \<times> ipv4_datagram \<times> (exn + unit)" where
  "rt_route_one_datagram ub r dgram =
    (if ih_ttl (dg_header dgram) = 0 then (r, dgram, Inr ())
     else
       let dgram = dgram\<lparr>dg_header := (dg_header dgram)\<lparr>ih_ttl := ih_ttl (dg_header dgram) - 1\<rparr>\<rparr> in
       if ih_ttl (dg_header dgram) = 0 then (r, dgram, Inr ())
       else
         let dst_ip = ih_dst (dg_header dgram) in
         case rt_lookup ub (rt_routing_table r) dst_ip of
           None \<Rightarrow> (r, dgram, Inr ())
         | Some entry \<Rightarrow>
             let i = unat (re_interface_num entry) in
             if \<not> i < length (rt_interfaces r)
             then (r, dgram, Inl (Undefined_Behaviour ''_interfaces[_interface_num]''))
             else
               case (case re_next_hop entry of Some a \<Rightarrow> Inr a | None \<Rightarrow> ad_from_ipv4_numeric dst_ip) of
                 Inl e \<Rightarrow> (r, dgram, Inl e)
               | Inr next_hop \<Rightarrow>
                   let (ai, result) = ai_send_datagram (rt_interfaces r ! i) dgram next_hop
                   in (r\<lparr>rt_interfaces := (rt_interfaces r)[i := ai]\<rparr>, dgram, result))"

definition rt_set_queue :: "router \<Rightarrow> nat \<Rightarrow> ipv4_datagram list \<Rightarrow> router" where
  "rt_set_queue r i q =
    r\<lparr>rt_interfaces := (rt_interfaces r)[i := (rt_interfaces r ! i)\<lparr>ai_datagrams_out := q\<rparr>]\<rparr>"

text \<open>The inner loop of \<open>route\<close> over the queue of interface \<open>i\<close>, and the outer one over the interfaces.\<close>

fun rt_route_queue ::
    "(u32 \<Rightarrow> int \<Rightarrow> u32) \<Rightarrow> router \<Rightarrow> nat \<Rightarrow> ipv4_datagram list \<Rightarrow> router \<times> (exn + unit)" where
  "rt_route_queue ub r i [] = (r, Inr ())"
| "rt_route_queue ub r i (dgram # queue) =
    (case rt_route_one_datagram ub r dgram of
       (r, dgram, Inl e) \<Rightarrow> (rt_set_queue r i (dgram # queue), Inl e)
     | (r, _, Inr _) \<Rightarrow> rt_route_queue ub (rt_set_queue r i queue) i queue)"

fun rt_route_from :: "(u32 \<Rightarrow> int \<Rightarrow> u32) \<Rightarrow> router \<Rightarrow> nat list \<Rightarrow> router \<times> (exn + unit)" where
  "rt_route_from ub r [] = (r, Inr ())"
| "rt_route_from ub r (i # is) =
    (case rt_route_queue ub r i (ai_datagrams_out (rt_interfaces r ! i)) of
       (r, Inl e) \<Rightarrow> (r, Inl e)
     | (r, Inr _) \<Rightarrow> rt_route_from ub r is)"

definition rt_route :: "(u32 \<Rightarrow> int \<Rightarrow> u32) \<Rightarrow> router \<Rightarrow> router \<times> (exn + unit)" where
  "rt_route ub r = rt_route_from ub r [0..<length (rt_interfaces r)]"

section \<open>Longest-prefix match\<close>

text \<open>The first \<open>prefix_length\<close> bits agree; a length of zero matches everything.\<close>

definition rt_matches :: "route_entry \<Rightarrow> u32 \<Rightarrow> bool" where
  "rt_matches e dst \<longleftrightarrow>
     unat (re_route_prefix e) div 2 ^ (32 - unat (re_prefix_length e)) = unat dst div 2 ^ (32 - unat (re_prefix_length e))"

lemma rt_matches_0: "re_prefix_length e = 0 \<Longrightarrow> rt_matches e dst"
  using unat_u32_bound [of "re_route_prefix e"] unat_u32_bound [of dst] by (simp add: rt_matches_def)

text \<open>The undefined shift does not matter: it is only evaluated where the comparison of lengths fails anyway.\<close>

lemma rt_scan_entry_eq:
  assumes "unat (re_prefix_length e) \<le> 32"
  shows "rt_scan_entry ub dst e (b, m, x) =
    (if rt_matches e dst \<and> m \<le> re_prefix_length e then (True, re_prefix_length e, e) else (b, m, x))"
proof (cases "re_prefix_length e = 0")
  case True
  then show ?thesis by (simp add: rt_scan_entry_def rt_matches_0)
next
  case False
  then have "unat (re_prefix_length e) \<noteq> 0" by (simp add: unat_eq_zero)
  then have "0 \<le> 32 - int (unat (re_prefix_length e)) \<and> 32 - int (unat (re_prefix_length e)) < 32"
    "nat (32 - int (unat (re_prefix_length e))) = 32 - unat (re_prefix_length e)"
    using assms by linarith+
  then have s: "shr32 ub y (re_prefix_length e) = drop_bit (32 - unat (re_prefix_length e)) y" for y
    by (simp only: shr32_def Let_def if_True simp_thms)
  have "drop_bit k y = drop_bit k z \<longleftrightarrow> unat y div 2 ^ k = unat z div 2 ^ k" for y z :: u32 and k
    by (simp add: word_unat_eq_iff unat_drop_bit)
  then show ?thesis using False by (simp add: rt_scan_entry_def s rt_matches_def)
qed

definition rt_best :: "route_entry list \<Rightarrow> u32 \<Rightarrow> route_entry \<Rightarrow> bool" where
  "rt_best table dst e \<longleftrightarrow> (\<exists>pre post. table = pre @ e # post \<and> rt_matches e dst \<and>
     (\<forall>x \<in> set pre. rt_matches x dst \<longrightarrow> re_prefix_length x \<le> re_prefix_length e) \<and>
     (\<forall>x \<in> set post. rt_matches x dst \<longrightarrow> re_prefix_length x < re_prefix_length e))"

lemma rt_best_length: "rt_best table dst e \<Longrightarrow> x \<in> set table \<Longrightarrow> rt_matches x dst \<Longrightarrow> re_prefix_length x \<le> re_prefix_length e"
  unfolding rt_best_def by (metis Un_iff order.strict_implies_order order_refl set_ConsD set_append)

lemma rt_scan_spec:
  assumes "\<forall>e \<in> set table. unat (re_prefix_length e) \<le> 32"
  shows "case fold (rt_scan_entry ub dst) table (False, 0, RouteTableEntry0) of (b, m, x) \<Rightarrow>
    if b then rt_best table dst x \<and> m = re_prefix_length x else m = 0 \<and> (\<forall>e \<in> set table. \<not> rt_matches e dst)"
  using assms
proof (induction table rule: rev_induct)
  case (snoc e table)
  obtain b m x where st: "fold (rt_scan_entry ub dst) table (False, 0, RouteTableEntry0) = (b, m, x)"
    by (cases "fold (rt_scan_entry ub dst) table (False, 0, RouteTableEntry0)")
  have IH: "if b then rt_best table dst x \<and> m = re_prefix_length x else m = 0 \<and> (\<forall>e \<in> set table. \<not> rt_matches e dst)"
    using snoc.IH snoc.prems by (simp add: st)
  have eq: "fold (rt_scan_entry ub dst) (table @ [e]) (False, 0, RouteTableEntry0) =
      (if rt_matches e dst \<and> m \<le> re_prefix_length e then (True, re_prefix_length e, e) else (b, m, x))"
    using snoc.prems by (simp add: st rt_scan_entry_eq)
  show ?case
  proof (cases "rt_matches e dst \<and> m \<le> re_prefix_length e")
    case True
    have "\<forall>y \<in> set table. rt_matches y dst \<longrightarrow> re_prefix_length y \<le> re_prefix_length e"
      using IH True rt_best_length [of table dst x] by (auto split: if_splits intro: order_trans)
    then have "rt_best (table @ [e]) dst e" 
      using True unfolding rt_best_def by (intro exI [of _ table] exI [of _ "[]"]) simp
    then show ?thesis using True by (simp add: eq del: fold_append)
  next
    case False
    show ?thesis
    proof (cases b)
      case True
      then obtain pre post where "table = pre @ x # post" "rt_matches x dst"
        "\<forall>y \<in> set pre. rt_matches y dst \<longrightarrow> re_prefix_length y \<le> re_prefix_length x"
        "\<forall>y \<in> set post. rt_matches y dst \<longrightarrow> re_prefix_length y < re_prefix_length x" "m = re_prefix_length x"
        using IH by (auto simp: rt_best_def)
      then have "rt_best (table @ [e]) dst x"
        unfolding rt_best_def using False by (intro exI [of _ pre] exI [of _ "post @ [e]"]) auto
      then show ?thesis using True False IH by (auto simp: eq simp del: fold_append)
    next
      case nb: False
      then show ?thesis using False IH by (auto simp: eq simp del: fold_append)
    qed
  qed
qed simp

lemma rt_lookup_spec:
  assumes "\<forall>e \<in> set table. unat (re_prefix_length e) \<le> 32"
  shows "case rt_lookup ub table dst of None \<Rightarrow> \<forall>e \<in> set table. \<not> rt_matches e dst | Some e \<Rightarrow> rt_best table dst e"
  using rt_scan_spec [OF assms, where ub = ub and dst = dst] by (auto simp: rt_lookup_def Let_def split: prod.splits if_splits)

lemma rt_lookup_mem:
  "\<forall>e \<in> set table. unat (re_prefix_length e) \<le> 32 \<Longrightarrow> rt_lookup ub table dst = Some e \<Longrightarrow> e \<in> set table"
  using rt_lookup_spec [of table, where ub = ub and dst = dst] by (auto simp: rt_best_def)

section \<open>Well-formed routers\<close>

definition rt_ok :: "router \<Rightarrow> bool" where
  "rt_ok r \<longleftrightarrow>
     (\<forall>ai \<in> set (rt_interfaces r). ni_ok (ai_interface ai) \<and> list_all dg_ok (ai_datagrams_out ai)) \<and>
     (\<forall>e \<in> set (rt_routing_table r). unat (re_prefix_length e) \<le> 32 \<and>
        unat (re_interface_num e) < length (rt_interfaces r) \<and> (\<forall>a. re_next_hop e = Some a \<longrightarrow> ad_is_ipv4 a))"

definition dg_hop :: "ipv4_datagram \<Rightarrow> ipv4_datagram" where
  "dg_hop d = d\<lparr>dg_header := (dg_header d)\<lparr>ih_ttl := ih_ttl (dg_header d) - 1\<rparr>\<rparr>"

lemma dg_hop_ok: "dg_ok d \<Longrightarrow> dg_ok (dg_hop d)"
  by (simp add: dg_ok_def dg_hop_def ih_ok_def)

definition rt_next_hop :: "route_entry \<Rightarrow> u32 \<Rightarrow> address" where
  "rt_next_hop e dst = (case re_next_hop e of Some a \<Rightarrow> a | None \<Rightarrow> ad_inet dst 0)"

lemma ad_is_ipv4_inet [simp]: "ad_is_ipv4 (ad_inet n p)"
  by (simp add: ad_is_ipv4_def)

lemma rt_next_hop_ipv4: "rt_ok r \<Longrightarrow> e \<in> set (rt_routing_table r) \<Longrightarrow> ad_is_ipv4 (rt_next_hop e dst)"
  by (auto simp: rt_ok_def rt_next_hop_def split: option.splits)

text \<open>The three outcomes for one datagram.\<close>

lemma rt_route_one_cases:
  assumes "rt_ok r" and "dg_ok d"
  obtains (drop) d' where "rt_route_one_datagram ub r d = (r, d', Inr ())"
    "unat (ih_ttl (dg_header d)) \<le> 1 \<or> rt_lookup ub (rt_routing_table r) (ih_dst (dg_header d)) = None"
  | (forward) e ni where "1 < unat (ih_ttl (dg_header d))"
    "rt_lookup ub (rt_routing_table r) (ih_dst (dg_header d)) = Some e" "e \<in> set (rt_routing_table r)"
    "unat (re_interface_num e) < length (rt_interfaces r)"
    "ni_send_datagram (ai_interface (rt_interfaces r ! unat (re_interface_num e))) (dg_hop d)
       (rt_next_hop e (ih_dst (dg_header d))) = (ni, Inr ())" "ni_ok ni"
    "rt_route_one_datagram ub r d = (r\<lparr>rt_interfaces := (rt_interfaces r)[unat (re_interface_num e) :=
       (rt_interfaces r ! unat (re_interface_num e))\<lparr>ai_interface := ni\<rparr>]\<rparr>, dg_hop d, Inr ())"
proof -
  let ?t = "ih_ttl (dg_header d)" and ?dst = "ih_dst (dg_header d)"
  have dst: "ih_dst (dg_header (dg_hop d)) = ?dst" "ih_ttl (dg_header (dg_hop d)) = ?t - 1" by (simp_all add: dg_hop_def)
  show thesis
  proof (cases "?t = 0 \<or> ?t - 1 = 0")
    case True
    then have "unat ?t \<le> 1" by (auto simp: unat_eq_zero)
    moreover have "\<exists>d'. rt_route_one_datagram ub r d = (r, d', Inr ())"
      using True by (auto simp: rt_route_one_datagram_def Let_def)
    ultimately show thesis using drop by blast
  next
    case False
    then have t: "1 < unat ?t" by (metis One_nat_def diff_self less_one nat_neq_iff unat_1 unat_eq_zero word_unat_eq_iff)
    show thesis
    proof (cases "rt_lookup ub (rt_routing_table r) ?dst")
      case None
      then have "rt_route_one_datagram ub r d = (r, dg_hop d, Inr ())"
        using False by (simp add: rt_route_one_datagram_def Let_def dg_hop_def)
      then show thesis using None drop by blast
    next
      case (Some e)
      let ?i = "unat (re_interface_num e)"
      have mem: "e \<in> set (rt_routing_table r)"
        using assms(1) Some by (intro rt_lookup_mem [where ub = ub and dst = ?dst]) (auto simp: rt_ok_def)
      then have i: "?i < length (rt_interfaces r)" using assms(1) by (simp add: rt_ok_def)
      then have "ni_ok (ai_interface (rt_interfaces r ! ?i))" using assms(1) by (simp add: rt_ok_def)
      from ni_send_datagram_ok [OF this dg_hop_ok [OF assms(2)] rt_next_hop_ipv4 [OF assms(1) mem]]
      obtain ni where ni: "ni_send_datagram (ai_interface (rt_interfaces r ! ?i)) (dg_hop d) (rt_next_hop e ?dst) = (ni, Inr ())"
        "ni_ok ni" by blast
      have hop: "(case re_next_hop e of Some a \<Rightarrow> Inr a | None \<Rightarrow> ad_from_ipv4_numeric ?dst) = Inr (rt_next_hop e ?dst)"
        by (simp add: rt_next_hop_def ad_from_ipv4_numeric_eq split: option.split)
      have "rt_route_one_datagram ub r d = (r\<lparr>rt_interfaces := (rt_interfaces r)[?i :=
          (rt_interfaces r ! ?i)\<lparr>ai_interface := ni\<rparr>]\<rparr>, dg_hop d, Inr ())"
        using False Some i ni(1) unfolding rt_route_one_datagram_def Let_def dg_hop_def [symmetric] dst
        by (simp add: hop ai_send_datagram_def)
      then show thesis using forward [OF t Some mem i ni] by blast
    qed
  qed
qed
abbreviation rt_queues :: "router \<Rightarrow> ipv4_datagram list list" where
  "rt_queues r \<equiv> map ai_datagrams_out (rt_interfaces r)"

lemma rt_ok_update:
  assumes "rt_ok r" and "ni_ok (ai_interface ai)" and "list_all dg_ok (ai_datagrams_out ai)"
  shows "rt_ok (r\<lparr>rt_interfaces := (rt_interfaces r)[i := ai]\<rparr>)"
  using assms by (auto simp: rt_ok_def dest!: set_update_subset_insert [THEN subsetD])

lemma rt_route_one_ok:
  assumes "rt_ok r" and "dg_ok d"
  shows "\<exists>r' d'. rt_route_one_datagram ub r d = (r', d', Inr ()) \<and> rt_ok r' \<and> rt_queues r' = rt_queues r"
  using assms
proof (cases rule: rt_route_one_cases [where ub = ub])
  case (drop d')
  then show ?thesis using assms(1) by simp
next
  case (forward e ni)
  let ?i = "unat (re_interface_num e)"
  let ?ai = "(rt_interfaces r ! ?i)\<lparr>ai_interface := ni\<rparr>"
  have "list_all dg_ok (ai_datagrams_out ?ai)" using assms(1) forward(4) by (simp add: rt_ok_def)
  then have "rt_ok (r\<lparr>rt_interfaces := (rt_interfaces r)[?i := ?ai]\<rparr>)" using assms(1) forward(6) by (intro rt_ok_update) simp_all
  moreover have "rt_queues (r\<lparr>rt_interfaces := (rt_interfaces r)[?i := ?ai]\<rparr>) = rt_queues r"
    using forward(4) by (simp add: map_update list_update_same_conv)
  ultimately show ?thesis using forward(7) by blast
qed

lemma rt_set_queue_ok:
  assumes "rt_ok r" and "i < length (rt_interfaces r)" and "list_all dg_ok q"
  shows "rt_ok (rt_set_queue r i q)" "rt_queues (rt_set_queue r i q) = (rt_queues r)[i := q]"
    "length (rt_interfaces (rt_set_queue r i q)) = length (rt_interfaces r)"
proof -
  have "ni_ok (ai_interface ((rt_interfaces r ! i)\<lparr>ai_datagrams_out := q\<rparr>))" using assms(1,2) by (simp add: rt_ok_def)
  then show "rt_ok (rt_set_queue r i q)" unfolding rt_set_queue_def using assms by (intro rt_ok_update) simp_all
qed (simp_all add: rt_set_queue_def map_update)

lemma rt_queues_length: "rt_queues r' = qs \<Longrightarrow> length (rt_interfaces r') = length qs"
  by (metis length_map)

lemma rt_route_queue_ok:
  assumes "rt_ok r" and "i < length (rt_interfaces r)" and "list_all dg_ok q" and "rt_queues r ! i = q"
  shows "\<exists>r'. rt_route_queue ub r i q = (r', Inr ()) \<and> rt_ok r' \<and> rt_queues r' = (rt_queues r)[i := []]"
  using assms
proof (induction q arbitrary: r)
  case Nil
  then have "(rt_queues r)[i := []] = rt_queues r" by (metis list_update_id)
  then show ?case using Nil.prems(1) by simp
next
  case (Cons d q)
  obtain r1 d1 where r1: "rt_route_one_datagram ub r d = (r1, d1, Inr ())" "rt_ok r1" "rt_queues r1 = rt_queues r"
    using rt_route_one_ok [OF Cons.prems(1), of d ub] Cons.prems(3) by auto
  have i: "i < length (rt_interfaces r1)" using rt_queues_length [OF r1(3)] Cons.prems(2) by simp
  note s = rt_set_queue_ok [OF r1(2) i, of q]
  have q: "list_all dg_ok q" using Cons.prems(3) by simp
  have "rt_queues (rt_set_queue r1 i q) ! i = q" using s(2) [OF q] i by simp
  then obtain r' where "rt_route_queue ub (rt_set_queue r1 i q) i q = (r', Inr ())" "rt_ok r'"
    "rt_queues r' = (rt_queues (rt_set_queue r1 i q))[i := []]"
    using Cons.IH [OF s(1) [OF q] _ q] i s(3) [OF q] by auto
  then show ?case using r1 s(2) [OF q] by simp
qed

lemma rt_route_from_ok:
  assumes "rt_ok r" and "\<forall>i \<in> set is. i < length (rt_interfaces r)"
  shows "\<exists>r'. rt_route_from ub r is = (r', Inr ()) \<and> rt_ok r' \<and> length (rt_interfaces r') = length (rt_interfaces r) \<and>
    (\<forall>j < length (rt_interfaces r). rt_queues r' ! j = (if j \<in> set is then [] else rt_queues r ! j))"
  using assms
proof (induction "is" arbitrary: r)
  case (Cons i "is")
  have i: "i < length (rt_interfaces r)" using Cons.prems(2) by simp
  then have "list_all dg_ok (rt_queues r ! i)" using Cons.prems(1) by (simp add: rt_ok_def)
  from rt_route_queue_ok [OF Cons.prems(1) i this refl, of ub] obtain r1 where
    r1: "rt_route_queue ub r i (rt_queues r ! i) = (r1, Inr ())" "rt_ok r1" "rt_queues r1 = (rt_queues r)[i := []]" by blast
  have len: "length (rt_interfaces r1) = length (rt_interfaces r)" using rt_queues_length [OF r1(3)] by simp
  obtain r' where r': "rt_route_from ub r1 is = (r', Inr ())" "rt_ok r'" "length (rt_interfaces r') = length (rt_interfaces r1)"
    "\<forall>j < length (rt_interfaces r1). rt_queues r' ! j = (if j \<in> set is then [] else rt_queues r1 ! j)"
    using Cons.IH [OF r1(2)] Cons.prems(2) len by auto
  have "rt_route_from ub r (i # is) = (r', Inr ())" using r1(1) r'(1) i by simp
  moreover have "rt_queues r' ! j = (if j \<in> set (i # is) then [] else rt_queues r ! j)" if "j < length (rt_interfaces r)" for j
    using r'(4) len that r1(3) by (auto simp: nth_list_update)
  ultimately show ?case using r'(2,3) len by auto
qed simp

text \<open>A router between two links, for the witnesses.\<close>

definition rt_example :: router where
  "rt_example =
    \<lparr>rt_interfaces = [AsyncNetworkInterface (ni_example_a\<lparr>ni_ip_map := [0x0a000002 \<mapsto> ([2, 0, 0, 0, 0, 2], 0)]\<rparr>),
       AsyncNetworkInterface ni_example_b],
     rt_routing_table = [RouteTableEntry 0x0a000000 8 None 0, RouteTableEntry 0 0 (Some (ad_inet 7 0)) 1]\<rparr>"

lemma rt_example_ok: "rt_ok rt_example"
  using ni_example_ok
  by (auto simp: rt_ok_def rt_example_def AsyncNetworkInterface_def RouteTableEntry_def ni_ok_def eth_ok_def)

section \<open>Properties\<close>

text \<open>
  C26. Longest-prefix match: with prefix lengths of at most 32, the loop over the routing table finds the
  matching route with the longest prefix, the last one of several equally long ones, and reports
  none exactly when no route matches; it does so whatever an undefined shift yields.
\<close>

theorem rt_longest_prefix:
  assumes "\<forall>e \<in> set table. unat (re_prefix_length e) \<le> 32"
  shows "case rt_lookup ub table dst of
      None \<Rightarrow> \<forall>e \<in> set table. \<not> rt_matches e dst
    | Some e \<Rightarrow> \<exists>pre post. table = pre @ e # post \<and> rt_matches e dst \<and>
        (\<forall>x \<in> set pre. rt_matches x dst \<longrightarrow> re_prefix_length x \<le> re_prefix_length e) \<and>
        (\<forall>x \<in> set post. rt_matches x dst \<longrightarrow> re_prefix_length x < re_prefix_length e)"
  using rt_lookup_spec [OF assms, where ub = ub and dst = dst] unfolding rt_best_def .

theorem rt_longest_prefix_witness:
  "rt_lookup (\<lambda>x k. 0) (rt_routing_table rt_example) 0x0a000002 \<noteq> None"
proof -
  have "\<forall>e \<in> set (rt_routing_table rt_example). unat (re_prefix_length e) \<le> 32" using rt_example_ok by (simp add: rt_ok_def)
  from rt_longest_prefix [OF this, where ub = "\<lambda>x k. 0" and dst = "0x0a000002"]
  have "rt_lookup (\<lambda>x k. 0) (rt_routing_table rt_example) 0x0a000002 = None \<Longrightarrow>
    \<not> rt_matches (RouteTableEntry 0 0 (Some (ad_inet 7 0)) 1) 0x0a000002"
    by (simp add: rt_example_def)
  then show ?thesis by (auto simp: rt_matches_0 RouteTableEntry_def)
qed

text \<open>
  C27. Forwarding one datagram in a well-formed router: with a TTL of at most one, or without a matching
  route, it is dropped and the router is unchanged; otherwise only the interface of the route is
  touched, and if that interface knows the next hop (the route's, or the destination itself on a
  directly attached network), one frame goes out that hands the neighbour with that Ethernet address
  the same datagram with its TTL decremented.
\<close>

theorem rt_forwards:
  fixes ub :: "u32 \<Rightarrow> int \<Rightarrow> u32"
  assumes "rt_ok r" and "dg_ok d"
  defines "dst \<equiv> ih_dst (dg_header d)" and "r' \<equiv> fst (rt_route_one_datagram ub r d)"
  shows "case rt_lookup ub (rt_routing_table r) dst of
      None \<Rightarrow> r' = r
    | Some e \<Rightarrow>
        if unat (ih_ttl (dg_header d)) \<le> 1 then r' = r
        else let i = unat (re_interface_num e); hop = (case re_next_hop e of Some a \<Rightarrow> a | None \<Rightarrow> ad_inet dst 0);
                 out = \<lambda>r. ai_interface (rt_interfaces r ! i)
          in (\<forall>j. j \<noteq> i \<longrightarrow> rt_interfaces r' ! j = rt_interfaces r ! j) \<and>
             (\<forall>ip mac t. ad_ipv4_numeric hop = Inr ip \<and> ni_ip_map (out r) ip = Some (mac, t) \<longrightarrow>
                (\<exists>f. ni_frames_out (out r') = ni_frames_out (out r) @ [f] \<and>
                  (\<forall>peer. ni_ethernet_address peer = mac \<longrightarrow>
                    (\<exists>d'. ni_recv_frame peer f = (peer, Inr (Some d')) \<and>
                       dg_same (d\<lparr>dg_header := (dg_header d)\<lparr>ih_ttl := ih_ttl (dg_header d) - 1\<rparr>\<rparr>) d'))))"
  using assms(1,2)
proof (cases rule: rt_route_one_cases [where ub = ub])
  case (drop d')
  then show ?thesis by (auto simp: r'_def dst_def split: option.split)
next
  case (forward e ni)
  let ?i = "unat (re_interface_num e)" and ?hop = "rt_next_hop e dst"
  let ?o = "ai_interface (rt_interfaces r ! ?i)"
  have r': "r' = r\<lparr>rt_interfaces := (rt_interfaces r)[?i := (rt_interfaces r ! ?i)\<lparr>ai_interface := ni\<rparr>]\<rparr>"
    using forward(7) by (simp add: r'_def)
  have out: "ai_interface (rt_interfaces r' ! ?i) = ni" using forward(4) by (simp add: r')
  have other: "rt_interfaces r' ! j = rt_interfaces r ! j" if "j \<noteq> ?i" for j using that by (simp add: r')
  have o: "ni_ok ?o" using assms(1) forward(4) by (simp add: rt_ok_def)
  have "\<exists>f. ni_frames_out ni = ni_frames_out ?o @ [f] \<and> (\<forall>peer. ni_ethernet_address peer = mac \<longrightarrow>
      (\<exists>d'. ni_recv_frame peer f = (peer, Inr (Some d')) \<and> dg_same (dg_hop d) d'))"
    if h: "ad_ipv4_numeric ?hop = Inr ip" and m: "ni_ip_map ?o ip = Some (mac, t)" for ip mac t
  proof -
    have "eth_ok mac" "eth_ok (ni_ethernet_address ?o)" using o m by (auto simp: ni_ok_def)
    then obtain f where f: "ni_send_frame ?o (dg_hop d) mac = (?o\<lparr>ni_frames_out := ni_frames_out ?o @ [f]\<rparr>, Inr ())"
      "ni_carries (ni_ethernet_address ?o) mac (dg_hop d) f"
      using ni_send_frame_ok dg_hop_ok [OF assms(2)] by blast
    have "ni_send_datagram ?o (dg_hop d) ?hop = ni_send_frame ?o (dg_hop d) mac"
      using h m by (simp add: ni_send_datagram_def)
    then have "ni = ?o\<lparr>ni_frames_out := ni_frames_out ?o @ [f]\<rparr>" using forward(5) f(1) by (simp add: dst_def)
    then show ?thesis using ni_recv_frame_carries [OF f(2)] by (intro exI [of _ f]) auto
  qed
  then show ?thesis
    using forward(1,2) other out
    unfolding dst_def [symmetric] rt_next_hop_def dg_hop_def by (simp add: Let_def) blast
qed

theorem rt_forwards_witness:
  "\<exists>f. ni_frames_out (ai_interface (rt_interfaces (fst (rt_route_one_datagram (\<lambda>x k. 0) rt_example dg_example)) ! 0)) = [f]"
proof -
  have l: "rt_lookup (\<lambda>x k. 0) (rt_routing_table rt_example) (ih_dst (dg_header dg_example)) = Some (RouteTableEntry 0x0a000000 8 None 0)"
    by code_simp
  have e: "\<not> unat (ih_ttl (dg_header dg_example)) \<le> 1" "ih_dst (dg_header dg_example) = 0x0a000002" by code_simp+
  have "ni_ip_map (ai_interface (rt_interfaces rt_example ! 0)) 0x0a000002 = Some ([2, 0, 0, 0, 0, 2], 0)"
    "ni_frames_out (ai_interface (rt_interfaces rt_example ! 0)) = []"
    by (simp_all add: rt_example_def AsyncNetworkInterface_def ni_example_a_def NetworkInterface_def)
  then show ?thesis
    using rt_forwards [OF rt_example_ok dg_example_ok, where ub = "\<lambda>x k. 0"] l e by (auto simp: Let_def RouteTableEntry_def)
qed

text \<open>
  C28. \<open>route\<close> always finishes and never throws in a well-formed router; afterwards the router is still
  well-formed and no interface has a received datagram left.
\<close>

theorem rt_route_drains:
  assumes "rt_ok r"
  shows "\<exists>r'. rt_route ub r = (r', Inr ()) \<and> rt_ok r' \<and> (\<forall>ai \<in> set (rt_interfaces r'). ai_datagrams_out ai = [])"
proof -
  obtain r' where r': "rt_route ub r = (r', Inr ())" "rt_ok r'" "length (rt_interfaces r') = length (rt_interfaces r)"
    "\<forall>j < length (rt_interfaces r). rt_queues r' ! j = []"
    using rt_route_from_ok [OF assms, of "[0..<length (rt_interfaces r)]" ub] by (auto simp: rt_route_def)
  then show ?thesis by (auto simp: in_set_conv_nth)
qed

theorem rt_route_drains_witness: "\<exists>r'. rt_route (\<lambda>x k. 0) rt_example = (r', Inr ())"
  using rt_route_drains [OF rt_example_ok, where ub = "\<lambda>x k. 0"] by blast

end
