(* ===== verification/Byte_Stream.thy ===== *)
theory Byte_Stream
  imports Sponge_Prelude
begin

text \<open>
  \<open>libsponge/byte_stream.hh\<close> and \<open>byte_stream.cc\<close>: the bounded in-order byte stream that the
  reassembler writes to and the sender reads from. The record holds the private members; one
  definition per method, each returning its result together with the new state where the
  method changes it.
\<close>

section \<open>State and operations\<close>

record byte_stream =
  bs_capacity :: u64
  bs_buffer :: bytes
  bs_input_end :: bool
  bs_error :: bool
  bs_bytes_written :: u64
  bs_bytes_read :: u64

definition ByteStream :: "u64 \<Rightarrow> byte_stream" where
  "ByteStream capacity =
     \<lparr>bs_capacity = capacity, bs_buffer = [], bs_input_end = False, bs_error = False,
      bs_bytes_written = 0, bs_bytes_read = 0\<rparr>"

definition bs_input_ended :: "byte_stream \<Rightarrow> bool" where
  "bs_input_ended s = bs_input_end s"

definition bs_buffer_size :: "byte_stream \<Rightarrow> u64" where
  "bs_buffer_size s = str_size (bs_buffer s)"

definition bs_buffer_empty :: "byte_stream \<Rightarrow> bool" where
  "bs_buffer_empty s \<longleftrightarrow> bs_buffer s = []"

definition bs_eof :: "byte_stream \<Rightarrow> bool" where
  "bs_eof s \<longleftrightarrow> bs_input_end s \<and> bs_buffer s = []"

definition bs_remaining_capacity :: "byte_stream \<Rightarrow> u64" where
  "bs_remaining_capacity s = bs_capacity s - str_size (bs_buffer s)"

definition bs_write :: "byte_stream \<Rightarrow> bytes \<Rightarrow> u64 \<times> byte_stream" where
  "bs_write s data =
    (if bs_input_ended s \<or> bs_error s then (0, s)
     else if bs_remaining_capacity s = 0 then (0, s)
     else
       let write_bytes =
             (if bs_remaining_capacity s < str_size data then bs_remaining_capacity s
              else str_size data)
       in (write_bytes,
           s\<lparr>bs_buffer := bs_buffer s @ substr data 0 write_bytes,
             bs_bytes_written := bs_bytes_written s + write_bytes\<rparr>))"

definition bs_clip :: "byte_stream \<Rightarrow> u64 \<Rightarrow> u64" where
  "bs_clip s len = (if len > str_size (bs_buffer s) then str_size (bs_buffer s) else len)"

definition bs_peek_output :: "byte_stream \<Rightarrow> u64 \<Rightarrow> bytes" where
  "bs_peek_output s len = take (unat (bs_clip s len)) (bs_buffer s)"

definition bs_pop_output :: "byte_stream \<Rightarrow> u64 \<Rightarrow> byte_stream" where
  "bs_pop_output s len =
     s\<lparr>bs_bytes_read := bs_bytes_read s + bs_clip s len,
       bs_buffer := drop (unat (bs_clip s len)) (bs_buffer s)\<rparr>"

definition bs_read :: "byte_stream \<Rightarrow> u64 \<Rightarrow> bytes \<times> byte_stream" where
  "bs_read s len =
     (if bs_error s then ([], s) else (bs_peek_output s len, bs_pop_output s len))"

definition bs_end_input :: "byte_stream \<Rightarrow> byte_stream" where
  "bs_end_input s = s\<lparr>bs_input_end := True\<rparr>"

definition bs_set_error :: "byte_stream \<Rightarrow> byte_stream" where
  "bs_set_error s = s\<lparr>bs_error := True\<rparr>"

text \<open>The calls a client can make, in any order, and what they move in and out of the stream.\<close>

datatype bs_op =
    Bs_Write bytes
  | Bs_Read u64
  | Bs_Pop u64
  | Bs_End_Input
  | Bs_Set_Error

fun bs_step :: "byte_stream \<Rightarrow> bs_op \<Rightarrow> bytes \<times> bytes \<times> byte_stream" where
  "bs_step s (Bs_Write d) =
     (let (n, s') = bs_write s d in (take (unat n) d, [], s'))"
| "bs_step s (Bs_Read n) = (let (out, s') = bs_read s n in ([], out, s'))"
| "bs_step s (Bs_Pop n) = ([], bs_peek_output s n, bs_pop_output s n)"
| "bs_step s Bs_End_Input = ([], [], bs_end_input s)"
| "bs_step s Bs_Set_Error = ([], [], bs_set_error s)"

fun bs_run :: "byte_stream \<Rightarrow> bs_op list \<Rightarrow> bytes \<times> bytes \<times> byte_stream" where
  "bs_run s [] = ([], [], s)"
| "bs_run s (x # xs) =
     (let (i, out, s1) = bs_step s x; (is, outs, s2) = bs_run s1 xs
      in (i @ is, out @ outs, s2))"

section \<open>Well-formedness\<close>

text \<open>
  The buffer never holds more than the capacity and the two counters differ by what is in
  the buffer (as 64-bit counts, which wrap with the counters themselves).
\<close>

definition bs_inv :: "byte_stream \<Rightarrow> bool" where
  "bs_inv s \<longleftrightarrow> length (bs_buffer s) \<le> unat (bs_capacity s) \<and>
     bs_bytes_written s = bs_bytes_read s + str_size (bs_buffer s)"

definition bs_room :: "byte_stream \<Rightarrow> nat" where
  "bs_room s = unat (bs_capacity s) - length (bs_buffer s)"

definition bs_closed :: "byte_stream \<Rightarrow> bool" where
  "bs_closed s \<longleftrightarrow> bs_input_end s \<or> bs_error s"

section \<open>The interface of a byte channel\<close>

text \<open>
  What the reassembler and the sender rely on: writing appends a prefix of the data whose
  length is bounded by the room, reading removes a prefix of the contents.
\<close>

locale byte_channel =
  fixes chan_write :: "'s \<Rightarrow> bytes \<Rightarrow> u64 \<times> 's"
    and chan_read :: "'s \<Rightarrow> u64 \<Rightarrow> bytes \<times> 's"
    and contents :: "'s \<Rightarrow> bytes"
    and room :: "'s \<Rightarrow> nat"
    and closed :: "'s \<Rightarrow> bool"
    and broken :: "'s \<Rightarrow> bool"
    and invar :: "'s \<Rightarrow> bool"
  assumes write_contents:
      "invar s \<Longrightarrow> contents (snd (chan_write s d)) = contents s @ take (unat (fst (chan_write s d))) d"
    and write_count:
      "invar s \<Longrightarrow> str_ok d \<Longrightarrow>
       unat (fst (chan_write s d)) = (if closed s then 0 else min (room s) (length d))"
    and write_room:
      "invar s \<Longrightarrow> str_ok d \<Longrightarrow> room (snd (chan_write s d)) = room s - unat (fst (chan_write s d))"
    and write_invar: "invar s \<Longrightarrow> invar (snd (chan_write s d))"
    and read_contents:
      "invar s \<Longrightarrow> fst (chan_read s n) @ contents (snd (chan_read s n)) = contents s"
    and read_count:
      "invar s \<Longrightarrow> length (fst (chan_read s n)) =
         (if broken s then 0 else min (unat n) (length (contents s)))"
    and read_room:
      "invar s \<Longrightarrow> room (snd (chan_read s n)) = room s + length (fst (chan_read s n))"
    and read_invar: "invar s \<Longrightarrow> invar (snd (chan_read s n))"
begin

text \<open>Data that fits is accepted whole.\<close>

lemma write_fits:
  assumes "invar s" and "\<not> closed s" and "length d \<le> room s" and "str_ok d"
  shows "contents (snd (chan_write s d)) = contents s @ d"
    and "room (snd (chan_write s d)) = room s - length d"
  using assms by (simp_all add: write_contents write_count write_room)

text \<open>The capacity of the channel is neither created nor lost.\<close>

lemma write_capacity:
  assumes "invar s" and "str_ok d"
  shows "room (snd (chan_write s d)) + length (contents (snd (chan_write s d)))
    = room s + length (contents s)"
  using assms by (simp add: write_contents write_count write_room min_def)

lemma read_capacity:
  assumes "invar s"
  shows "room (snd (chan_read s n)) + length (contents (snd (chan_read s n)))
    = room s + length (contents s)"
proof -
  have "length (contents s) = length (fst (chan_read s n)) + length (contents (snd (chan_read s n)))"
    using read_contents [OF assms, of n] by (metis length_append)
  then show ?thesis using assms by (simp add: read_room)
qed

text \<open>A read takes the oldest bytes.\<close>

lemma read_prefix:
  assumes "invar s" and "\<not> broken s"
  shows "fst (chan_read s n) = take (unat n) (contents s)"
    and "contents (snd (chan_read s n)) = drop (unat n) (contents s)"
proof -
  let ?o = "fst (chan_read s n)"
  have app: "?o @ contents (snd (chan_read s n)) = contents s" and
    len: "length ?o = min (unat n) (length (contents s))"
    using assms by (simp_all add: read_contents read_count)
  from app have "?o = take (length ?o) (contents s)"
    "contents (snd (chan_read s n)) = drop (length ?o) (contents s)"
    by (metis append_eq_conv_conj)+
  then show "?o = take (unat n) (contents s)"
    "contents (snd (chan_read s n)) = drop (unat n) (contents s)"
    unfolding len by (simp_all add: min_def)
qed

end

section \<open>Lemmas\<close>

lemmas bs_defs =
  bs_input_ended_def bs_buffer_size_def bs_buffer_empty_def bs_eof_def
  bs_remaining_capacity_def bs_clip_def bs_peek_output_def bs_pop_output_def
  bs_end_input_def bs_set_error_def

lemma bs_inv_ByteStream [simp]: "bs_inv (ByteStream c)"
  by (simp add: bs_inv_def ByteStream_def)

lemma bs_inv_size: "bs_inv s \<Longrightarrow> unat (str_size (bs_buffer s)) = length (bs_buffer s)"
  using unat_u64_bound [of "bs_capacity s"] by (simp add: bs_inv_def unat_str_size)

lemma unat_bs_remaining_capacity: "bs_inv s \<Longrightarrow> unat (bs_remaining_capacity s) = bs_room s"
  unfolding bs_remaining_capacity_def bs_room_def
  by (subst unat_diff_no_wrap) (simp_all add: bs_inv_size, simp add: bs_inv_def)

lemma unat_bs_clip: "bs_inv s \<Longrightarrow> unat (bs_clip s n) = min (unat n) (length (bs_buffer s))"
  using bs_inv_size [of s] by (simp add: bs_clip_def word_less_nat_alt)

lemma bs_write_count_raw:
  assumes "bs_inv s"
  shows "unat (fst (bs_write s d)) =
    (if bs_closed s then 0 else min (bs_room s) (unat (str_size d)))"
  using unat_bs_remaining_capacity [OF assms]
  by (auto simp: bs_write_def bs_closed_def bs_input_ended_def Let_def word_less_nat_alt)

lemma bs_write_state:
  "snd (bs_write s d) =
    s\<lparr>bs_buffer := bs_buffer s @ take (unat (fst (bs_write s d))) d,
      bs_bytes_written := bs_bytes_written s + fst (bs_write s d)\<rparr>"
  by (simp add: bs_write_def substr_def Let_def)

lemma bs_write_inv:
  assumes "bs_inv s"
  shows "bs_inv (snd (bs_write s d))"
proof -
  let ?n = "fst (bs_write s d)"
  have n: "unat ?n \<le> bs_room s" "unat ?n \<le> length d"
    using bs_write_count_raw [OF assms, of d] unat_str_size_le [of d] by (auto split: if_splits)
  have "str_size (take (unat ?n) d) = ?n"
    using n(2) by (simp add: str_size_def min_def)
  with n assms show ?thesis
    by (subst bs_write_state) (auto simp: bs_inv_def bs_room_def str_size_append)
qed

lemma bs_pop_inv:
  assumes "bs_inv s"
  shows "bs_inv (bs_pop_output s n)"
proof -
  let ?k = "bs_clip s n"
  have k: "unat ?k \<le> length (bs_buffer s)"
    using assms by (simp add: unat_bs_clip)
  then have "str_size (drop (unat ?k) (bs_buffer s)) = str_size (bs_buffer s) - ?k"
    by (simp add: str_size_def of_nat_diff)
  then show ?thesis
    using assms by (auto simp: bs_inv_def bs_pop_output_def)
qed

lemma bs_read_inv: "bs_inv s \<Longrightarrow> bs_inv (snd (bs_read s n))"
  by (simp add: bs_read_def bs_pop_inv)

lemma bs_end_input_inv [simp]: "bs_inv (bs_end_input s) = bs_inv s"
  by (simp add: bs_inv_def bs_end_input_def)

lemma bs_set_error_inv [simp]: "bs_inv (bs_set_error s) = bs_inv s"
  by (simp add: bs_inv_def bs_set_error_def)

lemma bs_peek_pop: "bs_peek_output s n @ bs_buffer (bs_pop_output s n) = bs_buffer s"
  by (simp add: bs_peek_output_def bs_pop_output_def)

interpretation stream: byte_channel bs_write bs_read bs_buffer bs_room bs_closed bs_error bs_inv
proof (unfold_locales, goal_cases)
  case (1 s d)
  then show ?case by (subst bs_write_state) simp
next
  case (2 s d)
  then show ?case by (simp add: bs_write_count_raw)
next
  case (3 s d)
  then show ?case
    by (subst bs_write_state) (simp add: bs_room_def bs_write_count_raw min_def)
next
  case (4 s d)
  then show ?case by (rule bs_write_inv)
next
  case (5 s n)
  then show ?case by (simp add: bs_read_def bs_peek_pop)
next
  case (6 s n)
  then show ?case by (simp add: bs_read_def bs_peek_output_def unat_bs_clip min_def)
next
  case (7 s n)
  then show ?case
    by (auto simp: bs_read_def bs_peek_output_def bs_pop_output_def bs_room_def unat_bs_clip bs_inv_def)
next
  case (8 s n)
  then show ?case by (rule bs_read_inv)
qed

text \<open>Frame facts: what an operation leaves alone.\<close>

lemma bs_write_frame [simp]:
  "bs_capacity (snd (bs_write s d)) = bs_capacity s"
  "bs_input_end (snd (bs_write s d)) = bs_input_end s"
  "bs_error (snd (bs_write s d)) = bs_error s"
  "bs_bytes_read (snd (bs_write s d)) = bs_bytes_read s"
  by (subst bs_write_state, simp)+

lemma bs_read_frame [simp]:
  "bs_capacity (snd (bs_read s n)) = bs_capacity s"
  "bs_input_end (snd (bs_read s n)) = bs_input_end s"
  "bs_error (snd (bs_read s n)) = bs_error s"
  "bs_bytes_written (snd (bs_read s n)) = bs_bytes_written s"
  by (simp_all add: bs_read_def bs_pop_output_def)

lemma bs_flag_frame [simp]:
  "bs_capacity (bs_end_input s) = bs_capacity s"
  "bs_buffer (bs_end_input s) = bs_buffer s"
  "bs_bytes_read (bs_end_input s) = bs_bytes_read s"
  "bs_bytes_written (bs_end_input s) = bs_bytes_written s"
  "bs_error (bs_end_input s) = bs_error s"
  "bs_input_end (bs_end_input s) = True"
  "bs_capacity (bs_set_error s) = bs_capacity s"
  "bs_buffer (bs_set_error s) = bs_buffer s"
  "bs_input_end (bs_set_error s) = bs_input_end s"
  "bs_error (bs_set_error s) = True"
  "bs_bytes_read (bs_set_error s) = bs_bytes_read s"
  "bs_bytes_written (bs_set_error s) = bs_bytes_written s"
  by (simp_all add: bs_end_input_def bs_set_error_def)

text \<open>Every call keeps the invariant and moves bytes only from input to buffer to output.\<close>

lemma bs_step_conserve:
  assumes "bs_inv s" and "bs_step s x = (i, out, s')"
  shows "bs_inv s'" and "bs_buffer s @ i = out @ bs_buffer s'" and "bs_capacity s' = bs_capacity s"
    and "bs_bytes_read s' = bs_bytes_read s + str_size out"
proof -
  have clip: "str_size (bs_peek_output s n) = bs_clip s n" for n
  proof -
    have "unat (bs_clip s n) \<le> length (bs_buffer s)" using assms(1) by (simp add: unat_bs_clip)
    then show ?thesis by (simp add: bs_peek_output_def str_size_def min_absorb2)
  qed
  have cases: "bs_inv s' \<and> bs_buffer s @ i = out @ bs_buffer s' \<and> bs_capacity s' = bs_capacity s \<and>
    bs_bytes_read s' = bs_bytes_read s + str_size out"
  proof (cases x)
    case (Bs_Write d)
    with assms have "i = take (unat (fst (bs_write s d))) d" "out = []" "s' = snd (bs_write s d)"
      by (auto split: prod.splits)
    with assms(1) show ?thesis by (simp add: stream.write_contents stream.write_invar)
  next
    case (Bs_Read n)
    with assms have "i = []" "out = fst (bs_read s n)" "s' = snd (bs_read s n)"
      by (auto split: prod.splits)
    moreover have "bs_bytes_read (snd (bs_read s n)) = bs_bytes_read s + str_size (fst (bs_read s n))"
      by (simp add: bs_read_def clip) (simp add: bs_pop_output_def)
    ultimately show ?thesis
      using assms(1) by (simp add: stream.read_contents stream.read_invar)
  next
    case (Bs_Pop n)
    with assms show ?thesis
      by (auto simp: bs_peek_pop bs_pop_inv clip) (simp_all add: bs_pop_output_def)
  qed (use assms in auto)
  then show "bs_inv s'" "bs_buffer s @ i = out @ bs_buffer s'" "bs_capacity s' = bs_capacity s"
    "bs_bytes_read s' = bs_bytes_read s + str_size out"
    by blast+
qed

lemma bs_run_conserve:
  assumes "bs_inv s" and "bs_run s xs = (is, outs, s')"
  shows "bs_inv s' \<and> bs_buffer s @ is = outs @ bs_buffer s' \<and> bs_capacity s' = bs_capacity s \<and>
    bs_bytes_read s' = bs_bytes_read s + str_size outs"
  using assms
proof (induction xs arbitrary: s "is" outs)
  case Nil
  then show ?case by simp
next
  case (Cons x xs)
  obtain i out s1 where step: "bs_step s x = (i, out, s1)" by (metis prod_cases3)
  obtain is1 outs1 s2 where run: "bs_run s1 xs = (is1, outs1, s2)" by (metis prod_cases3)
  from Cons.prems step run have eq: "is = i @ is1" "outs = out @ outs1" "s' = s2" by auto
  note one = bs_step_conserve [OF Cons.prems(1) step]
  from Cons.IH [OF one(1)] run eq(3) have
    IH: "bs_inv s' \<and> bs_buffer s1 @ is1 = outs1 @ bs_buffer s' \<and> bs_capacity s' = bs_capacity s1 \<and>
      bs_bytes_read s' = bs_bytes_read s1 + str_size outs1" by blast
  have "bs_buffer s @ is = out @ (bs_buffer s1 @ is1)"
    using one(2) eq(1) by (metis append_assoc)
  also have "\<dots> = outs @ bs_buffer s'" using IH eq(2) by simp
  finally show ?case using IH one eq by (simp add: str_size_append)
qed

lemma bs_step_closed:
  assumes "bs_closed s" and "bs_step s x = (i, out, s')"
  shows "i = [] \<and> bs_closed s'"
  using assms
  by (cases x) (auto simp: bs_write_def bs_closed_def bs_input_ended_def bs_read_def bs_pop_output_def split: if_splits)

section \<open>Properties\<close>

text \<open>
  C20. The stream is a bounded first-in first-out channel: after any sequence of calls on a new
  stream, the bytes accepted by \<open>write\<close> are, in order, the bytes handed out followed by the
  bytes still buffered; the buffer stays within the capacity; and the two counters are the
  numbers of bytes accepted and handed out.
\<close>

theorem bs_fifo:
  assumes "bs_run (ByteStream c) xs = (accepted, delivered, s)"
  shows "accepted = delivered @ bs_buffer s \<and> length (bs_buffer s) \<le> unat c \<and>
    bs_bytes_written s = str_size accepted \<and> bs_bytes_read s = str_size delivered"
proof -
  from bs_run_conserve [OF bs_inv_ByteStream assms] have
    r: "bs_inv s" "accepted = delivered @ bs_buffer s" "bs_capacity s = c"
      "bs_bytes_read s = str_size delivered"
    by (simp_all add: ByteStream_def)
  then show ?thesis by (simp add: bs_inv_def str_size_append)
qed

theorem bs_fifo_witness:
  "fst (bs_run (ByteStream 3) [Bs_Write [1, 2, 3, 4], Bs_Read 2, Bs_Write [5, 6, 7]])
   = [1, 2] @ [3, 5, 6]"
proof -
  let ?r = "bs_run (ByteStream 3) [Bs_Write [1, 2, 3, 4], Bs_Read 2, Bs_Write [5, 6, 7]]"
  have out: "fst (snd ?r) = [1, 2]" "bs_buffer (snd (snd ?r)) = [3, 5, 6]"
    by code_simp+
  have "?r = (fst ?r, fst (snd ?r), snd (snd ?r))" by simp
  from bs_fifo [OF this] show ?thesis by (simp only: out)
qed

text \<open>
  \<open>write\<close> on every branch: a stream whose input has ended or that suffered an error is left
  unchanged and accepts nothing; otherwise exactly the prefix of the data that fits in the
  remaining capacity is appended, and its length is returned and counted.
\<close>

theorem bs_write_spec:
  assumes "bs_inv s" and "str_ok d"
  shows "bs_write s d =
    (if bs_closed s then (0, s)
     else let n = min (length d) (unat (bs_remaining_capacity s))
          in (of_nat n, s\<lparr>bs_buffer := bs_buffer s @ take n d,
                          bs_bytes_written := bs_bytes_written s + of_nat n\<rparr>))"
proof (cases "bs_closed s")
  case True
  then show ?thesis by (simp add: bs_write_def bs_closed_def bs_input_ended_def)
next
  case False
  let ?n = "min (length d) (unat (bs_remaining_capacity s))"
  have n: "unat (fst (bs_write s d)) = ?n"
    using False assms by (simp add: stream.write_count unat_bs_remaining_capacity)
  then have "fst (bs_write s d) = of_nat ?n" by (simp flip: n)
  note n = n this
  have "bs_write s d = (fst (bs_write s d), snd (bs_write s d))" by simp
  then show ?thesis using False using n by (subst (asm) bs_write_state) (simp add: Let_def)
qed

theorem bs_write_spec_witness:
  "bs_write (ByteStream 2) [7, 8, 9] =
     (2, (ByteStream 2)\<lparr>bs_buffer := [7, 8], bs_bytes_written := 2\<rparr>)"
proof -
  have "str_ok [7, 8, 9]" by (simp add: str_ok_def)
  from bs_write_spec [OF bs_inv_ByteStream [of 2] this] show ?thesis
    by (simp add: ByteStream_def bs_closed_def bs_remaining_capacity_def Let_def)
qed

text \<open>
  Once the writer has ended the input (or an error was set), no later call makes the stream
  accept another byte, whatever the order of calls.
\<close>

theorem bs_closed_accepts_nothing:
  assumes "bs_closed s" and "bs_run s xs = (accepted, delivered, s')"
  shows "accepted = [] \<and> bs_closed s'"
  using assms
proof (induction xs arbitrary: s accepted delivered)
  case Nil
  then show ?case by simp
next
  case (Cons x xs)
  obtain i out s1 where step: "bs_step s x = (i, out, s1)" by (metis prod_cases3)
  obtain is1 outs1 s2 where run: "bs_run s1 xs = (is1, outs1, s2)" by (metis prod_cases3)
  from bs_step_closed [OF Cons.prems(1) step] have "i = []" "bs_closed s1" by simp_all
  moreover from Cons.IH [OF this(2)] run Cons.prems(2) step
  have "is1 = [] \<and> bs_closed s'" by auto
  ultimately show ?case using Cons.prems(2) step run by auto
qed

theorem bs_closed_accepts_nothing_witness:
  "fst (bs_run (bs_end_input (ByteStream 4)) [Bs_Write [1], Bs_Pop 1, Bs_Write [2]]) = []"
proof -
  let ?r = "bs_run (bs_end_input (ByteStream 4)) [Bs_Write [1], Bs_Pop 1, Bs_Write [2]]"
  have "bs_closed (bs_end_input (ByteStream 4))" by (simp add: bs_closed_def)
  moreover have "?r = (fst ?r, fst (snd ?r), snd (snd ?r))" by simp
  ultimately show ?thesis using bs_closed_accepts_nothing by blast
qed

end
