(* ===== verification/Stream_Reassembler.thy ===== *)
theory Stream_Reassembler
  imports Byte_Stream
begin

text \<open>
  \<open>libsponge/stream_reassembler.hh\<close> and \<open>stream_reassembler.cc\<close>: substrings of a byte stream
  arrive in any order, possibly overlapping, and are written to the output stream in order.
  All index arithmetic is 64-bit and wraps, as \<open>size_t\<close> does. The ordered set of waiting
  substrings (\<open>std::set\<close> of pairs) is a list kept sorted and without duplicates.
\<close>

section \<open>State and operations\<close>

type_synonym chunk = "u64 \<times> bytes"

record stream_reassembler =
  sr_output :: byte_stream
  sr_capacity :: u64
  sr_bytes_in_buffer :: u64
  sr_has_eof :: bool
  sr_final_idx :: u64
  sr_mapbuffer :: "chunk list"
  sr_first_unassembled :: u64

definition StreamReassembler :: "u64 \<Rightarrow> stream_reassembler" where
  "StreamReassembler capacity =
     \<lparr>sr_output = ByteStream capacity, sr_capacity = capacity, sr_bytes_in_buffer = 0,
      sr_has_eof = False, sr_final_idx = 0, sr_mapbuffer = [], sr_first_unassembled = 0\<rparr>"

definition sr_first_unacceptable :: "stream_reassembler \<Rightarrow> u64" where
  "sr_first_unacceptable r = bs_remaining_capacity (sr_output r) + sr_first_unassembled r"

definition sr_truncation_data :: "stream_reassembler \<Rightarrow> bytes \<Rightarrow> u64 \<Rightarrow> bytes" where
  "sr_truncation_data r data index =
    (let new_data =
           (if sr_has_eof r \<and> index + str_size data > sr_final_idx r + 1
            then substr data 0 (sr_final_idx r - index + 1) else data);
         first_unacceptable = sr_first_unacceptable r
     in if index + str_size new_data > first_unacceptable
        then substr new_data 0 (first_unacceptable - index) else new_data)"

text \<open>The line that ends the output stream once the last byte has been assembled.\<close>

definition sr_end_if_done :: "stream_reassembler \<Rightarrow> stream_reassembler" where
  "sr_end_if_done r =
    (if sr_has_eof r \<and> sr_first_unassembled r = sr_final_idx r + 1
     then r\<lparr>sr_output := bs_end_input (sr_output r)\<rparr> else r)"

definition sr_push_onestr :: "stream_reassembler \<Rightarrow> bytes \<Rightarrow> u64 \<Rightarrow> bool \<times> stream_reassembler" where
  "sr_push_onestr r new_data index =
    (let fu = sr_first_unassembled r; len = str_size new_data
     in if index = fu
        then (True, sr_end_if_done
               (r\<lparr>sr_output := snd (bs_write (sr_output r) new_data),
                  sr_first_unassembled := fu + len\<rparr>))
        else if index + len \<le> fu then (True, sr_end_if_done r)
        else if index < fu \<and> index + len > fu
        then (True, sr_end_if_done
               (r\<lparr>sr_output := snd (bs_write (sr_output r)
                                 (substr new_data (fu - index) (index + len - fu))),
                  sr_first_unassembled := fu + index + len - fu\<rparr>))
        else (False, r))"

text \<open>
  The \<open>for\<close> loop over the waiting substrings: the first one that \<open>push_onestr\<close> accepts, with
  the state it leaves.
\<close>

fun sr_scan :: "stream_reassembler \<Rightarrow> chunk list \<Rightarrow> (chunk \<times> stream_reassembler) option" where
  "sr_scan r [] = None"
| "sr_scan r (p # ps) =
     (case sr_push_onestr r (snd p) (fst p) of
        (True, r') \<Rightarrow> Some (p, r')
      | (False, r') \<Rightarrow> sr_scan r' ps)"

lemma sr_push_onestr_mapbuffer [simp]:
  "sr_mapbuffer (snd (sr_push_onestr r d i)) = sr_mapbuffer r"
  by (simp add: sr_push_onestr_def sr_end_if_done_def Let_def)

lemma sr_scan_Some:
  "sr_scan r ps = Some (p, r') \<Longrightarrow> p \<in> set ps \<and> sr_mapbuffer r' = sr_mapbuffer r"
proof (induction ps arbitrary: r)
  case Nil
  then show ?case by simp
next
  case (Cons q ps)
  have m: "sr_mapbuffer (snd (sr_push_onestr r (snd q) (fst q))) = sr_mapbuffer r" by simp
  obtain b r1 where q: "sr_push_onestr r (snd q) (fst q) = (b, r1)" by (cases "sr_push_onestr r (snd q) (fst q)")
  with m have "sr_mapbuffer r1 = sr_mapbuffer r" by simp
  with Cons q show ?case by (cases b) auto
qed

text \<open>The \<open>while (can_readout)\<close> loop: each round erases one waiting substring.\<close>

function sr_readout :: "stream_reassembler \<Rightarrow> stream_reassembler" where
  "sr_readout r =
     (case sr_scan r (sr_mapbuffer r) of
        None \<Rightarrow> r
      | Some (p, r') \<Rightarrow> sr_readout (r'\<lparr>sr_mapbuffer := remove1 p (sr_mapbuffer r')\<rparr>))"
  by pat_completeness auto
termination
proof (relation "measure (\<lambda>r. length (sr_mapbuffer r))", simp)
  fix r p r' x2 assume "sr_scan r (sr_mapbuffer r) = Some x2" "(p, r') = x2"
  then have "p \<in> set (sr_mapbuffer r)" "sr_mapbuffer r' = sr_mapbuffer r"
    using sr_scan_Some by blast+
  moreover have "0 < length (sr_mapbuffer r)"
    using calculation(1) by (rule length_pos_if_in_set)
  ultimately show "(r'\<lparr>sr_mapbuffer := remove1 p (sr_mapbuffer r')\<rparr>, r)
      \<in> measure (\<lambda>r. length (sr_mapbuffer r))"
    by (simp add: length_remove1)
qed

declare sr_readout.simps [simp del]

definition sr_push_substring :: "stream_reassembler \<Rightarrow> bytes \<Rightarrow> u64 \<Rightarrow> bool \<Rightarrow> stream_reassembler" where
  "sr_push_substring r data index eof =
    (let r1 = (if eof then r\<lparr>sr_has_eof := True, sr_final_idx := index + str_size data - 1\<rparr> else r);
         new_data = sr_truncation_data r1 data index;
         r2 = snd (sr_push_onestr r1 new_data index);
         r3 = (if index > sr_first_unassembled r2
               then r2\<lparr>sr_mapbuffer := insort_insert (index, new_data) (sr_mapbuffer r2)\<rparr>
               else r2)
     in sr_readout r3)"

text \<open>
  \<open>unassembled_bytes\<close> collects the indices in a \<open>std::set<int>\<close>, so each index is first
  truncated to 32 bits.
\<close>

definition sr_unassembled_bytes :: "stream_reassembler \<Rightarrow> u64" where
  "sr_unassembled_bytes r =
     of_nat (card (set (concat (map (\<lambda>(i, d). map (\<lambda>k. ucast (i + of_nat k) :: u32) [0..<length d])
       (sr_mapbuffer r)))))"

definition sr_empty :: "stream_reassembler \<Rightarrow> bool" where
  "sr_empty r \<longleftrightarrow> sr_mapbuffer r = []"

definition sr_reach_end :: "stream_reassembler \<Rightarrow> bool" where
  "sr_reach_end r \<longleftrightarrow> sr_has_eof r \<and> sr_final_idx r + 1 = sr_first_unassembled r"

definition sr_stream_read :: "stream_reassembler \<Rightarrow> u64 \<Rightarrow> bytes \<times> stream_reassembler" where
  "sr_stream_read r n =
     (let (out, s) = bs_read (sr_output r) n in (out, r\<lparr>sr_output := s\<rparr>))"

section \<open>Invariant and abstraction\<close>

definition sr_limit :: "stream_reassembler \<Rightarrow> nat" where
  "sr_limit r = unat (sr_first_unassembled r) + bs_room (sr_output r)"

definition chunk_ok :: "bytes \<Rightarrow> nat \<Rightarrow> chunk \<Rightarrow> bool" where
  "chunk_ok S lim p \<longleftrightarrow> snd p = [] \<or>
     (unat (fst p) + length (snd p) \<le> min lim (length S) \<and>
      snd p = substream S (unat (fst p)) (length (snd p)))"

definition sr_core :: "bytes \<Rightarrow> bytes \<Rightarrow> stream_reassembler \<Rightarrow> bool" where
  "sr_core S popped r \<longleftrightarrow>
     bs_inv (sr_output r) \<and> \<not> bs_error (sr_output r) \<and>
     unat (bs_capacity (sr_output r)) < 2 ^ 63 \<and> length S < 2 ^ 63 \<and>
     popped @ bs_buffer (sr_output r) = take (unat (sr_first_unassembled r)) S \<and>
     unat (sr_first_unassembled r) \<le> length S \<and>
     (sr_has_eof r \<longrightarrow> sr_final_idx r + 1 = of_nat (length S)) \<and>
     (bs_input_end (sr_output r) \<longrightarrow> sr_has_eof r \<and> unat (sr_first_unassembled r) = length S)"

definition sr_ended :: "bytes \<Rightarrow> stream_reassembler \<Rightarrow> bool" where
  "sr_ended S r \<longleftrightarrow> (sr_has_eof r \<and> unat (sr_first_unassembled r) = length S \<longrightarrow> bs_input_end (sr_output r))"

definition sr_inv :: "bytes \<Rightarrow> bytes \<Rightarrow> stream_reassembler \<Rightarrow> bool" where
  "sr_inv S popped r \<longleftrightarrow> sr_core S popped r \<and> sr_ended S r \<and>
     sorted (sr_mapbuffer r) \<and> distinct (sr_mapbuffer r) \<and>
     (\<forall>p \<in> set (sr_mapbuffer r). sr_first_unassembled r < fst p \<and> chunk_ok S (sr_limit r) p)"

definition sr_covered :: "stream_reassembler \<Rightarrow> nat set" where
  "sr_covered r = {..<unat (sr_first_unassembled r)} \<union>
     (\<Union>p \<in> set (sr_mapbuffer r). {unat (fst p)..<unat (fst p) + length (snd p)})"

definition push_ok :: "bytes \<Rightarrow> stream_reassembler \<Rightarrow> bytes \<Rightarrow> u64 \<Rightarrow> bool \<Rightarrow> bool" where
  "push_ok S r data index eof \<longleftrightarrow>
     (data = [] \<or> (unat index + length data \<le> length S \<and> index \<le> sr_first_unacceptable r \<and>
                     data = substream S (unat index) (length data))) \<and>
     (eof \<longrightarrow> unat index + length data = length S)"

section \<open>Runs: pushes from the network interleaved with reads by the application\<close>

datatype sr_op = Sr_Push bytes u64 bool | Sr_Read u64

fun sr_step :: "stream_reassembler \<Rightarrow> sr_op \<Rightarrow> bytes \<times> stream_reassembler" where
  "sr_step r (Sr_Push data index eof) = ([], sr_push_substring r data index eof)"
| "sr_step r (Sr_Read n) = sr_stream_read r n"

fun sr_run :: "stream_reassembler \<Rightarrow> sr_op list \<Rightarrow> bytes \<times> stream_reassembler" where
  "sr_run r [] = ([], r)"
| "sr_run r (x # xs) =
     (let (out, r1) = sr_step r x; (outs, r2) = sr_run r1 xs in (out @ outs, r2))"

fun sr_op_ok :: "bytes \<Rightarrow> stream_reassembler \<Rightarrow> sr_op \<Rightarrow> bool" where
  "sr_op_ok S r (Sr_Push data index eof) = push_ok S r data index eof"
| "sr_op_ok S r (Sr_Read n) = True"

fun sr_run_ok :: "bytes \<Rightarrow> stream_reassembler \<Rightarrow> sr_op list \<Rightarrow> bool" where
  "sr_run_ok S r [] = True"
| "sr_run_ok S r (x # xs) = (sr_op_ok S r x \<and> sr_run_ok S (snd (sr_step r x)) xs)"

section \<open>Lemmas\<close>

lemma sr_end_if_done_simps [simp]:
  "sr_has_eof (sr_end_if_done r) = sr_has_eof r"
  "sr_final_idx (sr_end_if_done r) = sr_final_idx r"
  "sr_mapbuffer (sr_end_if_done r) = sr_mapbuffer r"
  "sr_first_unassembled (sr_end_if_done r) = sr_first_unassembled r"
  "sr_capacity (sr_end_if_done r) = sr_capacity r"
  "bs_room (sr_output (sr_end_if_done r)) = bs_room (sr_output r)"
  "bs_buffer (sr_output (sr_end_if_done r)) = bs_buffer (sr_output r)"
  "sr_limit (sr_end_if_done r) = sr_limit r"
  by (simp_all add: sr_end_if_done_def bs_room_def sr_limit_def)

lemma sr_core_end_if_done:
  assumes "sr_core S popped r"
  shows "sr_core S popped (sr_end_if_done r) \<and> sr_ended S (sr_end_if_done r)"
proof -
  have "sr_first_unassembled r = sr_final_idx r + 1 \<longleftrightarrow> unat (sr_first_unassembled r) = length S" if "sr_has_eof r"
    using assms that by (auto simp: sr_core_def word_unat_eq_iff unat_of_nat)
  then show ?thesis
    using assms by (auto simp: sr_end_if_done_def sr_core_def sr_ended_def)
qed

text \<open>Writing the part of a chunk that lies past the first unassembled byte.\<close>

lemma sr_core_write:
  assumes core: "sr_core S popped r" and ok: "chunk_ok S (sr_limit r) (i, d)"
    and i: "unat i \<le> unat (sr_first_unassembled r)" "unat (sr_first_unassembled r) \<le> unat i + length d"
    and piece: "piece = drop (unat (sr_first_unassembled r) - unat i) d"
    and fu': "unat fu' = unat i + length d"
  defines "r' \<equiv> r\<lparr>sr_output := snd (bs_write (sr_output r) piece), sr_first_unassembled := fu'\<rparr>"
  shows "sr_core S popped r' \<and> sr_limit r' = sr_limit r"
proof (cases "piece = []")
  case True
  have "bs_buffer (snd (bs_write (sr_output r) [])) = bs_buffer (sr_output r)"
   "bs_room (snd (bs_write (sr_output r) [])) = bs_room (sr_output r)"
    using core stream.write_contents[of "sr_output r" "[]"] stream.write_room[of "sr_output r" "[]"]
      stream.write_count[of "sr_output r" "[]"]
    by (auto simp: sr_core_def str_ok_def)
  moreover have "unat fu' = unat (sr_first_unassembled r)" using True piece i fu' by simp
  moreover have "bs_inv (snd (bs_write (sr_output r) []))" using core by (simp add: sr_core_def bs_write_inv)
  ultimately show ?thesis using core True by (simp add: r'_def sr_core_def sr_limit_def)
next
  case False
  let ?fu = "unat (sr_first_unassembled r)"
  have lt: "?fu < unat i + length d" using False piece i by auto
  then have "d \<noteq> []" using i by auto
  with ok have b: "unat i + length d \<le> sr_limit r" "unat i + length d \<le> length S" "d = substream S (unat i) (length d)"
    by (auto simp: chunk_ok_def)
  have len: "length piece = unat i + length d - ?fu" using piece i by simp
  have opn: "\<not> bs_closed (sr_output r)" using core lt b by (auto simp: sr_core_def bs_closed_def)
  have fits: "length piece \<le> bs_room (sr_output r)" using b len by (simp add: sr_limit_def)
  have S: "length S < 2 ^ 63" using core by (simp add: sr_core_def)
  have sok: "str_ok piece" using len b(2) S by (simp add: str_ok_def)
  have inv: "bs_inv (sr_output r)" using core by (simp add: sr_core_def)
  note w = stream.write_fits[OF inv opn fits sok]
  have "popped @ bs_buffer (snd (bs_write (sr_output r) piece)) = take ?fu S @ piece"
    using core by (simp add: w sr_core_def flip: append_assoc)
  also have "\<dots> = take (unat fu') S"
    using take_append_substream[of "unat i" ?fu "length d" S] i b(3) fu' piece by simp
  finally have app: "popped @ bs_buffer (snd (bs_write (sr_output r) piece)) = take (unat fu') S" .
  have "sr_limit r' = sr_limit r"
    using w(2) fits len i fu' by (simp add: r'_def sr_limit_def)
  moreover have "sr_core S popped r'"
    using core app b lt fu' by (auto simp: sr_core_def r'_def bs_write_inv)
  ultimately show ?thesis by simp
qed

lemma sr_push_onestr_spec:
  assumes core: "sr_core S popped r" and ok: "chunk_ok S (sr_limit r) (i, d)"
  defines "r' \<equiv> snd (sr_push_onestr r d i)"
  shows "fst (sr_push_onestr r d i) \<longleftrightarrow> i \<le> sr_first_unassembled r"
    and "\<not> i \<le> sr_first_unassembled r \<Longrightarrow> r' = r"
    and "i \<le> sr_first_unassembled r \<Longrightarrow> sr_core S popped r' \<and> sr_ended S r' \<and> sr_limit r' = sr_limit r \<and>
       unat (sr_first_unassembled r') = max (unat (sr_first_unassembled r)) (unat i + length d) \<and>
       sr_has_eof r' = sr_has_eof r \<and> sr_final_idx r' = sr_final_idx r"
proof -
  let ?fu = "sr_first_unassembled r"
  have bound: "unat i + length d < 2 ^ 64"
    using ok core unat_u64_bound[of i] by (auto simp: chunk_ok_def sr_core_def)
  then have len: "unat (str_size d) = length d" by (simp add: unat_str_size)
  have sum: "unat (i + str_size d) = unat i + length d" using bound len by (simp add: unat_add_no_wrap)
  show "fst (sr_push_onestr r d i) \<longleftrightarrow> i \<le> ?fu"
    using word_unat_eq_iff [of i ?fu]
    by (auto simp: sr_push_onestr_def Let_def word_le_nat_alt word_less_nat_alt sum)
  show "\<not> i \<le> ?fu \<Longrightarrow> r' = r"
    by (auto simp: r'_def sr_push_onestr_def Let_def word_le_nat_alt word_less_nat_alt sum)
  assume le: "i \<le> ?fu"
  then have le': "unat i \<le> unat ?fu" by (simp add: word_le_nat_alt)
  consider (eq) "i = ?fu" | (old) "i \<noteq> ?fu" "unat i + length d \<le> unat ?fu" | (part) "i \<noteq> ?fu" "unat ?fu < unat i + length d"
    by linarith
  then show "sr_core S popped r' \<and> sr_ended S r' \<and> sr_limit r' = sr_limit r \<and>
       unat (sr_first_unassembled r') = max (unat ?fu) (unat i + length d) \<and>
       sr_has_eof r' = sr_has_eof r \<and> sr_final_idx r' = sr_final_idx r"
  proof cases
    case eq
    let ?r1 = "r\<lparr>sr_output := snd (bs_write (sr_output r) d), sr_first_unassembled := ?fu + str_size d\<rparr>"
    have r': "r' = sr_end_if_done ?r1" using eq by (simp add: r'_def sr_push_onestr_def Let_def)
    have "sr_core S popped ?r1 \<and> sr_limit ?r1 = sr_limit r"
      by (rule sr_core_write[OF core ok]) (use eq le' sum in auto)
    then show ?thesis using sr_core_end_if_done[of S popped ?r1] eq sum by (simp add: r' max_def)
  next
    case old
    then have "r' = sr_end_if_done r" by (simp add: r'_def sr_push_onestr_def Let_def word_le_nat_alt sum)
    then show ?thesis using sr_core_end_if_done[OF core] old by (simp add: max_def)
  next
    case part
    let ?piece = "substr d (?fu - i) (i + str_size d - ?fu)"
    let ?r1 = "r\<lparr>sr_output := snd (bs_write (sr_output r) ?piece), sr_first_unassembled := ?fu + i + str_size d - ?fu\<rparr>"
    have lt: "i < ?fu" using le part by simp
    have r': "r' = sr_end_if_done ?r1" 
      using part lt by (simp add: r'_def sr_push_onestr_def Let_def word_le_nat_alt word_less_nat_alt sum)
    have "unat (?fu - i) = unat ?fu - unat i" "unat (i + str_size d - ?fu) = unat i + length d - unat ?fu"
      using le' part(2) sum by (simp_all add: unat_diff_no_wrap)
    then have piece: "?piece = drop (unat ?fu - unat i) d" using le' part(2) by (simp add: substr_def)
    have "?fu + i + str_size d - ?fu = i + str_size d" by (simp add: algebra_simps)
    then have fu': "unat (?fu + i + str_size d - ?fu) = unat i + length d" using sum by simp
    have "sr_core S popped ?r1 \<and> sr_limit ?r1 = sr_limit r"
      by (rule sr_core_write[OF core ok le' _ piece fu']) (use part in simp)
    then show ?thesis using sr_core_end_if_done[of S popped ?r1] part fu' by (simp add: r' max_def)
  qed
qed

lemma sr_mapbuffer_update:
  "sr_core S popped (r\<lparr>sr_mapbuffer := m\<rparr>) = sr_core S popped r"
  "sr_ended S (r\<lparr>sr_mapbuffer := m\<rparr>) = sr_ended S r"
  "sr_limit (r\<lparr>sr_mapbuffer := m\<rparr>) = sr_limit r"
  by (simp_all add: sr_core_def sr_ended_def sr_limit_def)

lemma sr_scan_Cons:
  assumes "sr_core S popped r" and "chunk_ok S (sr_limit r) p"
  shows "sr_scan r (p # ps) =
    (if fst p \<le> sr_first_unassembled r then Some (p, snd (sr_push_onestr r (snd p) (fst p)))
     else sr_scan r ps)"
proof -
  obtain b r1 where res: "sr_push_onestr r (snd p) (fst p) = (b, r1)"
    by (cases "sr_push_onestr r (snd p) (fst p)")
  have "chunk_ok S (sr_limit r) (fst p, snd p)" using assms(2) by simp
  note spec = sr_push_onestr_spec(1,2) [OF assms(1) this, unfolded res]
  then show ?thesis by (cases b) (simp_all add: res)
qed

lemma sr_scan_first:
  assumes "sr_core S popped r" and "\<forall>p \<in> set ps. chunk_ok S (sr_limit r) p"
  shows "sr_scan r ps =
    map_option (\<lambda>p. (p, snd (sr_push_onestr r (snd p) (fst p))))
      (find (\<lambda>p. fst p \<le> sr_first_unassembled r) ps)"
  using assms(2) by (induction ps) (simp_all add: sr_scan_Cons [OF assms(1)] del: sr_scan.simps(2))

lemma sr_readout_spec:
  assumes "sr_core S popped r" and "sr_ended S r" and "sorted (sr_mapbuffer r)"
    and "distinct (sr_mapbuffer r)" and "\<forall>p \<in> set (sr_mapbuffer r). chunk_ok S (sr_limit r) p"
  shows "sr_inv S popped (sr_readout r) \<and> sr_covered (sr_readout r) = sr_covered r \<and>
    sr_limit (sr_readout r) = sr_limit r \<and> sr_has_eof (sr_readout r) = sr_has_eof r \<and>
    unat (sr_first_unassembled r) \<le> unat (sr_first_unassembled (sr_readout r))"
  using assms
proof (induction r rule: sr_readout.induct)
  case (1 r)
  note scan = sr_scan_first [OF 1(2,6)]
  show ?case
  proof (cases "sr_scan r (sr_mapbuffer r)")
    case None
    then have "sr_readout r = r" by (simp add: sr_readout.simps [of r])
    moreover have "\<forall>p \<in> set (sr_mapbuffer r). sr_first_unassembled r < fst p"
      using None by (auto simp: scan find_None_iff not_le)
    ultimately show ?thesis using 1 by (simp add: sr_inv_def)
  next
    case (Some pr)
    then obtain p r' where pr: "sr_scan r (sr_mapbuffer r) = Some (p, r')" by (cases pr) auto
    then have "map_option (\<lambda>p. (p, snd (sr_push_onestr r (snd p) (fst p))))
      (find (\<lambda>p. fst p \<le> sr_first_unassembled r) (sr_mapbuffer r)) = Some (p, r')"
      by (simp only: scan)
    then have find: "find (\<lambda>p. fst p \<le> sr_first_unassembled r) (sr_mapbuffer r) = Some p"
      and r': "r' = snd (sr_push_onestr r (snd p) (fst p))" by (auto simp: map_option_eq_Some)
    then have p: "p \<in> set (sr_mapbuffer r)" "fst p \<le> sr_first_unassembled r"
      by (auto simp: find_Some_iff)
    have ok: "chunk_ok S (sr_limit r) (fst p, snd p)" using p(1) 1(6) by simp
    note post = sr_push_onestr_spec(3) [OF 1(2) ok p(2), folded r']
    have mb: "sr_mapbuffer r' = sr_mapbuffer r" by (simp add: r')
    let ?r = "r'\<lparr>sr_mapbuffer := remove1 p (sr_mapbuffer r')\<rparr>"
    have core: "sr_core S popped ?r" "sr_ended S ?r" "sr_limit ?r = sr_limit r"
      using post by (simp_all only: sr_mapbuffer_update)
    have set: "set (sr_mapbuffer ?r) = set (sr_mapbuffer r) - {p}"
      using 1(5) by (simp add: mb)
    have "sr_inv S popped (sr_readout ?r) \<and> sr_covered (sr_readout ?r) = sr_covered ?r \<and>
      sr_limit (sr_readout ?r) = sr_limit ?r \<and> sr_has_eof (sr_readout ?r) = sr_has_eof ?r \<and>
      unat (sr_first_unassembled ?r) \<le> unat (sr_first_unassembled (sr_readout ?r))"
      by (rule 1(1) [OF pr refl]) (use core set 1(4-6) mb in \<open>auto simp: sorted_remove1\<close>)
    moreover have "sr_covered ?r = sr_covered r"
    proof -
      have "sr_covered r = {..<unat (sr_first_unassembled r)} \<union> {unat (fst p)..<unat (fst p) + length (snd p)}
          \<union> (\<Union>p \<in> set (sr_mapbuffer r) - {p}. {unat (fst p)..<unat (fst p) + length (snd p)})"
        using p(1) by (auto simp: sr_covered_def)
      also have "{..<unat (sr_first_unassembled r)} \<union> {unat (fst p)..<unat (fst p) + length (snd p)}
          = {..<unat (sr_first_unassembled r')}"
        using post p(2) by (auto simp: word_le_nat_alt)
      finally show ?thesis using set by (simp add: sr_covered_def)
    qed
    moreover have "sr_readout r = sr_readout ?r" using pr by (simp add: sr_readout.simps [of r])
    ultimately show ?thesis using post core(3) by simp
  qed
qed

lemma unat_sr_first_unacceptable:
  assumes "sr_core S popped r"
  shows "unat (sr_first_unacceptable r) = sr_limit r"
proof -
  have "bs_room (sr_output r) < 2 ^ 63" using assms by (auto simp: sr_core_def bs_room_def)
  moreover have "unat (sr_first_unassembled r) < 2 ^ 63" using assms by (auto simp: sr_core_def)
  ultimately show ?thesis
    using assms by (simp add: sr_first_unacceptable_def sr_limit_def sr_core_def unat_add_no_wrap unat_bs_remaining_capacity)
qed

lemma sr_truncation_data_spec:
  assumes core: "sr_core S popped r" and ok: "push_ok S r data index eof"
  shows "sr_truncation_data r data index = take (sr_limit r - unat index) data"
proof (cases "data = []")
  case True
  then show ?thesis by (simp add: sr_truncation_data_def substr_def Let_def)
next
  case False
  with ok have b: "unat index + length data \<le> length S" "index \<le> sr_first_unacceptable r"
    by (auto simp: push_ok_def)
  have S: "length S < 2 ^ 63" using core by (simp add: sr_core_def)
  have sum: "unat (index + str_size data) = unat index + length data"
    using b(1) S by (subst unat_add_no_wrap) (simp_all add: unat_str_size)
  have le: "unat index \<le> sr_limit r" using b(2) unat_sr_first_unacceptable [OF core] by (simp add: word_le_nat_alt)
  have "\<not> (sr_has_eof r \<and> index + str_size data > sr_final_idx r + 1)"
    using core b(1) S sum by (auto simp: sr_core_def word_less_nat_alt unat_of_nat)
  then have "sr_truncation_data r data index =
     (if sr_limit r < unat index + length data then substr data 0 (sr_first_unacceptable r - index) else data)"
    using sum unat_sr_first_unacceptable [OF core] by (auto simp: sr_truncation_data_def Let_def word_less_nat_alt)
  also have "unat (sr_first_unacceptable r - index) = sr_limit r - unat index"
    using le unat_sr_first_unacceptable [OF core] by (simp add: unat_diff_no_wrap)
  ultimately show ?thesis by (simp add: substr_def)
qed


lemma sr_core_set_eof:
  assumes "sr_core S popped r" and "unat index + length data = length S"
  shows "sr_core S popped (r\<lparr>sr_has_eof := True, sr_final_idx := index + str_size data - 1\<rparr>)"
proof -
  have "index + str_size data = of_nat (length S)"
    using assms(2) by (simp add: str_size_def flip: assms(2))
  then show ?thesis using assms(1) by (auto simp: sr_core_def)
qed

lemma push_ok_chunk:
  assumes "push_ok S r data index eof"
  shows "chunk_ok S (sr_limit r) (index, take (sr_limit r - unat index) data)"
proof (cases "take (sr_limit r - unat index) data = []")
  case True
  then show ?thesis by (simp add: chunk_ok_def)
next
  case False
  let ?n = "sr_limit r - unat index"
  from False have ne: "data \<noteq> []" "0 < ?n" by auto
  with assms have b: "unat index + length data \<le> length S"
    and d: "data = substream S (unat index) (length data)" by (auto simp: push_ok_def)
  have "take ?n data = substream S (unat index) (min ?n (length data))"
    by (subst d) (simp add: substream_def min.commute)
  moreover have "length (take ?n data) = min ?n (length data)" by simp
  ultimately have "take ?n data = substream S (unat index) (length (take ?n data))" by metis
  moreover have "unat index + length (take ?n data) \<le> min (sr_limit r) (length S)"
    using b ne by (auto simp: min_def)
  ultimately show ?thesis unfolding chunk_ok_def fst_conv snd_conv by blast
qed

lemma sr_push_substring_spec:
  assumes inv: "sr_inv S popped r" and ok: "push_ok S r data index eof"
  shows "sr_inv S popped (sr_push_substring r data index eof)"
    and "sr_covered (sr_push_substring r data index eof) =
      sr_covered r \<union> {unat index..<min (unat index + length data) (sr_limit r)}"
    and "sr_limit (sr_push_substring r data index eof) = sr_limit r"
    and "sr_has_eof (sr_push_substring r data index eof) = (sr_has_eof r \<or> eof)"
proof -
  define r1 where "r1 = (if eof then r\<lparr>sr_has_eof := True, sr_final_idx := index + str_size data - 1\<rparr> else r)"
  define nd where "nd = take (sr_limit r - unat index) data"
  define r2 where "r2 = snd (sr_push_onestr r1 nd index)"
  define r3 where "r3 = (if index > sr_first_unassembled r2
               then r2\<lparr>sr_mapbuffer := insort_insert (index, nd) (sr_mapbuffer r2)\<rparr> else r2)"
  have core: "sr_core S popped r" using inv by (simp add: sr_inv_def)
  have r1: "sr_core S popped r1" "sr_limit r1 = sr_limit r" "sr_mapbuffer r1 = sr_mapbuffer r"
    "sr_first_unassembled r1 = sr_first_unassembled r" "sr_output r1 = sr_output r"
    "sr_has_eof r1 = (sr_has_eof r \<or> eof)"
    using core sr_core_set_eof [of S popped r index data] ok
    by (auto simp: r1_def push_ok_def sr_limit_def)
  have ok1: "push_ok S r1 data index eof"
    using ok r1 by (simp add: push_ok_def sr_first_unacceptable_def)
  have nd: "sr_truncation_data r1 data index = nd"
    using sr_truncation_data_spec [OF r1(1) ok1] r1(2) by (simp add: nd_def)
  have push: "sr_push_substring r data index eof = sr_readout r3"
    by (simp only: sr_push_substring_def Let_def r1_def [symmetric] nd r2_def [symmetric] r3_def [symmetric])
  have chunk: "chunk_ok S (sr_limit r1) (index, nd)"
    using push_ok_chunk [OF ok] r1(2) by (simp add: nd_def)
  note one = sr_push_onestr_spec [OF r1(1) chunk, folded r2_def]
  have mb: "sr_mapbuffer r2 = sr_mapbuffer r" using r1(3) by (simp add: r2_def)
  have r3: "sr_core S popped r3 \<and> sr_ended S r3 \<and> sr_limit r3 = sr_limit r \<and>
    sr_has_eof r3 = (sr_has_eof r \<or> eof) \<and> sorted (sr_mapbuffer r3) \<and> distinct (sr_mapbuffer r3) \<and>
    (\<forall>p \<in> set (sr_mapbuffer r3). chunk_ok S (sr_limit r) p) \<and>
    sr_covered r3 = sr_covered r \<union> {unat index..<unat index + length nd}"
  proof (cases "index \<le> sr_first_unassembled r")
    case True
    then have p: "sr_core S popped r2 \<and> sr_ended S r2 \<and> sr_limit r2 = sr_limit r \<and>
       unat (sr_first_unassembled r2) = max (unat (sr_first_unassembled r)) (unat index + length nd) \<and>
       sr_has_eof r2 = (sr_has_eof r \<or> eof)"
      using one(3) r1 by simp
    then have "\<not> index > sr_first_unassembled r2" using True by (simp add: word_le_nat_alt word_less_nat_alt)
    then have r3: "r3 = r2" by (simp add: r3_def)
    have "{..<unat (sr_first_unassembled r2)} =
      {..<unat (sr_first_unassembled r)} \<union> {unat index..<unat index + length nd}"
      using p True by (auto simp: word_le_nat_alt)
    then have "sr_covered r2 = sr_covered r \<union> {unat index..<unat index + length nd}"
      by (auto simp: sr_covered_def mb)
    then show ?thesis using p inv by (simp add: r3 mb sr_inv_def)
  next
    case False
    then have r2: "r2 = r1" using one(2) r1(4) by simp
    have ended: "sr_ended S r1"
    proof (cases eof)
      case True
      then have "unat index \<le> length S" using ok by (simp add: push_ok_def)
      with False show ?thesis by (simp add: sr_ended_def r1(4) word_le_nat_alt)
    next
      case False
      then show ?thesis using inv by (simp add: r1_def sr_inv_def)
    qed
    have r3: "r3 = r1\<lparr>sr_mapbuffer := insort_insert (index, nd) (sr_mapbuffer r)\<rparr>"
      using False r1(3,4) r2 by (simp add: r3_def not_le)
    have set: "set (sr_mapbuffer r3) = insert (index, nd) (set (sr_mapbuffer r))"
      by (simp add: r3 set_insort_insert)
    have "sr_covered r3 = sr_covered r \<union> {unat index..<unat index + length nd}"
      unfolding sr_covered_def set using r1(4) by (auto simp: r3)
    then show ?thesis
      using inv r1 ended chunk
      by (simp add: r3 sr_mapbuffer_update sorted_insort_insert distinct_insort_insert set_insort_insert sr_inv_def)
  qed
  have win: "{unat index..<unat index + length nd} = {unat index..<min (unat index + length data) (sr_limit r)}"
    by (auto simp: nd_def)
  note spec = sr_readout_spec [of S popped r3]
  show "sr_inv S popped (sr_push_substring r data index eof)"
    "sr_covered (sr_push_substring r data index eof) =
      sr_covered r \<union> {unat index..<min (unat index + length data) (sr_limit r)}"
    "sr_limit (sr_push_substring r data index eof) = sr_limit r"
    "sr_has_eof (sr_push_substring r data index eof) = (sr_has_eof r \<or> eof)"
    unfolding push win [symmetric] using spec r3 by simp_all
qed

lemma sr_inv_init:
  "unat c < 2 ^ 63 \<Longrightarrow> length S < 2 ^ 63 \<Longrightarrow> sr_inv S [] (StreamReassembler c)"
  by (simp add: sr_inv_def sr_core_def sr_ended_def StreamReassembler_def ByteStream_def bs_inv_def)

lemma chunk_ok_mono: "chunk_ok S l p \<Longrightarrow> l \<le> l' \<Longrightarrow> chunk_ok S l' p"
  by (auto simp: chunk_ok_def)

lemma sr_stream_read_spec:
  assumes "sr_inv S popped r"
  shows "sr_inv S (popped @ fst (sr_stream_read r n)) (snd (sr_stream_read r n)) \<and>
    sr_covered (snd (sr_stream_read r n)) = sr_covered r \<and>
    sr_limit (snd (sr_stream_read r n)) = sr_limit r + length (fst (sr_stream_read r n))"
proof -
  let ?o = "fst (bs_read (sr_output r) n)" and ?s = "snd (bs_read (sr_output r) n)"
  have rd: "sr_stream_read r n = (?o, r\<lparr>sr_output := ?s\<rparr>)"
    by (simp add: sr_stream_read_def split: prod.splits)
  have inv: "bs_inv (sr_output r)" using assms by (simp add: sr_inv_def sr_core_def)
  have app: "?o @ bs_buffer ?s = bs_buffer (sr_output r)" by (rule stream.read_contents [OF inv])
  have lim: "sr_limit (r\<lparr>sr_output := ?s\<rparr>) = sr_limit r + length ?o"
    using stream.read_room [OF inv] by (simp add: sr_limit_def)
  have "sr_core S (popped @ ?o) (r\<lparr>sr_output := ?s\<rparr>)"
    using assms app inv by (auto simp: sr_inv_def sr_core_def stream.read_invar)
  moreover have "sr_ended S (r\<lparr>sr_output := ?s\<rparr>)"
    using assms by (simp add: sr_inv_def sr_ended_def)
  ultimately show ?thesis
    using assms lim chunk_ok_mono [of S "sr_limit r" _ "sr_limit r + length ?o"]
    by (auto simp: rd sr_inv_def sr_covered_def)
qed

lemma sr_step_spec:
  assumes "sr_inv S popped r" and "sr_op_ok S r x"
  shows "sr_inv S (popped @ fst (sr_step r x)) (snd (sr_step r x))"
  using assms by (cases x) (simp_all add: sr_push_substring_spec(1) sr_stream_read_spec)

lemma sr_run_spec:
  "sr_inv S popped r \<Longrightarrow> sr_run_ok S r xs \<Longrightarrow> sr_inv S (popped @ fst (sr_run r xs)) (snd (sr_run r xs))"
proof (induction xs arbitrary: popped r)
  case Nil
  then show ?case by simp
next
  case (Cons x xs)
  let ?r1 = "snd (sr_step r x)"
  have "sr_inv S (popped @ fst (sr_step r x)) ?r1" using Cons.prems by (intro sr_step_spec) simp_all
  from Cons.IH [OF this] Cons.prems have
    "sr_inv S ((popped @ fst (sr_step r x)) @ fst (sr_run ?r1 xs)) (snd (sr_run ?r1 xs))" by simp
  moreover have "sr_run r (x # xs) = (fst (sr_step r x) @ fst (sr_run ?r1 xs), snd (sr_run ?r1 xs))"
    by (simp add: case_prod_beta Let_def)
  ultimately show ?case by simp
qed

lemma sr_inv_first_hole:
  assumes "sr_inv S popped r"
  shows "unat (sr_first_unassembled r) = (LEAST k. k \<notin> sr_covered r)"
proof (rule sym, rule Least_equality)
  show "unat (sr_first_unassembled r) \<notin> sr_covered r"
    using assms by (auto simp: sr_inv_def sr_covered_def word_less_nat_alt)
next
  fix k assume "k \<notin> sr_covered r"
  then show "unat (sr_first_unassembled r) \<le> k" by (auto simp: sr_covered_def)
qed

subsection \<open>What the reassembler promises\<close>

lemma sr_init_window:
  "sr_covered (StreamReassembler c) = {}" "sr_limit (StreamReassembler c) = unat c"
  "\<not> sr_has_eof (StreamReassembler c)"
  by (simp_all add: sr_covered_def sr_limit_def StreamReassembler_def ByteStream_def bs_room_def)

lemma sr_unassembled_set:
  fixes cs :: "chunk list"
  shows "set (concat (map (\<lambda>(i, d). map (\<lambda>k. ucast (i + of_nat k) :: u32) [0..<length d]) cs))
   = of_nat ` (\<Union>p \<in> set cs. {unat (fst p)..<unat (fst p) + length (snd p)})"
proof -
  have one: "(\<lambda>k. ucast (i + of_nat k :: u64) :: u32) ` {0..<n} = of_nat ` {unat i..<unat i + n}" for i n
  proof -
    have "ucast (i + of_nat k :: u64) = (of_nat (unat i + k) :: u32)" for k
      by (simp add: word_unat_eq_iff unat_ucast_mod unat_of_nat unat_word_ariths mod_mod_cancel mod_simps)
    then have "(\<lambda>k. ucast (i + of_nat k :: u64) :: u32) ` {0..<n} = of_nat ` ((+) (unat i) ` {0..<n})"
      by (simp only: image_image)
    then show ?thesis by (simp add: add.commute)
  qed
  show ?thesis
    by (simp add: image_UN case_prod_beta) (rule SUP_cong [OF refl], rule one)
qed

lemma of_nat_u32_inj:
  assumes "b \<le> a + 2 ^ 32"
  shows "inj_on (of_nat :: nat \<Rightarrow> u32) {a..<b}"
proof (rule inj_onI)
  fix x y assume xy: "x \<in> {a..<b}" "y \<in> {a..<b}" and "(of_nat x :: u32) = of_nat y"
  then have m: "x mod 2 ^ 32 = y mod 2 ^ 32" by (simp add: word_unat_eq_iff unat_of_nat)
  show "x = y"
  proof (cases "x \<le> y")
    case True
    then have "2 ^ 32 dvd y - x" using m by (metis mod_eq_dvd_iff_nat)
    moreover have "y - x < 2 ^ 32" using xy assms by auto
    ultimately show ?thesis using True by (metis dvd_imp_le le_antisym linorder_not_le zero_less_diff)
  next
    case False
    then have "2 ^ 32 dvd x - y" using m by (metis mod_eq_dvd_iff_nat nat_le_linear)
    moreover have "x - y < 2 ^ 32" using xy assms by auto
    ultimately show ?thesis using False by (metis dvd_imp_le linorder_not_le nat_le_linear zero_less_diff)
  qed
qed

lemma sr_waiting_window:
  assumes "sr_inv S popped r"
  shows "(\<Union>p \<in> set (sr_mapbuffer r). {unat (fst p)..<unat (fst p) + length (snd p)})
    = sr_covered r - {..<unat (sr_first_unassembled r)}"
    and "sr_covered r - {..<unat (sr_first_unassembled r)}
      \<subseteq> {unat (sr_first_unassembled r)..<sr_limit r}"
  using assms by (fastforce simp: sr_inv_def sr_covered_def chunk_ok_def word_less_nat_alt)+

text \<open>
\<open>unassembled_bytes\<close> counts every received byte past the first gap exactly once,
however often it was pushed. The code collects the indices in a \<open>set<int>\<close>, i.e. truncated to 32
bits, which is exact because the capacity is at most \<open>2 ^ 32\<close>.
\<close>

theorem sr_unassembled_bytes_count:
  assumes "sr_inv S popped r" and "unat (bs_capacity (sr_output r)) \<le> 2 ^ 32"
  shows "sr_unassembled_bytes r = of_nat (card (sr_covered r - {..<unat (sr_first_unassembled r)}))"
proof -
  let ?W = "sr_covered r - {..<unat (sr_first_unassembled r)}"
  have "sr_limit r \<le> unat (sr_first_unassembled r) + 2 ^ 32"
    using assms(2) by (simp add: sr_limit_def bs_room_def)
  then have "inj_on (of_nat :: nat \<Rightarrow> u32) ?W"
    using of_nat_u32_inj sr_waiting_window(2) [OF assms(1)] inj_on_subset by blast
  then have "card ((of_nat :: nat \<Rightarrow> u32) ` ?W) = card ?W" by (rule card_image)
  then show ?thesis
    by (simp only: sr_unassembled_bytes_def sr_unassembled_set sr_waiting_window(1) [OF assms(1)])
qed

theorem sr_unassembled_bytes_count_witness:
  "sr_unassembled_bytes (sr_push_substring (StreamReassembler 8) [12, 13] 1 False) =
   of_nat (card (sr_covered (sr_push_substring (StreamReassembler 8) [12, 13] 1 False) -
     {..<unat (sr_first_unassembled (sr_push_substring (StreamReassembler 8) [12, 13] 1 False))}))"
proof -
  have "push_ok [11, 12, 13] (StreamReassembler 8) [12, 13] 1 False" by code_simp
  then have "sr_inv [11, 12, 13] [] (sr_push_substring (StreamReassembler 8) [12, 13] 1 False)"
    by (intro sr_push_substring_spec(1) sr_inv_init) simp_all
  moreover have "bs_capacity (sr_output (sr_push_substring (StreamReassembler 8) [12, 13] 1 False)) = 8"
    by code_simp
  ultimately show ?thesis by (intro sr_unassembled_bytes_count) simp_all
qed

text \<open>
C2. Safety of the reassembler: however the substrings of a stream \<open>S\<close> are ordered, repeated and
overlapped, and however the pushes are interleaved with reads, the bytes handed to the reader
followed by the ones still buffered are exactly the first \<open>_first_unassembled\<close> bytes of \<open>S\<close>, and the
output is ended exactly when all of \<open>S\<close> has been assembled and its end is known. Each push is a
section of \<open>S\<close> that starts no later than the first unacceptable index (\<open>push_ok\<close>).
\<close>

theorem sr_delivers_in_order:
  assumes "unat c < 2 ^ 63" and "length S < 2 ^ 63"
    and "sr_run_ok S (StreamReassembler c) xs" and "sr_run (StreamReassembler c) xs = (out, r)"
  shows "out @ bs_buffer (sr_output r) = take (unat (sr_first_unassembled r)) S \<and>
    (bs_input_ended (sr_output r) \<longleftrightarrow>
       sr_has_eof r \<and> unat (sr_first_unassembled r) = length S)"
proof -
  have "sr_inv S out r"
    using sr_run_spec [OF sr_inv_init [OF assms(1,2)] assms(3)] assms(4) by simp
  then show ?thesis
    unfolding sr_inv_def sr_core_def sr_ended_def bs_input_ended_def by blast
qed

theorem sr_delivers_in_order_witness:
  "fst (sr_run (StreamReassembler 4)
     [Sr_Push [13, 14] 2 True, Sr_Push [11, 12, 13] 0 False, Sr_Read 3]) @ [14]
   = take 4 [11, 12, 13, 14]"
proof -
  let ?xs = "[Sr_Push [13, 14] 2 True, Sr_Push [11, 12, 13] 0 False, Sr_Read 3]"
  let ?r = "sr_run (StreamReassembler 4) ?xs"
  have h: "unat (4 :: u64) < 2 ^ 63" "length [11, 12, 13, 14 :: u8] < 2 ^ 63"
    by simp_all
  have ok: "sr_run_ok [11, 12, 13, 14] (StreamReassembler 4) ?xs" by code_simp
  have st: "bs_buffer (sr_output (snd ?r)) = [14]" "unat (sr_first_unassembled (snd ?r)) = 4"
    by code_simp+
  have "?r = (fst ?r, snd ?r)" by simp
  from sr_delivers_in_order [OF h ok this] show ?thesis by (simp only: st)
qed

text \<open>
C5. \<open>push_substring\<close> refines a set of byte positions: the received positions grow by the pushed
ones that lie inside the window, the window stays where it is, and \<open>_first_unassembled\<close> is the first
position not yet received.
\<close>

theorem sr_push_substring_refines:
  assumes "sr_inv S popped r" and "push_ok S r data index eof"
  defines "r' \<equiv> sr_push_substring r data index eof"
  shows "sr_inv S popped r' \<and>
    sr_covered r' = sr_covered r \<union> {unat index..<min (unat index + length data) (sr_limit r)} \<and>
    sr_limit r' = sr_limit r \<and>
    unat (sr_first_unassembled r') = (LEAST k. k \<notin> sr_covered r')"
  using sr_push_substring_spec [OF assms(1,2)] sr_inv_first_hole by (simp add: r'_def)

theorem sr_push_substring_refines_witness:
  "sr_covered (sr_push_substring (StreamReassembler 4) [12, 13] 1 False) = {1..<3}"
proof -
  have "push_ok [11, 12, 13] (StreamReassembler 4) [12, 13] 1 False" by code_simp
  note refines = sr_push_substring_refines [OF sr_inv_init this]
  have "sr_covered (sr_push_substring (StreamReassembler 4) [12, 13] 1 False) =
    sr_covered (StreamReassembler 4) \<union> {unat (1 :: u64)..<min (unat (1 :: u64) + length [12, 13 :: u8])
      (sr_limit (StreamReassembler 4))}"
    using refines by simp
  then show ?thesis by (simp add: sr_init_window numeral_3_eq_3)
qed



lemma sr_scan_all_False:
  "\<forall>p \<in> set ps. sr_push_onestr r (snd p) (fst p) = (False, r) \<Longrightarrow> sr_scan r ps = None"
  by (induction ps) auto

text \<open>
C36. A substring that starts beyond the first unacceptable index is not discarded: the subtraction
\<open>_first_unacceptable - index\<close> wraps, \<open>substr\<close> keeps every byte, and the substring is stored, although
the class comment promises that bytes beyond the capacity are silently discarded.
\<close>

theorem sr_keeps_out_of_window_data:
  assumes "sr_inv S popped r" and "\<not> sr_has_eof r" and "sr_limit r < unat index"
    and "data \<noteq> []" and "unat index + length data < 2 ^ 63"
  shows "sr_truncation_data r data index = data \<and>
    (index, data) \<in> set (sr_mapbuffer (sr_push_substring r data index False))"
proof -
  have core: "sr_core S popped r" using assms(1) by (simp add: sr_inv_def)
  note fa = unat_sr_first_unacceptable [OF core]
  have sum: "unat (index + str_size data) = unat index + length data"
    using assms(5) by (subst unat_add_no_wrap) (simp_all add: unat_str_size)
  have gap: "sr_first_unacceptable r - index = - (index - sr_first_unacceptable r)" by simp
  have "unat (sr_first_unacceptable r - index) = 2 ^ 64 - (unat index - sr_limit r)"
    using assms(3,5) fa by (simp add: unat_sub_if_size word_size)
  then have "length data \<le> unat (sr_first_unacceptable r - index)" using assms(5) by simp
  then have trunc: "sr_truncation_data r data index = data"
    using assms(2) by (simp add: sr_truncation_data_def substr_def Let_def)
  have fu: "sr_first_unassembled r < index"
    using assms(3) by (simp add: sr_limit_def word_less_nat_alt)
  let ?r = "r\<lparr>sr_mapbuffer := insort_insert (index, data) (sr_mapbuffer r)\<rparr>"
  have new: "sr_push_onestr ?r data index = (False, ?r)" "sr_push_onestr r data index = (False, r)"
    using fu sum by (auto simp: sr_push_onestr_def Let_def word_le_nat_alt word_less_nat_alt)
  have old: "sr_push_onestr ?r (snd p) (fst p) = (False, ?r)" if "p \<in> set (sr_mapbuffer r)" for p
  proof -
    have c: "sr_core S popped ?r" using core by (simp only: sr_mapbuffer_update)
    have k: "chunk_ok S (sr_limit ?r) (fst p, snd p)"
      using assms(1) that by (simp add: sr_inv_def sr_mapbuffer_update)
    have "\<not> fst p \<le> sr_first_unassembled ?r"
      using assms(1) that by (simp add: sr_inv_def not_le)
    then show ?thesis
      using sr_push_onestr_spec(1,2) [OF c k] by (simp add: prod_eq_iff)
  qed
  have "sr_scan ?r (sr_mapbuffer ?r) = None"
  proof (rule sr_scan_all_False, rule ballI)
    fix p assume "p \<in> set (sr_mapbuffer ?r)"
    then consider "p = (index, data)" | "p \<in> set (sr_mapbuffer r)"
      by (auto simp: set_insort_insert)
    then show "sr_push_onestr ?r (snd p) (fst p) = (False, ?r)"
      using new(1) old by cases simp_all
  qed
  then have "sr_readout ?r = ?r" by (simp add: sr_readout.simps [of ?r])
  then have "sr_push_substring r data index False = ?r"
    using fu by (simp add: sr_push_substring_def Let_def trunc new(2))
  then show ?thesis using trunc by (simp add: set_insort_insert)
qed

theorem sr_keeps_out_of_window_data_witness:
  "(9, [12, 13]) \<in> set (sr_mapbuffer (sr_push_substring (StreamReassembler 2) [12, 13] 9 False))"
proof -
  have "sr_inv [] [] (StreamReassembler 2)" by (rule sr_inv_init) simp_all
  from sr_keeps_out_of_window_data [OF this, of 9 "[12, 13]"] show ?thesis
    by (simp add: sr_init_window)
qed

text \<open>
What that leads to: with capacity 2, a substring stored from beyond the window is later
handed to a full output, which drops part of it. Six bytes count as assembled, four were written.
\<close>

theorem sr_loses_bytes:
  "(let (out, r) = sr_run (StreamReassembler 2)
      [Sr_Push [14, 15, 16] 3 False, Sr_Push [11, 12] 0 False, Sr_Read 2, Sr_Push [13] 2 False, Sr_Read 2]
    in (out @ bs_buffer (sr_output r), unat (sr_first_unassembled r), bs_bytes_written (sr_output r)))
   = ([11, 12, 13, 14], 6, 4)"
  by code_simp

end
