(* ===== verification/TCP_Receiver.thy ===== *)
theory TCP_Receiver
  imports Stream_Reassembler TCP_Segment
begin

text \<open>
  \<open>TCPReceiver\<close> (tcp_receiver.hh, tcp_receiver.cc): it learns the initial sequence number from the
  first SYN, hands payloads to the reassembler at their stream index, and computes the
  acknowledgment number and the window.

  The theorems are about a peer that sends a byte stream \<open>S\<close>: every arriving segment carries a section
  of \<open>S\<close> at its place (\<open>rx_seg_ok\<close>), in any order and any number of times.
\<close>

section \<open>The class\<close>

record tcp_receiver =
  rx_reassembler :: stream_reassembler
  rx_capacity :: u64
  rx_isn :: "wrapping_int32 option"
  rx_ackno :: "wrapping_int32 option"

definition TCPReceiver :: "u64 \<Rightarrow> tcp_receiver" where
  "TCPReceiver capacity = \<lparr>rx_reassembler = StreamReassembler capacity, rx_capacity = capacity,
     rx_isn = None, rx_ackno = None\<rparr>"

definition rx_stream_out :: "tcp_receiver \<Rightarrow> byte_stream" where
  "rx_stream_out r = sr_output (rx_reassembler r)"

definition rx_window_size :: "tcp_receiver \<Rightarrow> u64" where
  "rx_window_size r = rx_capacity r - bs_buffer_size (rx_stream_out r)"

definition rx_unassembled_bytes :: "tcp_receiver \<Rightarrow> u64" where
  "rx_unassembled_bytes r = sr_unassembled_bytes (rx_reassembler r)"

definition rx_abs_first_unassembled :: "tcp_receiver \<Rightarrow> u64" where
  "rx_abs_first_unassembled r =
    (case (rx_isn r, rx_ackno r) of
       (Some isn, Some ackno) \<Rightarrow> unwrap ackno isn (sr_first_unassembled (rx_reassembler r))
     | _ \<Rightarrow> 0)"

definition rx_abs_first_unacceptable :: "tcp_receiver \<Rightarrow> u64" where
  "rx_abs_first_unacceptable r = rx_abs_first_unassembled r + rx_window_size r"

definition rx_segment_received :: "tcp_receiver \<Rightarrow> tcp_segment \<Rightarrow> tcp_receiver" where
  "rx_segment_received r seg =
    (let h = seg_header seg in
     case rx_isn r of
       None \<Rightarrow>
         if \<not> th_syn h then r
         else let isn = th_seqno h;
                  payload = buf_copy (seg_payload seg);
                  ra = sr_push_substring (rx_reassembler r) payload 0 (th_fin h);
                  ackno = wrap (1 + sr_first_unassembled ra + (if th_fin h then 1 else 0)) isn
              in r\<lparr>rx_reassembler := ra, rx_isn := Some isn, rx_ackno := Some ackno\<rparr>
     | Some isn \<Rightarrow>
         let abs_seqno = unwrap (th_seqno h) isn (sr_first_unassembled (rx_reassembler r));
             seg_idx = abs_seqno - 1;
             ra = sr_push_substring (rx_reassembler r) (buf_copy (seg_payload seg)) seg_idx (th_fin h);
             ackno = wrap (sr_first_unassembled ra + 1 + (if sr_reach_end ra then 1 else 0)) isn
         in r\<lparr>rx_reassembler := ra, rx_ackno := Some ackno\<rparr>)"

text \<open>The application reads from \<open>stream_out()\<close>, a reference into the receiver.\<close>

definition rx_stream_read :: "tcp_receiver \<Rightarrow> u64 \<Rightarrow> bytes \<times> tcp_receiver" where
  "rx_stream_read r n =
    (let (out, ra) = sr_stream_read (rx_reassembler r) n in (out, r\<lparr>rx_reassembler := ra\<rparr>))"

section \<open>Segments of a byte stream\<close>

text \<open>
  \<open>seg_carries S isn n seg\<close>: the segment with the absolute sequence number \<open>n\<close> carries a section of \<open>S\<close>:
  number 0 is the SYN, number \<open>i + 1\<close> the byte \<open>i\<close>, and the FIN follows the last byte. A segment with
  neither payload nor FIN (a bare acknowledgment) carries nothing and is always in place.
\<close>

definition seg_index :: "nat \<Rightarrow> tcp_segment \<Rightarrow> nat" where
  "seg_index n seg = (if th_syn (seg_header seg) then 0 else n - 1)"

definition seg_carries :: "bytes \<Rightarrow> wrapping_int32 \<Rightarrow> nat \<Rightarrow> tcp_segment \<Rightarrow> bool" where
  "seg_carries S isn n seg \<longleftrightarrow>
     (let h = seg_header seg; d = buf_str (seg_payload seg); i = seg_index n seg in
      th_seqno h = wrap (of_nat n) isn \<and> (th_syn h \<longrightarrow> n = 0) \<and>
      (d = [] \<and> \<not> th_fin h \<or>
       (th_syn h \<or> n \<noteq> 0) \<and> i + length d \<le> length S \<and> d = substream S i (length d) \<and>
       (th_fin h \<longrightarrow> i + length d = length S)))"

text \<open>
  What the receiver needs of an arriving segment. A first SYN may carry data, but with a FIN only as
  much as fits. A repeated SYN carries nothing. Later segments are near the receiver's position (so
  that \<open>unwrap\<close> is exact) and, if they carry data, start inside the window.
\<close>

definition rx_seg_ok :: "bytes \<Rightarrow> wrapping_int32 \<Rightarrow> nat \<Rightarrow> tcp_receiver \<Rightarrow> tcp_segment \<Rightarrow> bool" where
  "rx_seg_ok S isn n r seg \<longleftrightarrow>
     seg_carries S isn n seg \<and>
     (let h = seg_header seg; d = buf_str (seg_payload seg); ra = rx_reassembler r in
      if rx_isn r = None
      then (th_syn h \<and> th_fin h \<longrightarrow> length d \<le> unat (rx_capacity r))
      else unwrap_exact (of_nat n) (sr_first_unassembled ra) \<and>
           (th_syn h \<longrightarrow> d = [] \<and> \<not> th_fin h) \<and>
           (d = [] \<or> of_nat (seg_index n seg) \<le> sr_first_unacceptable ra))"

section \<open>Invariant\<close>

text \<open>The absolute number the receiver expects next: SYN, the bytes assembled, and the FIN once it is reached.\<close>

definition rx_next :: "tcp_receiver \<Rightarrow> u64" where
  "rx_next r = sr_first_unassembled (rx_reassembler r) + 1 + (if sr_reach_end (rx_reassembler r) then 1 else 0)"

definition rx_inv :: "bytes \<Rightarrow> wrapping_int32 \<Rightarrow> bytes \<Rightarrow> tcp_receiver \<Rightarrow> bool" where
  "rx_inv S isn popped r \<longleftrightarrow>
     sr_inv S popped (rx_reassembler r) \<and> rx_capacity r = bs_capacity (rx_stream_out r) \<and>
     (case rx_isn r of
        None \<Rightarrow> rx_ackno r = None \<and> rx_reassembler r = StreamReassembler (rx_capacity r) \<and> popped = []
      | Some i \<Rightarrow> i = isn \<and> rx_ackno r = Some (wrap (rx_next r) isn))"

section \<open>Lemmas\<close>

lemma sr_push_onestr_capacity [simp]:
  "bs_capacity (sr_output (snd (sr_push_onestr r d i))) = bs_capacity (sr_output r)"
  by (simp add: sr_push_onestr_def sr_end_if_done_def Let_def bs_end_input_def)

lemma sr_scan_capacity:
  "sr_scan r ps = Some (p, r') \<Longrightarrow> bs_capacity (sr_output r') = bs_capacity (sr_output r)"
proof (induction ps arbitrary: r)
  case (Cons q ps)
  then show ?case
    using sr_push_onestr_capacity [of r "snd q" "fst q"]
    by (cases "sr_push_onestr r (snd q) (fst q)") (auto split: bool.splits)
qed simp

lemma sr_readout_capacity: "bs_capacity (sr_output (sr_readout r)) = bs_capacity (sr_output r)"
proof (induction r rule: sr_readout.induct)
  case (1 r)
  then show ?case
    by (subst sr_readout.simps) (auto split: option.splits dest: sr_scan_capacity)
qed

lemma sr_push_substring_capacity:
  "bs_capacity (sr_output (sr_push_substring r d i e)) = bs_capacity (sr_output r)"
  by (simp add: sr_push_substring_def Let_def sr_readout_capacity)

lemma sr_reach_end_iff:
  assumes "sr_inv S popped r"
  shows "sr_reach_end r \<longleftrightarrow> sr_has_eof r \<and> unat (sr_first_unassembled r) = length S"
proof -
  have "sr_core S popped r" using assms by (simp add: sr_inv_def)
  then have "length S < 2 ^ 63" "sr_has_eof r \<Longrightarrow> sr_final_idx r + 1 = of_nat (length S)"
    by (simp_all add: sr_core_def)
  then show ?thesis
    by (auto simp: sr_reach_end_def word_unat_eq_iff unat_of_nat)
qed

lemma sr_inv_fu_covered: "k < unat (sr_first_unassembled r) \<Longrightarrow> k \<in> sr_covered r"
  by (simp add: sr_covered_def)

lemma sr_covered_all:
  assumes "sr_inv S popped r" and "{..<length S} \<subseteq> sr_covered r"
  shows "unat (sr_first_unassembled r) = length S"
proof -
  have "unat (sr_first_unassembled r) \<notin> sr_covered r"
    using assms(1) by (auto simp: sr_inv_def sr_covered_def word_less_nat_alt)
  then have "length S \<le> unat (sr_first_unassembled r)" using assms(2) by (meson lessThan_iff not_le subsetD)
  moreover have "unat (sr_first_unassembled r) \<le> length S"
    using assms(1) by (simp add: sr_inv_def sr_core_def)
  ultimately show ?thesis by simp
qed

lemma rx_inv_init: "unat c < 2 ^ 63 \<Longrightarrow> length S < 2 ^ 63 \<Longrightarrow> rx_inv S isn [] (TCPReceiver c)"
  using sr_inv_init [of c S]
  by (simp add: rx_inv_def TCPReceiver_def rx_stream_out_def StreamReassembler_def ByteStream_def)

text \<open>A segment handed to the reassembler at its stream index is an admissible push.\<close>

lemma rx_push_ok:
  assumes "rx_inv S isn popped r" and "rx_seg_ok S isn n r seg" and "rx_isn r = Some i"
  shows "push_ok S (rx_reassembler r) (buf_str (seg_payload seg)) (of_nat n - 1) (th_fin (seg_header seg))"
proof -
  let ?d = "buf_str (seg_payload seg)"
  have S: "length S < 2 ^ 63" using assms(1) by (simp add: rx_inv_def sr_inv_def sr_core_def)
  have c: "seg_carries S isn n seg" and s: "th_syn (seg_header seg) \<Longrightarrow> ?d = [] \<and> \<not> th_fin (seg_header seg)"
    and w: "?d = [] \<or> of_nat (seg_index n seg) \<le> sr_first_unacceptable (rx_reassembler r)"
    using assms(2,3) by (simp_all add: rx_seg_ok_def Let_def)
  show ?thesis
  proof (cases "th_syn (seg_header seg)")
    case True
    then show ?thesis using s by (simp add: push_ok_def)
  next
    case False
    show ?thesis
    proof (cases "?d = [] \<and> \<not> th_fin (seg_header seg)")
      case True
      then show ?thesis by (simp add: push_ok_def)
    next
      case nonempty: False
      have i: "seg_index n seg = n - 1" "n \<noteq> 0" "n - 1 \<le> length S"
        using c nonempty False unfolding seg_carries_def Let_def seg_index_def by auto
      then have "(of_nat n - 1 :: u64) = of_nat (n - 1)" by (simp add: of_nat_diff)
      moreover have "unat (of_nat (n - 1) :: u64) = n - 1" using i S by (intro unat_of_nat_small) simp
      ultimately show ?thesis
        using c w i nonempty False unfolding push_ok_def seg_carries_def Let_def by auto
    qed
  qed
qed

lemma rx_segment_received_inv:
  assumes inv: "rx_inv S isn popped r" and ok: "rx_seg_ok S isn n r seg"
  shows "rx_inv S isn popped (rx_segment_received r seg)"
proof (cases "rx_isn r")
  case (Some i)
  let ?d = "buf_str (seg_payload seg)" and ?fin = "th_fin (seg_header seg)"
  let ?ra = "sr_push_substring (rx_reassembler r) ?d (of_nat n - 1) ?fin"
  have i: "i = isn" using inv Some by (simp add: rx_inv_def)
  have "th_seqno (seg_header seg) = wrap (of_nat n) isn" "unwrap_exact (of_nat n) (sr_first_unassembled (rx_reassembler r))"
    using ok Some by (simp_all add: rx_seg_ok_def seg_carries_def Let_def)
  then have abs: "unwrap (th_seqno (seg_header seg)) isn (sr_first_unassembled (rx_reassembler r)) = of_nat n"
    by (simp add: wrap_codec.dec_enc)
  have "sr_inv S popped ?ra"
    using inv rx_push_ok [OF inv ok Some] by (intro sr_push_substring_spec(1)) (simp_all add: rx_inv_def)
  moreover have "bs_capacity (sr_output ?ra) = rx_capacity r"
    using inv by (simp add: sr_push_substring_capacity rx_inv_def rx_stream_out_def)
  ultimately show ?thesis
    using Some i by (simp add: rx_segment_received_def Let_def abs buf_copy_def rx_inv_def rx_stream_out_def rx_next_def)
next
  case None
  show ?thesis
  proof (cases "th_syn (seg_header seg)")
    case False
    then show ?thesis using inv None by (simp add: rx_segment_received_def Let_def)
  next
    case True
    let ?d = "buf_str (seg_payload seg)" and ?fin = "th_fin (seg_header seg)"
    let ?ra = "sr_push_substring (rx_reassembler r) ?d 0 ?fin"
    have r: "rx_reassembler r = StreamReassembler (rx_capacity r)" "sr_inv S popped (rx_reassembler r)"
      using inv None unfolding rx_inv_def by auto
    have c: "seg_carries S isn n seg" "?fin \<Longrightarrow> length ?d \<le> unat (rx_capacity r)"
      using ok None True by (simp_all add: rx_seg_ok_def Let_def)
    then have n: "n = 0" "th_seqno (seg_header seg) = isn" "length ?d \<le> length S" "?d = take (length ?d) S"
      "?fin \<Longrightarrow> length ?d = length S"
      using True by (auto simp: seg_carries_def seg_index_def substream_def Let_def wrap_alt)
    then have p: "push_ok S (rx_reassembler r) ?d 0 ?fin"
      by (auto simp: push_ok_def substream_def)
    note spec = sr_push_substring_spec [OF r(2) p]
    have "sr_reach_end ?ra \<longleftrightarrow> ?fin"
    proof
      assume f: ?fin
      have "{..<length S} \<subseteq> sr_covered ?ra"
        using n(5) [OF f] c(2) [OF f] unfolding spec(2) by (auto simp: r(1) sr_init_window)
      then show "sr_reach_end ?ra"
        using f sr_covered_all [OF spec(1)] spec(4) sr_reach_end_iff [OF spec(1)] by blast
    next
      assume "sr_reach_end ?ra"
      then have "sr_has_eof ?ra" by (simp only: sr_reach_end_iff [OF spec(1)])
      then have "sr_has_eof (rx_reassembler r) \<or> ?fin" by (simp only: spec(4))
      then show ?fin by (simp add: r(1) sr_init_window)
    qed
    moreover have "bs_capacity (sr_output ?ra) = rx_capacity r"
      using inv by (simp add: sr_push_substring_capacity rx_inv_def rx_stream_out_def)
    ultimately show ?thesis
      using None True spec(1) n(2)
      by (simp add: rx_segment_received_def Let_def buf_copy_def rx_inv_def rx_stream_out_def rx_next_def add.commute)
  qed
qed

lemma rx_stream_read_inv:
  assumes "rx_inv S isn popped r"
  shows "rx_inv S isn (popped @ fst (rx_stream_read r k)) (snd (rx_stream_read r k))"
proof (cases "rx_isn r")
  case None
  then have r: "rx_reassembler r = StreamReassembler (rx_capacity r)"
    using assms unfolding rx_inv_def by simp
  have "rx_stream_read r k = ([], r)"
    using r by (cases r) (simp add: rx_stream_read_def sr_stream_read_def StreamReassembler_def ByteStream_def
        bs_read_def bs_peek_output_def bs_pop_output_def bs_clip_def word_gt_0)
  then show ?thesis using assms by simp
next
  case (Some i)
  have "sr_inv S popped (rx_reassembler r)" using assms by (simp add: rx_inv_def)
  from sr_stream_read_spec [OF this, of k]
  have "sr_inv S (popped @ fst (sr_stream_read (rx_reassembler r) k)) (snd (sr_stream_read (rx_reassembler r) k))"
    by (rule conjunct1)
  then show ?thesis
    using assms Some
    by (auto simp: rx_stream_read_def rx_inv_def rx_next_def sr_reach_end_def sr_stream_read_def rx_stream_out_def
        case_prod_beta Let_def)
qed

text \<open>Everything that can happen to a receiver: segments of the peer's stream arrive, the application reads.\<close>

inductive rx_reach :: "bytes \<Rightarrow> wrapping_int32 \<Rightarrow> u64 \<Rightarrow> bytes \<Rightarrow> tcp_receiver \<Rightarrow> bool"
  for S isn c where
  start: "rx_reach S isn c [] (TCPReceiver c)"
| segment: "rx_reach S isn c popped r \<Longrightarrow> rx_seg_ok S isn n r seg \<Longrightarrow>
    rx_reach S isn c popped (rx_segment_received r seg)"
| reading: "rx_reach S isn c popped r \<Longrightarrow> rx_stream_read r k = (out, r') \<Longrightarrow>
    rx_reach S isn c (popped @ out) r'"

lemma rx_ops_capacity [simp]:
  "rx_capacity (rx_segment_received r seg) = rx_capacity r"
  "rx_capacity (snd (rx_stream_read r k)) = rx_capacity r"
  by (auto simp: rx_segment_received_def rx_stream_read_def Let_def split: option.splits prod.splits)

lemma rx_reach_inv:
  "rx_reach S isn c popped r \<Longrightarrow> unat c < 2 ^ 63 \<Longrightarrow> length S < 2 ^ 63 \<Longrightarrow>
   rx_inv S isn popped r \<and> rx_capacity r = c"
proof (induction rule: rx_reach.induct)
  case start
  then show ?case by (simp add: rx_inv_init) (simp add: TCPReceiver_def)
next
  case (segment popped r n seg)
  then show ?case by (simp add: rx_segment_received_inv)
next
  case (reading popped r k out r')
  then show ?case using rx_stream_read_inv [of S isn popped r k] rx_ops_capacity(2) [of r k] by simp
qed

lemma rx_inv_stream:
  assumes "rx_inv S isn popped r"
  shows "popped @ bs_buffer (rx_stream_out r) = take (unat (sr_first_unassembled (rx_reassembler r))) S"
    and "length (popped @ bs_buffer (rx_stream_out r)) = unat (sr_first_unassembled (rx_reassembler r))"
    and "bs_input_ended (rx_stream_out r) \<longleftrightarrow> sr_reach_end (rx_reassembler r)"
    and "length (bs_buffer (rx_stream_out r)) \<le> unat (rx_capacity r)" and "str_ok (bs_buffer (rx_stream_out r))"
proof -
  let ?ra = "rx_reassembler r"
  have inv: "sr_inv S popped ?ra" "rx_capacity r = bs_capacity (rx_stream_out r)"
    using assms by (simp_all add: rx_inv_def)
  then have core: "sr_core S popped ?ra" "sr_ended S ?ra" by (simp_all add: sr_inv_def)
  note c = core [unfolded sr_core_def sr_ended_def, folded rx_stream_out_def]
  show 1: "popped @ bs_buffer (rx_stream_out r) = take (unat (sr_first_unassembled ?ra)) S"
    using c(1) by blast
  show "length (popped @ bs_buffer (rx_stream_out r)) = unat (sr_first_unassembled ?ra)"
    unfolding 1 using c(1) by (metis length_take min.absorb2)
  show "bs_input_ended (rx_stream_out r) \<longleftrightarrow> sr_reach_end ?ra"
    unfolding sr_reach_end_iff [OF inv(1)] bs_input_ended_def using c by blast
  show len: "length (bs_buffer (rx_stream_out r)) \<le> unat (rx_capacity r)"
    using c(1) inv(2) by (simp only: bs_inv_def)
  have "unat (rx_capacity r) < 2 ^ 63" using c(1) inv(2) by metis
  then show "str_ok (bs_buffer (rx_stream_out r))" using len by (simp only: str_ok_def)
qed

text \<open>A handshake and one segment with the whole of a two-byte stream, for the witnesses.\<close>

definition rx_example :: tcp_receiver where
  "rx_example = rx_segment_received
     (rx_segment_received (TCPReceiver 10)
       (TCPSegment\<lparr>seg_header := TCPHeader\<lparr>th_syn := True, th_seqno := WrappingInt32 100\<rparr>\<rparr>))
     \<lparr>seg_header = TCPHeader\<lparr>th_fin := True, th_seqno := WrappingInt32 101\<rparr>, seg_payload = Buffer [7, 8]\<rparr>"

lemma rx_example_reach: "rx_reach [7, 8] (WrappingInt32 100) 10 [] rx_example"
proof -
  let ?syn = "TCPSegment\<lparr>seg_header := TCPHeader\<lparr>th_syn := True, th_seqno := WrappingInt32 100\<rparr>\<rparr>"
  let ?r = "rx_segment_received (TCPReceiver 10) ?syn"
  have "rx_seg_ok [7, 8] (WrappingInt32 100) 0 (TCPReceiver 10) ?syn" by code_simp
  then have "rx_reach [7, 8] (WrappingInt32 100) 10 [] ?r" by (rule rx_reach.segment [OF rx_reach.start])
  moreover have "rx_isn ?r \<noteq> None" "sr_first_unassembled (rx_reassembler ?r) = 0"
    "sr_first_unacceptable (rx_reassembler ?r) = 10" by code_simp+
  then have "rx_seg_ok [7, 8] (WrappingInt32 100) 1 ?r \<lparr>seg_header = TCPHeader\<lparr>th_fin := True,
      th_seqno := WrappingInt32 101\<rparr>, seg_payload = Buffer [7, 8]\<rparr>"
    by (simp add: rx_seg_ok_def seg_carries_def seg_index_def TCPHeader_def wrap_alt substream_def
        unwrap_exact_def adist_def Let_def)
  ultimately show ?thesis unfolding rx_example_def by (rule rx_reach.segment)
qed

section \<open>Properties\<close>



text \<open>
  The feedback the receiver gives: no acknowledgment number before a SYN; afterwards it is the
  sequence number of the first thing not received, counting the SYN, every byte delivered so far and
  the FIN once the stream has ended; and the window is the capacity minus what is buffered.
\<close>

theorem rx_feedback:
  assumes "rx_reach S isn c popped r" and "unat c < 2 ^ 63" and "length S < 2 ^ 63"
  shows "rx_ackno r = (if rx_isn r = None then None
      else Some (wrap (of_nat (1 + length popped + length (bs_buffer (rx_stream_out r)) +
        (if bs_input_ended (rx_stream_out r) then 1 else 0))) isn)) \<and>
    unat (rx_window_size r) = unat c - length (bs_buffer (rx_stream_out r))"
proof -
  have inv: "rx_inv S isn popped r" "rx_capacity r = c" using rx_reach_inv [OF assms] by simp_all
  note st = rx_inv_stream [OF inv(1)]
  have "rx_next r = of_nat (1 + length popped + length (bs_buffer (rx_stream_out r)) +
      (if bs_input_ended (rx_stream_out r) then 1 else 0))"
    using arg_cong [OF st(2), of "of_nat :: nat \<Rightarrow> u64"] st(3) by (simp add: rx_next_def)
  moreover have "unat (rx_window_size r) = unat c - length (bs_buffer (rx_stream_out r))"
    using st(4,5) inv(2) by (simp add: rx_window_size_def bs_buffer_size_def unat_diff_no_wrap)
  ultimately show ?thesis
    using inv(1) by (auto simp: rx_inv_def split: option.splits)
qed

theorem rx_feedback_witness: "rx_ackno rx_example = Some (WrappingInt32 104)"
proof -
  have e: "rx_isn rx_example \<noteq> None" "bs_input_ended (rx_stream_out rx_example)"
    "length (bs_buffer (rx_stream_out rx_example)) = 2" by code_simp+
  have "unat (10 :: u64) < 2 ^ 63" "length [7, 8 :: u8] < 2 ^ 63" by simp_all
  from rx_feedback [OF rx_example_reach this] e show ?thesis by (simp add: wrap_alt)
qed

end
