(* ===== verification/TCP_Sender.thy ===== *)
theory TCP_Sender
  imports TCP_Receiver "HOL-Library.Sublist"
begin

text \<open>
  The retransmission timer and \<open>TCPSender\<close> (tcp_sender.hh, tcp_sender.cc).

  The sender cuts the outgoing byte stream into segments that fit the peer's window, keeps the ones
  that are not fully acknowledged in a backup queue, and retransmits the oldest when the timer
  expires. The theorems relate it to the whole byte stream \<open>S\<close> the application writes over time.
\<close>

section \<open>Timer\<close>

record timer =
  tm_RTO :: u32
  tm_active :: bool
  tm_time_passed :: u32
  tm_expired :: bool

definition Timer :: timer where
  "Timer = \<lparr>tm_RTO = 0, tm_active = False, tm_time_passed = 0, tm_expired = False\<rparr>"

definition tm_stop_timer :: "timer \<Rightarrow> timer" where
  "tm_stop_timer t = t\<lparr>tm_active := False\<rparr>"

definition tm_timer_closed :: "timer \<Rightarrow> bool" where
  "tm_timer_closed t \<longleftrightarrow> tm_active t = False"

definition tm_start_timer :: "timer \<Rightarrow> u32 \<Rightarrow> timer" where
  "tm_start_timer t RTO = t\<lparr>tm_RTO := RTO, tm_active := True, tm_time_passed := 0, tm_expired := False\<rparr>"

definition tm_tick :: "timer \<Rightarrow> u64 \<Rightarrow> timer" where
  "tm_tick t ms_since_last_tick =
    (if \<not> tm_active t then t
     else if tm_expired t then t
     else let passed = ucast (ucast (tm_time_passed t) + ms_since_last_tick);
              t = t\<lparr>tm_time_passed := passed\<rparr>
          in if passed \<ge> tm_RTO t then t\<lparr>tm_expired := True\<rparr> else t)"

definition tm_timer_expired :: "timer \<Rightarrow> bool" where
  "tm_timer_expired t = tm_expired t"

section \<open>The sender\<close>

record tcp_sender =
  tx_isn :: wrapping_int32
  tx_segments_out :: "tcp_segment list"
  tx_segments_backup :: "tcp_segment list"
  tx_initial_retransmission_timeout :: u32
  tx_retransmission_timeout :: u32
  tx_consecutive_retransmissions :: u32
  tx_stream :: byte_stream
  tx_next_seqno :: u64
  tx_abs_ackno :: u64
  tx_window_size :: u16
  tx_SYN_sent :: bool
  tx_FIN_sent :: bool
  tx_timer :: timer

text \<open>The value of \<open>random_device\<close> is an argument of the constructor.\<close>

definition TCPSender :: "u64 \<Rightarrow> u16 \<Rightarrow> wrapping_int32 option \<Rightarrow> u32 \<Rightarrow> tcp_sender" where
  "TCPSender capacity retx_timeout fixed_isn random =
    \<lparr>tx_isn = (case fixed_isn of Some isn \<Rightarrow> isn | None \<Rightarrow> WrappingInt32 random),
     tx_segments_out = [], tx_segments_backup = [],
     tx_initial_retransmission_timeout = ucast retx_timeout,
     tx_retransmission_timeout = ucast retx_timeout,
     tx_consecutive_retransmissions = 0, tx_stream = ByteStream capacity,
     tx_next_seqno = 0, tx_abs_ackno = 0, tx_window_size = 1,
     tx_SYN_sent = False, tx_FIN_sent = False, tx_timer = Timer\<rparr>"

definition tx_bytes_in_flight :: "tcp_sender \<Rightarrow> u64" where
  "tx_bytes_in_flight s = tx_next_seqno s - tx_abs_ackno s"

definition tx_next_seqno_wrapped :: "tcp_sender \<Rightarrow> wrapping_int32" where
  "tx_next_seqno_wrapped s = wrap (tx_next_seqno s) (tx_isn s)"

definition tx_make_segment :: "tcp_sender \<Rightarrow> u64 \<Rightarrow> bool \<Rightarrow> bool \<Rightarrow> bytes \<Rightarrow> tcp_segment" where
  "tx_make_segment s abs_seqno syn fin payload =
    (let seg = TCPSegment\<lparr>seg_header := TCPHeader\<lparr>th_seqno := wrap abs_seqno (tx_isn s),
                   th_syn := syn, th_fin := fin\<rparr>\<rparr>
     in if str_size payload \<noteq> 0 then seg\<lparr>seg_payload := Buffer payload\<rparr> else seg)"

text \<open>
  What both branches of \<open>fill_window\<close> do with a new segment: queue it, keep a copy, start the timer if
  it is not running, and advance the sequence number.
\<close>

definition tx_transmit :: "tcp_sender \<Rightarrow> tcp_segment \<Rightarrow> tcp_sender" where
  "tx_transmit s seg =
    s\<lparr>tx_segments_out := tx_segments_out s @ [seg],
      tx_segments_backup := tx_segments_backup s @ [seg],
      tx_timer := (if tm_timer_closed (tx_timer s)
                   then tm_start_timer (tx_timer s) (tx_retransmission_timeout s) else tx_timer s),
      tx_next_seqno := tx_next_seqno s + seg_length_in_sequence_space seg\<rparr>"

definition tx_max_payload :: "u16 \<Rightarrow> u64" where
  "tx_max_payload fill_size =
    (if ucast fill_size > MAX_PAYLOAD_SIZE then MAX_PAYLOAD_SIZE else ucast fill_size)"

text \<open>One segment of the loop: the sender after reading the payload, and the segment built from it.\<close>

definition tx_next_segment :: "tcp_sender \<Rightarrow> u16 \<Rightarrow> tcp_sender \<times> tcp_segment" where
  "tx_next_segment s fill_size =
    (let (payload, stream) = bs_read (tx_stream s) (tx_max_payload fill_size);
         s = s\<lparr>tx_stream := stream\<rparr>;
         fin = (if ucast fill_size > str_size payload then bs_eof stream else False)
     in (s, tx_make_segment s (tx_next_seqno s) False fin payload))"

lemma tx_next_segment_length:
  "unat (seg_length_in_sequence_space (snd (tx_next_segment s fill_size))) \<le> unat fill_size"
proof -
  let ?n = "tx_max_payload fill_size" and ?d = "fst (bs_read (tx_stream s) (tx_max_payload fill_size))"
  have n: "unat ?n \<le> unat fill_size"
    using unat_u16_bound [of fill_size]
    by (auto simp: tx_max_payload_def MAX_PAYLOAD_SIZE_def unat_ucast_mod word_less_nat_alt)
  have "length ?d \<le> unat ?n"
    by (auto simp: bs_read_def bs_peek_output_def bs_clip_def Let_def min.coboundedI2 word_less_nat_alt)
  then have d: "length ?d \<le> unat fill_size" using n by simp
  then have "str_ok ?d" using unat_u16_bound [of fill_size] by (simp add: str_ok_def)
  then show ?thesis
    using d unat_u16_bound [of fill_size]
    by (auto simp: tx_next_segment_def tx_make_segment_def seg_length_in_sequence_space_def TCPSegment_def TCPHeader_def
        Let_def unat_word_ariths unat_ucast_mod word_less_nat_alt split: prod.splits)
qed

function tx_fill_loop :: "tcp_sender \<Rightarrow> u16 \<Rightarrow> tcp_sender" where
  "tx_fill_loop s fill_size =
    (if fill_size > 0 \<and> \<not> tx_FIN_sent s \<and> tx_SYN_sent s
     then let (s', seg) = tx_next_segment s fill_size; len = seg_length_in_sequence_space seg in
          if len = 0 then s'
          else tx_fill_loop (tx_transmit (if th_fin (seg_header seg) then s'\<lparr>tx_FIN_sent := True\<rparr> else s') seg)
                 (ucast (ucast fill_size - len))
     else s)"
  by auto
termination
proof (relation "measure (\<lambda>(_, n). unat n)")
  fix s :: tcp_sender and fill_size :: u16 and x s' seg len
  assume "fill_size > 0 \<and> \<not> tx_FIN_sent s \<and> tx_SYN_sent s" and x: "x = tx_next_segment s fill_size" "(s', seg) = x"
    and len: "len = seg_length_in_sequence_space seg" "len \<noteq> 0"
  have "unat len \<le> unat fill_size"
    using tx_next_segment_length [of s fill_size] x len(1) by (metis snd_conv)
  moreover have "unat len \<noteq> 0" using len(2) by (simp add: unat_eq_zero)
  moreover have "unat (ucast fill_size :: u64) = unat fill_size"
    using unat_u16_bound [of fill_size] by (simp add: unat_ucast_mod)
  ultimately have "unat (ucast (ucast fill_size - len) :: u16) < unat fill_size"
    using unat_u16_bound [of fill_size] by (simp add: unat_ucast_mod unat_diff_no_wrap)
  then show "((tx_transmit (if th_fin (seg_header seg) then s'\<lparr>tx_FIN_sent := True\<rparr> else s') seg,
      ucast (ucast fill_size - len)), s, fill_size) \<in> measure (\<lambda>(_, n). unat n)" by simp
qed simp

declare tx_fill_loop.simps [simp del]

definition tx_fill_size :: "tcp_sender \<Rightarrow> u16" where
  "tx_fill_size s =
    (let w = max (ucast (tx_window_size s) :: u64) 1 in
     if w > tx_bytes_in_flight s then ucast (w - tx_bytes_in_flight s) else 0)"

definition tx_fill_window :: "tcp_sender \<Rightarrow> tcp_sender" where
  "tx_fill_window s =
    (if \<not> tx_SYN_sent s
     then (tx_transmit s (tx_make_segment s (tx_next_seqno s) True False []))\<lparr>tx_SYN_sent := True\<rparr>
     else tx_fill_loop s (tx_fill_size s))"

definition tx_check_seg_acked :: "tcp_sender \<Rightarrow> tcp_segment \<Rightarrow> bool" where
  "tx_check_seg_acked s seg \<longleftrightarrow>
    (let abs_seq = unwrap (th_seqno (seg_header seg)) (tx_isn s) (tx_abs_ackno s)
     in abs_seq + seg_length_in_sequence_space seg \<le> tx_abs_ackno s)"

text \<open>The loop that pops the acknowledged segments; the flag says whether there were any.\<close>

fun tx_pop_acked :: "tcp_sender \<Rightarrow> tcp_segment list \<Rightarrow> bool \<Rightarrow> tcp_segment list \<times> bool" where
  "tx_pop_acked s [] new_seg_acked = ([], new_seg_acked)"
| "tx_pop_acked s (seg # segs) new_seg_acked =
    (if tx_check_seg_acked s seg then tx_pop_acked s segs True else (seg # segs, new_seg_acked))"

definition tx_ack_received :: "tcp_sender \<Rightarrow> wrapping_int32 \<Rightarrow> u16 \<Rightarrow> tcp_sender" where
  "tx_ack_received s ackno window_size =
    (let a = unwrap ackno (tx_isn s) (tx_abs_ackno s);
         s = (if a > tx_abs_ackno s \<and> a \<le> tx_next_seqno s then s\<lparr>tx_abs_ackno := a\<rparr> else s);
         s = s\<lparr>tx_window_size := window_size\<rparr>;
         (backup, new_seg_acked) = tx_pop_acked s (tx_segments_backup s) False;
         s = s\<lparr>tx_segments_backup := backup\<rparr>;
         s = (if backup = [] then s\<lparr>tx_timer := tm_stop_timer (tx_timer s)\<rparr> else s);
         s = s\<lparr>tx_retransmission_timeout := tx_initial_retransmission_timeout s\<rparr>;
         s = (if backup \<noteq> [] \<and> new_seg_acked
              then s\<lparr>tx_timer := tm_start_timer (tx_timer s) (tx_retransmission_timeout s)\<rparr> else s)
     in s\<lparr>tx_consecutive_retransmissions := 0\<rparr>)"

text \<open>\<open>front\<close> of an empty backup queue is undefined behaviour.\<close>

definition tx_tick :: "tcp_sender \<Rightarrow> u64 \<Rightarrow> exn + tcp_sender" where
  "tx_tick s ms_since_last_tick =
    (let s = s\<lparr>tx_timer := tm_tick (tx_timer s) ms_since_last_tick\<rparr> in
     if \<not> tm_timer_expired (tx_timer s) then Inr s
     else case tx_segments_backup s of
            [] \<Rightarrow> Inl (Undefined_Behaviour ''front of empty _segments_backup'')
          | seg # _ \<Rightarrow>
              let s = s\<lparr>tx_segments_out := tx_segments_out s @ [seg]\<rparr>;
                  s = (if tx_window_size s \<noteq> 0
                       then s\<lparr>tx_consecutive_retransmissions := tx_consecutive_retransmissions s + 1,
                              tx_retransmission_timeout := tx_retransmission_timeout s * 2\<rparr>
                       else s)
              in Inr (s\<lparr>tx_timer := tm_start_timer (tx_timer s) (tx_retransmission_timeout s)\<rparr>))"

definition tx_send_empty_segment :: "tcp_sender \<Rightarrow> bool \<Rightarrow> tcp_sender" where
  "tx_send_empty_segment s rst_set =
    (let seg = tx_make_segment s (tx_next_seqno s) False False [];
         seg = seg\<lparr>seg_header := (seg_header seg)\<lparr>th_rst := rst_set\<rparr>\<rparr>
     in s\<lparr>tx_segments_out := tx_segments_out s @ [seg]\<rparr>)"

text \<open>The writer's side: \<open>stream_in()\<close> is a reference into the sender.\<close>

definition tx_stream_write :: "tcp_sender \<Rightarrow> bytes \<Rightarrow> u64 \<times> tcp_sender" where
  "tx_stream_write s data = (let (n, stream) = bs_write (tx_stream s) data in (n, s\<lparr>tx_stream := stream\<rparr>))"

definition tx_stream_end_input :: "tcp_sender \<Rightarrow> tcp_sender" where
  "tx_stream_end_input s = s\<lparr>tx_stream := bs_end_input (tx_stream s)\<rparr>"

section \<open>Invariant\<close>

abbreviation seg_data :: "tcp_segment \<Rightarrow> bytes" where
  "seg_data seg \<equiv> buf_str (seg_payload seg)"

abbreviation slen :: "tcp_segment \<Rightarrow> nat" where
  "slen seg \<equiv> unat (seg_length_in_sequence_space seg)"

text \<open>
  What every segment the sender emits looks like: it carries \<open>S\<close> at its place, is small, leaves the
  acknowledgment to the connection, and a SYN comes alone.
\<close>

definition tx_seg_ok :: "bytes \<Rightarrow> wrapping_int32 \<Rightarrow> nat \<Rightarrow> tcp_segment \<Rightarrow> bool" where
  "tx_seg_ok S isn n seg \<longleftrightarrow> seg_carries S isn n seg \<and> length (seg_data seg) \<le> 1000 \<and>
     buf_ok (seg_payload seg) \<and> th_doff (seg_header seg) = 5 \<and> \<not> th_ack (seg_header seg) \<and>
     (th_syn (seg_header seg) \<longrightarrow> seg_data seg = [] \<and> \<not> th_fin (seg_header seg))"

text \<open>The backup queue is a contiguous run of the sequence space, from \<open>n\<close> up to \<open>m\<close>.\<close>

fun seg_chain :: "bytes \<Rightarrow> wrapping_int32 \<Rightarrow> nat \<Rightarrow> tcp_segment list \<Rightarrow> nat \<Rightarrow> bool" where
  "seg_chain S isn n [] m \<longleftrightarrow> n = m"
| "seg_chain S isn n (x # xs) m \<longleftrightarrow> tx_seg_ok S isn n x \<and> 0 < slen x \<and> seg_chain S isn (n + slen x) xs m"

definition tx_stream_inv :: "bytes \<Rightarrow> bytes \<Rightarrow> tcp_sender \<Rightarrow> bool" where
  "tx_stream_inv S sent s \<longleftrightarrow> bs_inv (tx_stream s) \<and> length S + 2 < 2 ^ 32 \<and>
     prefix (sent @ bs_buffer (tx_stream s)) S \<and>
     bs_bytes_written (tx_stream s) = str_size (sent @ bs_buffer (tx_stream s)) \<and>
     (bs_input_end (tx_stream s) \<longrightarrow> sent @ bs_buffer (tx_stream s) = S) \<and>
     (tx_FIN_sent s \<longrightarrow> bs_eof (tx_stream s))"

definition tx_seqno_inv :: "bytes \<Rightarrow> tcp_sender \<Rightarrow> bool" where
  "tx_seqno_inv sent s \<longleftrightarrow>
     unat (tx_next_seqno s) = (if tx_SYN_sent s then 1 else 0) + length sent + (if tx_FIN_sent s then 1 else 0) \<and>
     (\<not> tx_SYN_sent s \<longrightarrow> sent = [] \<and> \<not> tx_FIN_sent s) \<and>
     unat (tx_abs_ackno s) \<le> unat (tx_next_seqno s) \<and>
     unat (tx_next_seqno s) - unat (tx_abs_ackno s) \<le> 65535"

definition tx_backup_inv :: "bytes \<Rightarrow> tcp_sender \<Rightarrow> bool" where
  "tx_backup_inv S s \<longleftrightarrow>
     (\<exists>n. seg_chain S (tx_isn s) n (tx_segments_backup s) (unat (tx_next_seqno s)) \<and> n \<le> unat (tx_abs_ackno s) \<and>
        (tx_segments_backup s \<noteq> [] \<longrightarrow> unat (tx_abs_ackno s) < n + slen (hd (tx_segments_backup s)))) \<and>
     (tm_active (tx_timer s) \<longleftrightarrow> tx_segments_backup s \<noteq> []) \<and> \<not> tm_expired (tx_timer s)"

definition tx_out_inv :: "bytes \<Rightarrow> tcp_sender \<Rightarrow> bool" where
  "tx_out_inv S s \<longleftrightarrow>
     (\<forall>seg \<in> set (tx_segments_out s). \<exists>n \<le> unat (tx_next_seqno s). tx_seg_ok S (tx_isn s) n seg)"

definition tx_inv :: "bytes \<Rightarrow> bytes \<Rightarrow> tcp_sender \<Rightarrow> bool" where
  "tx_inv S sent s \<longleftrightarrow> tx_stream_inv S sent s \<and> tx_seqno_inv sent s \<and> tx_backup_inv S s \<and> tx_out_inv S s"

lemmas tx_inv_defs = tx_inv_def tx_stream_inv_def tx_seqno_inv_def tx_backup_inv_def tx_out_inv_def

section \<open>Lemmas\<close>

lemma tx_inv_init:
  "length S + 2 < 2 ^ 32 \<Longrightarrow> tx_inv S [] (TCPSender c t i r)"
  by (simp add: tx_inv_defs TCPSender_def Timer_def) (simp add: ByteStream_def)

lemma tx_make_segment_simps [simp]:
  "th_seqno (seg_header (tx_make_segment s n syn fin d)) = wrap n (tx_isn s)"
  "th_syn (seg_header (tx_make_segment s n syn fin d)) = syn"
  "th_fin (seg_header (tx_make_segment s n syn fin d)) = fin"
  "th_rst (seg_header (tx_make_segment s n syn fin d)) = False"
  "th_doff (seg_header (tx_make_segment s n syn fin d)) = 5"
  "th_ack (seg_header (tx_make_segment s n syn fin d)) = False"
  by (simp_all add: tx_make_segment_def TCPSegment_def TCPHeader_def Let_def)

lemma tx_make_segment_data:
  assumes "str_ok d"
  shows "seg_data (tx_make_segment s n syn fin d) = d"
    and "buf_ok (seg_payload (tx_make_segment s n syn fin d))"
proof -
  have "str_size d \<noteq> 0 \<longleftrightarrow> d \<noteq> []" using assms by (metis unat_str_size_ok length_0_conv str_size_Nil unat_0)
  then show "seg_data (tx_make_segment s n syn fin d) = d"
    and "buf_ok (seg_payload (tx_make_segment s n syn fin d))"
    using assms by (simp_all add: tx_make_segment_def TCPSegment_def Let_def)
qed

lemma slen_eq:
  assumes "str_ok (seg_data seg)"
  shows "slen seg = length (seg_data seg) + (if th_syn (seg_header seg) then 1 else 0) +
     (if th_fin (seg_header seg) then 1 else 0)"
  using assms by (simp add: seg_length_in_sequence_space_def unat_word_ariths str_ok_def)

lemma seg_chain_append:
  "seg_chain S isn n xs m \<Longrightarrow> tx_seg_ok S isn m x \<Longrightarrow> 0 < slen x \<Longrightarrow> seg_chain S isn n (xs @ [x]) (m + slen x)"
  by (induction xs arbitrary: n) simp_all

lemma seg_chain_le: "seg_chain S isn n xs m \<Longrightarrow> n \<le> m"
  by (induction xs arbitrary: n) (auto dest: add_leD1)

lemma tx_transmit_simps [simp]:
  "tx_isn (tx_transmit s seg) = tx_isn s"
  "tx_segments_out (tx_transmit s seg) = tx_segments_out s @ [seg]"
  "tx_segments_backup (tx_transmit s seg) = tx_segments_backup s @ [seg]"
  "tx_stream (tx_transmit s seg) = tx_stream s"
  "tx_abs_ackno (tx_transmit s seg) = tx_abs_ackno s"
  "tx_window_size (tx_transmit s seg) = tx_window_size s"
  "tx_SYN_sent (tx_transmit s seg) = tx_SYN_sent s"
  "tx_FIN_sent (tx_transmit s seg) = tx_FIN_sent s"
  "tx_next_seqno (tx_transmit s seg) = tx_next_seqno s + seg_length_in_sequence_space seg"
  by (simp_all add: tx_transmit_def)

lemma tx_transmit_timer [simp]:
  "tm_active (tx_timer (tx_transmit s seg))"
  "tm_expired (tx_timer (tx_transmit s seg)) = (tm_active (tx_timer s) \<and> tm_expired (tx_timer s))"
  by (simp_all add: tx_transmit_def tm_timer_closed_def tm_start_timer_def)

text \<open>Sending a segment that continues the sequence space keeps the queues in order.\<close>

lemma tx_transmit_inv:
  assumes "tx_backup_inv S s" and "tx_out_inv S s"
    and "tx_seg_ok S (tx_isn s) (unat (tx_next_seqno s)) seg" and "0 < slen seg"
    and "unat (tx_next_seqno s) + slen seg < 2 ^ 64" and "unat (tx_abs_ackno s) \<le> unat (tx_next_seqno s)"
  shows "tx_backup_inv S (tx_transmit s seg) \<and> tx_out_inv S (tx_transmit s seg)"
proof -
  have next_seqno: "unat (tx_next_seqno s + seg_length_in_sequence_space seg) = unat (tx_next_seqno s) + slen seg"
    using assms(5) by (intro unat_add_no_wrap) simp
  obtain n where n: "seg_chain S (tx_isn s) n (tx_segments_backup s) (unat (tx_next_seqno s))"
    "n \<le> unat (tx_abs_ackno s)"
    "tx_segments_backup s \<noteq> [] \<Longrightarrow> unat (tx_abs_ackno s) < n + slen (hd (tx_segments_backup s))"
    using assms(1) by (auto simp: tx_backup_inv_def)
  have "unat (tx_abs_ackno s) < n + slen (hd (tx_segments_backup s @ [seg]))"
    using n assms(4,6) by (cases "tx_segments_backup s") simp_all
  then have "tx_backup_inv S (tx_transmit s seg)"
    using seg_chain_append [OF n(1) assms(3,4)] n(2) assms(1) next_seqno by (auto simp: tx_backup_inv_def)
  moreover have "tx_out_inv S (tx_transmit s seg)"
    using assms(2,3) next_seqno by (auto simp: tx_out_inv_def intro: le_add1 trans_le_add1)
  ultimately show ?thesis by simp
qed

lemma bs_read_length: "length (fst (bs_read st n)) \<le> unat n"
  by (auto simp: bs_read_def bs_peek_output_def bs_clip_def Let_def min.coboundedI2 word_less_nat_alt)

lemma tx_max_payload_le: "unat (tx_max_payload n) \<le> 1000 \<and> unat (tx_max_payload n) \<le> unat n"
  using unat_u16_bound [of n]
  by (auto simp: tx_max_payload_def MAX_PAYLOAD_SIZE_def unat_ucast_mod word_less_nat_alt)

lemma unat_ucast_u16_u64 [simp]: "unat (ucast (n :: u16) :: u64) = unat n"
  using unat_u16_bound [of n] by (simp add: unat_ucast_mod)

lemma tx_bytes_in_flight_nat:
  "tx_seqno_inv sent s \<Longrightarrow> unat (tx_bytes_in_flight s) = unat (tx_next_seqno s) - unat (tx_abs_ackno s)"
  by (simp add: tx_seqno_inv_def tx_bytes_in_flight_def unat_diff_no_wrap)
text \<open>One round of the loop: what is read from the stream, and the segment made of it.\<close>

lemma tx_next_segment_spec:
  assumes inv: "tx_inv S sent s" and syn: "tx_SYN_sent s" "\<not> tx_FIN_sent s" and fs: "fill_size > 0"
    and next_eq: "tx_next_segment s fill_size = (s', seg)"
  defines "d \<equiv> fst (bs_read (tx_stream s) (tx_max_payload fill_size))"
  shows "s' = s\<lparr>tx_stream := snd (bs_read (tx_stream s) (tx_max_payload fill_size))\<rparr>"
    and "seg_data seg = d" and "d @ bs_buffer (tx_stream s') = bs_buffer (tx_stream s)"
    and "tx_seg_ok S (tx_isn s) (unat (tx_next_seqno s)) seg"
    and "slen seg = length d + (if th_fin (seg_header seg) then 1 else 0)"
    and "th_fin (seg_header seg) \<Longrightarrow> bs_eof (tx_stream s')"
    and "slen seg = 0 \<Longrightarrow> bs_error (tx_stream s) \<or> bs_buffer (tx_stream s') = [] \<and> \<not> bs_input_end (tx_stream s')"
proof -
  let ?n = "tx_max_payload fill_size" and ?st = "snd (bs_read (tx_stream s) (tx_max_payload fill_size))"
  let ?fin = "if ucast fill_size > str_size d then bs_eof ?st else False"
  have st: "bs_inv (tx_stream s)" "prefix (sent @ bs_buffer (tx_stream s)) S"
    "bs_input_end (tx_stream s) \<Longrightarrow> sent @ bs_buffer (tx_stream s) = S" "length S + 2 < 2 ^ 32"
    using inv by (simp_all add: tx_inv_def tx_stream_inv_def)
  have len: "length d \<le> 1000" "length d \<le> unat fill_size" "str_ok d"
    using bs_read_length [of "tx_stream s" ?n] tx_max_payload_le [of fill_size] by (simp_all add: d_def str_ok_def)
  show s': "s' = s\<lparr>tx_stream := ?st\<rparr>"
    using next_eq by (simp add: tx_next_segment_def Let_def case_prod_beta)
  have seg: "seg = tx_make_segment s' (tx_next_seqno s) False ?fin d"
    using next_eq by (auto simp: tx_next_segment_def Let_def case_prod_beta d_def)
  show data: "seg_data seg = d" unfolding seg using len(3) by (rule tx_make_segment_data)
  show app: "d @ bs_buffer (tx_stream s') = bs_buffer (tx_stream s)"
    using stream.read_contents [OF st(1), of ?n] by (simp add: s' d_def)
  show eof: "bs_eof (tx_stream s')" if "th_fin (seg_header seg)"
    using that by (simp add: seg s' split: if_splits)
  have nxt: "unat (tx_next_seqno s) = 1 + length sent" using inv syn by (simp add: tx_inv_def tx_seqno_inv_def)
  have pre: "prefix (sent @ d) S"
    using st(2) by (simp add: app [symmetric]) (metis append.assoc append_prefixD)
  then have sub: "length sent + length d \<le> length S" "d = substream S (length sent) (length d)"
    by (auto simp: prefix_def substream_def)
  have "length sent + length d = length S" if "th_fin (seg_header seg)"
  proof -
    have "bs_input_end (tx_stream s)" "bs_buffer (tx_stream s') = []"
      using eof [OF that] by (simp_all add: bs_eof_def s')
    then show ?thesis using st(3) app by fastforce
  qed
  moreover have "th_seqno (seg_header seg) = wrap (of_nat (unat (tx_next_seqno s))) (tx_isn s)"
    "\<not> th_syn (seg_header seg)" by (simp_all add: seg s')
  ultimately have "seg_carries S (tx_isn s) (unat (tx_next_seqno s)) seg"
    unfolding seg_carries_def seg_index_def data Let_def using sub nxt by simp
  then show "tx_seg_ok S (tx_isn s) (unat (tx_next_seqno s)) seg"
    using len tx_make_segment_data(2) [OF len(3)] by (simp add: tx_seg_ok_def data) (simp add: seg)
  show sl: "slen seg = length d + (if th_fin (seg_header seg) then 1 else 0)"
    using slen_eq [of seg] len(3) by (simp add: data) (simp add: seg)
  show "bs_error (tx_stream s) \<or> bs_buffer (tx_stream s') = [] \<and> \<not> bs_input_end (tx_stream s')" if "slen seg = 0"
  proof -
    have d0: "d = []" "\<not> ?fin" using that sl by (simp_all add: seg split: if_splits)
    then have "\<not> bs_eof ?st" using fs by (simp add: word_gt_0 word_less_nat_alt unat_gt_0)
    moreover have "bs_error (tx_stream s) \<or> bs_buffer ?st = []"
    proof (rule ccontr)
      assume a: "\<not> (bs_error (tx_stream s) \<or> bs_buffer ?st = [])"
      have "unat (bs_clip (tx_stream s) ?n) = min (unat ?n) (length (bs_buffer (tx_stream s)))"
        using st(1) by (rule unat_bs_clip)
      moreover have "length d = min (unat (bs_clip (tx_stream s) ?n)) (length (bs_buffer (tx_stream s)))"
        using a by (simp add: d_def bs_read_def bs_peek_output_def)
      moreover have "0 < unat ?n"
        using fs by (auto simp: tx_max_payload_def MAX_PAYLOAD_SIZE_def word_less_nat_alt)
      ultimately show False using d0(1) a app by (auto simp: s' min_def split: if_splits)
    qed
    ultimately show ?thesis by (auto simp: bs_eof_def s')
  qed
qed

text \<open>Sending it keeps the invariant.\<close>

lemma tx_send_next_inv:
  assumes inv: "tx_inv S sent s" and syn: "tx_SYN_sent s" "\<not> tx_FIN_sent s" and fs: "fill_size > 0"
    and room: "unat (tx_next_seqno s) - unat (tx_abs_ackno s) + unat fill_size \<le> 65535"
    and next_eq: "tx_next_segment s fill_size = (s', seg)" and ne: "slen seg \<noteq> 0"
  shows "tx_inv S (sent @ seg_data seg)
    (tx_transmit (if th_fin (seg_header seg) then s'\<lparr>tx_FIN_sent := True\<rparr> else s') seg)"
proof -
  note spec = tx_next_segment_spec [OF inv syn fs next_eq]
  let ?s = "if th_fin (seg_header seg) then s'\<lparr>tx_FIN_sent := True\<rparr> else s'"
  have le: "slen seg \<le> unat fill_size" using tx_next_segment_length [of s fill_size] next_eq by simp
  have S: "length S + 2 < 2 ^ 32" "bs_inv (tx_stream s)" using inv by (simp_all add: tx_inv_def tx_stream_inv_def)
  have seqno: "tx_seqno_inv sent s" using inv by (simp add: tx_inv_def)
  have pre: "prefix (sent @ bs_buffer (tx_stream s)) S" using inv by (simp add: tx_inv_def tx_stream_inv_def)
  then have "length (sent @ bs_buffer (tx_stream s)) \<le> length S" by (rule prefix_length_le)
  then have nw: "unat (tx_next_seqno s) + slen seg < 2 ^ 64"
    using seqno syn le unat_u16_bound [of fill_size] S(1) by (simp add: tx_seqno_inv_def)
  have q: "tx_backup_inv S ?s" "tx_out_inv S ?s"
    using inv by (simp_all add: tx_inv_def tx_backup_inv_def tx_out_inv_def spec(1))
  have "tx_backup_inv S (tx_transmit ?s seg) \<and> tx_out_inv S (tx_transmit ?s seg)"
    using q spec(4) ne nw seqno by (intro tx_transmit_inv) (simp_all add: spec(1) tx_seqno_inv_def)
  moreover have "tx_stream_inv S (sent @ seg_data seg) (tx_transmit ?s seg)"
    using inv spec(2,3,6) stream.read_invar [OF S(2)] syn
    by (auto simp: tx_inv_def tx_stream_inv_def spec(1))
  moreover have "unat (tx_next_seqno s + seg_length_in_sequence_space seg) = unat (tx_next_seqno s) + slen seg"
    using nw by (intro unat_add_no_wrap) simp
  then have "tx_seqno_inv (sent @ seg_data seg) (tx_transmit ?s seg)"
    using seqno syn spec(2,5) le room by (auto simp: tx_seqno_inv_def spec(1))
  ultimately show ?thesis by (simp add: tx_inv_def)
qed
text \<open>The sender is out of things to send: nothing buffered and the end not announced, or FIN sent.\<close>

definition tx_drained :: "tcp_sender \<Rightarrow> bool" where
  "tx_drained s \<longleftrightarrow> tx_FIN_sent s \<or> bs_error (tx_stream s) \<or>
     bs_buffer (tx_stream s) = [] \<and> \<not> bs_input_end (tx_stream s)"

text \<open>
  What the loop of \<open>fill_window\<close> does: it appends new segments to both queues, which carry the next
  bytes of the stream and together take at most the given share of the sequence space, and it
  stops only when the share is used up or there is nothing left to send.
\<close>

definition tx_filled :: "tcp_sender \<Rightarrow> nat \<Rightarrow> tcp_segment list \<Rightarrow> tcp_sender \<Rightarrow> bool" where
  "tx_filled s k new s' \<longleftrightarrow>
     tx_segments_out s' = tx_segments_out s @ new \<and> tx_segments_backup s' = tx_segments_backup s @ new \<and>
     concat (map seg_data new) @ bs_buffer (tx_stream s') = bs_buffer (tx_stream s) \<and>
     unat (tx_next_seqno s') = unat (tx_next_seqno s) + sum_list (map slen new) \<and>
     sum_list (map slen new) \<le> k \<and> (sum_list (map slen new) = k \<or> tx_drained s') \<and>
     (\<forall>seg \<in> set new. 0 < slen seg \<and> length (seg_data seg) \<le> 1000) \<and>
     tx_isn s' = tx_isn s \<and> tx_abs_ackno s' = tx_abs_ackno s \<and> tx_window_size s' = tx_window_size s \<and>
     tx_SYN_sent s' = tx_SYN_sent s"

lemma tx_fill_loop_spec:
  "tx_inv S sent s \<Longrightarrow> tx_SYN_sent s \<Longrightarrow>
   unat (tx_next_seqno s) - unat (tx_abs_ackno s) + unat fill_size \<le> 65535 \<Longrightarrow>
   \<exists>new. tx_filled s (unat fill_size) new (tx_fill_loop s fill_size) \<and>
     tx_inv S (sent @ concat (map seg_data new)) (tx_fill_loop s fill_size)"
proof (induction s fill_size arbitrary: sent rule: tx_fill_loop.induct)
  case (1 s fill_size)
  note inv = 1(2) and syn = 1(3) and room = 1(4)
  show ?case
  proof (cases "fill_size > 0 \<and> \<not> tx_FIN_sent s")
    case False
    then have "tx_fill_loop s fill_size = s" by (subst tx_fill_loop.simps) auto
    moreover have "tx_drained s \<or> unat fill_size = 0" using False by (auto simp: tx_drained_def word_gt_0)
    ultimately show ?thesis using inv by (intro exI [of _ "[]"]) (auto simp: tx_filled_def)
  next
    case True
    obtain s' seg where nx: "tx_next_segment s fill_size = (s', seg)" by (cases "tx_next_segment s fill_size")
    have fs: "fill_size > 0" "\<not> tx_FIN_sent s" using True by simp_all
    note spec = tx_next_segment_spec [OF inv syn fs(2,1) nx]
    show ?thesis
    proof (cases "slen seg = 0")
      case True
      then have z: "seg_length_in_sequence_space seg = 0" by (simp add: unat_eq_zero)
      have loop: "tx_fill_loop s fill_size = s'"
        using fs syn z by (subst tx_fill_loop.simps) (simp add: nx)
      have d: "seg_data seg = []" using spec(2,5) True by simp
      have "tx_inv S sent s'"
        using inv spec(2,3) d stream.read_invar [of "tx_stream s"] by (auto simp: tx_inv_defs spec(1) bs_eof_def)
      moreover have "tx_filled s (unat fill_size) [] s'"
        using spec(2,3,7) d True by (auto simp: tx_filled_def tx_drained_def spec(1))
      ultimately show ?thesis unfolding loop by (intro exI [of _ "[]"]) simp
    next
      case False
      then have ne: "seg_length_in_sequence_space seg \<noteq> 0" by (simp add: unat_eq_zero)
      let ?t = "tx_transmit (if th_fin (seg_header seg) then s'\<lparr>tx_FIN_sent := True\<rparr> else s') seg"
      let ?fs = "ucast (ucast fill_size - seg_length_in_sequence_space seg) :: u16"
      have loop: "tx_fill_loop s fill_size = tx_fill_loop ?t ?fs"
        using fs syn ne by (subst tx_fill_loop.simps) (simp add: nx)
      have le: "slen seg \<le> unat fill_size" using tx_next_segment_length [of s fill_size] nx by simp
      have fs': "unat ?fs = unat fill_size - slen seg"
        using le unat_u16_bound [of fill_size] by (simp add: unat_ucast_mod unat_diff_no_wrap)
      have inv': "tx_inv S (sent @ seg_data seg) ?t"
        using tx_send_next_inv [OF inv syn fs(2,1) room nx False] .
      have nxt: "unat (tx_next_seqno ?t) = unat (tx_next_seqno s) + slen seg"
        using inv' inv fs syn spec(2,5) by (auto simp: tx_inv_def tx_seqno_inv_def spec(1))
      have "tx_SYN_sent ?t" "unat (tx_next_seqno ?t) - unat (tx_abs_ackno ?t) + unat ?fs \<le> 65535"
        using syn room le fs' nxt by (simp_all add: spec(1))
      then obtain new where new: "tx_filled ?t (unat ?fs) new (tx_fill_loop ?t ?fs)"
        "tx_inv S ((sent @ seg_data seg) @ concat (map seg_data new)) (tx_fill_loop ?t ?fs)"
        using 1(1) [OF _ nx [symmetric] refl refl ne inv'] fs syn by auto
      have "tx_filled s (unat fill_size) (seg # new) (tx_fill_loop ?t ?fs)"
        using new(1) fs' le nxt spec(2,3,4) False unfolding tx_filled_def by (auto simp: spec(1) tx_seg_ok_def)
      then show ?thesis using new(2) unfolding loop by (intro exI [of _ "seg # new"]) simp
    qed
  qed
qed
definition tx_window :: "tcp_sender \<Rightarrow> nat" where
  "tx_window s = max (unat (tx_window_size s)) 1"

lemma tx_fill_size_nat:
  assumes "tx_seqno_inv sent s"
  shows "unat (tx_fill_size s) = tx_window s - (unat (tx_next_seqno s) - unat (tx_abs_ackno s))"
proof -
  have w: "unat (max (ucast (tx_window_size s) :: u64) 1) = tx_window s"
    by (auto simp: tx_window_def max_def word_le_nat_alt)
  have "tx_window s < 65536" using unat_u16_bound [of "tx_window_size s"] by (simp add: tx_window_def)
  then show ?thesis
    using w tx_bytes_in_flight_nat [OF assms]
    by (auto simp: tx_fill_size_def Let_def word_less_nat_alt unat_ucast_mod unat_diff_no_wrap)
qed

lemma tx_syn_inv:
  assumes inv: "tx_inv S sent s" and syn: "\<not> tx_SYN_sent s"
  shows "tx_inv S sent (tx_fill_window s)"
proof -
  let ?seg = "tx_make_segment s (tx_next_seqno s) True False []"
  have n: "unat (tx_next_seqno s) = 0" "unat (tx_abs_ackno s) = 0" "sent = []" "\<not> tx_FIN_sent s"
    using inv syn by (auto simp: tx_inv_def tx_seqno_inv_def)
  then have z: "unat (tx_next_seqno s) = 0" "tx_next_seqno s = 0" "tx_abs_ackno s = 0" "sent = []" "\<not> tx_FIN_sent s"
    by (simp_all add: unat_eq_zero)
  have data: "seg_data ?seg = []" "buf_ok (seg_payload ?seg)" by (simp_all add: tx_make_segment_data)
  then have sl: "slen ?seg = 1" "seg_length_in_sequence_space ?seg = 1"
    by (simp_all add: slen_eq) (simp add: seg_length_in_sequence_space_def)
  have ok: "tx_seg_ok S (tx_isn s) (unat (tx_next_seqno s)) ?seg"
    using data by (simp add: tx_seg_ok_def seg_carries_def z)
  have "tx_backup_inv S (tx_transmit s ?seg) \<and> tx_out_inv S (tx_transmit s ?seg)"
    using inv ok sl z by (intro tx_transmit_inv) (simp_all add: tx_inv_def)
  then show ?thesis
    using inv syn sl z by (simp add: tx_fill_window_def tx_inv_defs)
qed

lemma tx_fill_window_spec:
  assumes inv: "tx_inv S sent s" and syn: "tx_SYN_sent s"
  shows "\<exists>new. tx_filled s (tx_window s - (unat (tx_next_seqno s) - unat (tx_abs_ackno s))) new (tx_fill_window s) \<and>
     tx_inv S (sent @ concat (map seg_data new)) (tx_fill_window s)"
proof -
  have seqno: "tx_seqno_inv sent s" using inv by (simp add: tx_inv_def)
  have w: "tx_window s < 65536" using unat_u16_bound [of "tx_window_size s"] by (simp add: tx_window_def)
  have "unat (tx_next_seqno s) - unat (tx_abs_ackno s) + unat (tx_fill_size s) \<le> 65535"
    using seqno w unfolding tx_fill_size_nat [OF seqno] tx_seqno_inv_def by arith
  from tx_fill_loop_spec [OF inv syn this] show ?thesis
    using syn seqno by (simp add: tx_fill_window_def tx_fill_size_nat)
qed

section \<open>Acknowledgments\<close>

lemma tx_check_seg_acked_iff:
  assumes "tx_seg_ok S (tx_isn s) n seg" and "n + slen seg \<le> unat (tx_next_seqno s)"
    and "unat (tx_next_seqno s) < 2 ^ 32" and "unat (tx_abs_ackno s) \<le> unat (tx_next_seqno s)"
    and "unat (tx_next_seqno s) - n < 2 ^ 31" and "unat (tx_abs_ackno s) - n < 2 ^ 31"
    and "n - unat (tx_abs_ackno s) < 2 ^ 31"
  shows "tx_check_seg_acked s seg \<longleftrightarrow> n + slen seg \<le> unat (tx_abs_ackno s)"
proof -
  have n: "unat (of_nat n :: u64) = n" using assms(2,3) by (intro unat_of_nat_small) simp
  have c: "unat (tx_abs_ackno s) < 2 ^ 32" using assms(3,4) by simp
  then have "unwrap_exact (of_nat n) (tx_abs_ackno s)"
    using assms(6,7) by (simp add: unwrap_exact_def n adist_def)
  then have "unwrap (th_seqno (seg_header seg)) (tx_isn s) (tx_abs_ackno s) = of_nat n"
    using assms(1) by (simp add: tx_seg_ok_def seg_carries_def Let_def wrap_codec.dec_enc)
  moreover have "unat (of_nat n + seg_length_in_sequence_space seg :: u64) = n + slen seg"
    using n assms(2,3) by (subst unat_add_no_wrap) simp_all
  ultimately show ?thesis by (simp add: tx_check_seg_acked_def word_le_nat_alt)
qed

text \<open>The loop pops exactly the segments that end at or before the acknowledged position.\<close>

lemma tx_pop_acked_spec:
  "seg_chain S (tx_isn s) n xs (unat (tx_next_seqno s)) \<Longrightarrow> n \<le> unat (tx_abs_ackno s) \<Longrightarrow>
   unat (tx_abs_ackno s) \<le> unat (tx_next_seqno s) \<Longrightarrow> unat (tx_next_seqno s) < 2 ^ 32 \<Longrightarrow>
   unat (tx_next_seqno s) - n < 2 ^ 31 \<Longrightarrow>
   tx_pop_acked s xs b = (ys, b') \<Longrightarrow>
   \<exists>m. seg_chain S (tx_isn s) m ys (unat (tx_next_seqno s)) \<and> m \<le> unat (tx_abs_ackno s) \<and>
     (ys \<noteq> [] \<longrightarrow> unat (tx_abs_ackno s) < m + slen (hd ys)) \<and>
     (\<exists>acked. xs = acked @ ys \<and> m = n + sum_list (map slen acked) \<and> b' = (b \<or> acked \<noteq> []))"
proof (induction xs arbitrary: n b)
  case Nil
  then show ?case by auto
next
  case (Cons x xs)
  have x: "tx_seg_ok S (tx_isn s) n x" "seg_chain S (tx_isn s) (n + slen x) xs (unat (tx_next_seqno s))"
    using Cons.prems(1) by simp_all
  have le: "n + slen x \<le> unat (tx_next_seqno s)" using seg_chain_le [OF x(2)] .
  have acked: "tx_check_seg_acked s x \<longleftrightarrow> n + slen x \<le> unat (tx_abs_ackno s)"
    using x(1) le Cons.prems(2-5) by (intro tx_check_seg_acked_iff) simp_all
  show ?case
  proof (cases "tx_check_seg_acked s x")
    case True
    then have "tx_pop_acked s xs True = (ys, b')" using Cons.prems(6) by simp
    moreover have "n + slen x \<le> unat (tx_abs_ackno s)" "unat (tx_next_seqno s) - (n + slen x) < 2 ^ 31"
      using True acked Cons.prems(5) by simp_all
    ultimately obtain m acked where "seg_chain S (tx_isn s) m ys (unat (tx_next_seqno s))" "m \<le> unat (tx_abs_ackno s)"
      "ys \<noteq> [] \<longrightarrow> unat (tx_abs_ackno s) < m + slen (hd ys)" "xs = acked @ ys"
      "m = n + slen x + sum_list (map slen acked)" "b'"
      using Cons.IH [OF x(2) _ Cons.prems(3,4)] by blast
    then show ?thesis by (intro exI [of _ m]) (auto intro: exI [of _ "x # acked"])
  next
    case False
    then have "ys = x # xs" "b' = b" using Cons.prems(6) by simp_all
    then show ?thesis using Cons.prems acked False by (intro exI [of _ n]) auto
  qed
qed

lemma tx_ack_received_spec:
  fixes ackno :: wrapping_int32 and window_size :: u16
  assumes inv: "tx_inv S sent s"
  defines "a \<equiv> unwrap ackno (tx_isn s) (tx_abs_ackno s)" and "s' \<equiv> tx_ack_received s ackno window_size"
  shows "tx_inv S sent s'"
    and "tx_abs_ackno s' = (if a > tx_abs_ackno s \<and> a \<le> tx_next_seqno s then a else tx_abs_ackno s)"
    and "tx_window_size s' = window_size" and "tx_next_seqno s' = tx_next_seqno s"
    and "tx_segments_out s' = tx_segments_out s"
    and "\<exists>acked. tx_segments_backup s = acked @ tx_segments_backup s'"
proof -
  define s1 where "s1 = (if a > tx_abs_ackno s \<and> a \<le> tx_next_seqno s then s\<lparr>tx_abs_ackno := a\<rparr> else s)
    \<lparr>tx_window_size := window_size\<rparr>"
  obtain ys b where pop: "tx_pop_acked s1 (tx_segments_backup s) False = (ys, b)"
    by (cases "tx_pop_acked s1 (tx_segments_backup s) False")
  have s1: "tx_isn s1 = tx_isn s" "tx_next_seqno s1 = tx_next_seqno s" "tx_segments_backup s1 = tx_segments_backup s"
    "tx_segments_out s1 = tx_segments_out s" "tx_timer s1 = tx_timer s" "tx_stream s1 = tx_stream s"
    "tx_SYN_sent s1 = tx_SYN_sent s" "tx_FIN_sent s1 = tx_FIN_sent s" "tx_window_size s1 = window_size"
    "tx_initial_retransmission_timeout s1 = tx_initial_retransmission_timeout s"
    by (simp_all add: s1_def)
  have abs1: "tx_abs_ackno s1 = (if a > tx_abs_ackno s \<and> a \<le> tx_next_seqno s then a else tx_abs_ackno s)"
    by (simp add: s1_def)
  have seqno: "tx_seqno_inv sent s" using inv by (simp add: tx_inv_def)
  have seqno1: "tx_seqno_inv sent s1"
    using seqno by (auto simp: tx_seqno_inv_def s1 abs1 word_less_nat_alt word_le_nat_alt)
  have grow: "unat (tx_abs_ackno s) \<le> unat (tx_abs_ackno s1)" by (auto simp: abs1 word_less_nat_alt)
  have nxt: "unat (tx_next_seqno s) < 2 ^ 32"
    using inv prefix_length_le [of "sent @ bs_buffer (tx_stream s)" S]
    by (auto simp: tx_inv_def tx_stream_inv_def tx_seqno_inv_def)
  obtain n where n: "seg_chain S (tx_isn s) n (tx_segments_backup s) (unat (tx_next_seqno s))"
    "n \<le> unat (tx_abs_ackno s)"
    "tx_segments_backup s \<noteq> [] \<Longrightarrow> unat (tx_abs_ackno s) < n + slen (hd (tx_segments_backup s))"
    using inv by (auto simp: tx_inv_def tx_backup_inv_def)
  have close: "unat (tx_next_seqno s) - n < 2 ^ 31"
  proof (cases "tx_segments_backup s")
    case Nil
    then show ?thesis using n by simp
  next
    case (Cons x xs)
    then have "tx_seg_ok S (tx_isn s) n x" using n(1) by simp
    then have "slen x \<le> 1002" using slen_eq [of x] by (simp add: tx_seg_ok_def buf_ok_str)
    then show ?thesis using n(3) Cons seqno by (auto simp: tx_seqno_inv_def)
  qed
  obtain m acked where m: "seg_chain S (tx_isn s) m ys (unat (tx_next_seqno s))" "m \<le> unat (tx_abs_ackno s1)"
    "ys \<noteq> [] \<longrightarrow> unat (tx_abs_ackno s1) < m + slen (hd ys)" "tx_segments_backup s = acked @ ys" "b = (acked \<noteq> [])"
    using tx_pop_acked_spec [of S s1 n "tx_segments_backup s" False ys b] n(1,2) grow seqno1 nxt close pop
    by (auto simp: s1 tx_seqno_inv_def)
  have s': "s' = s1\<lparr>tx_segments_backup := ys,
      tx_timer := (if ys = [] then tm_stop_timer (tx_timer s)
                   else if b then tm_start_timer (tx_timer s) (tx_initial_retransmission_timeout s) else tx_timer s),
      tx_retransmission_timeout := tx_initial_retransmission_timeout s, tx_consecutive_retransmissions := 0\<rparr>"
    unfolding s'_def tx_ack_received_def a_def [symmetric] Let_def s1_def [symmetric]
    using pop by (simp add: s1)
  show "tx_abs_ackno s' = (if a > tx_abs_ackno s \<and> a \<le> tx_next_seqno s then a else tx_abs_ackno s)"
    "tx_window_size s' = window_size" "tx_next_seqno s' = tx_next_seqno s" "tx_segments_out s' = tx_segments_out s"
    "\<exists>acked. tx_segments_backup s = acked @ tx_segments_backup s'"
    using m(4) by (simp_all add: s' s1 abs1)
  have "tx_backup_inv S s'"
    using m inv by (auto simp: tx_backup_inv_def tx_inv_def s' s1 tm_stop_timer_def tm_start_timer_def)
  moreover have "tx_stream_inv S sent s'" using inv by (simp add: tx_inv_def tx_stream_inv_def s' s1)
  moreover have "tx_seqno_inv sent s' = tx_seqno_inv sent s1" by (simp add: tx_seqno_inv_def s')
  moreover have "tx_out_inv S s'" using inv by (simp add: tx_inv_def tx_out_inv_def s' s1)
  ultimately show "tx_inv S sent s'" using seqno1 by (simp add: tx_inv_def)
qed
section \<open>Time\<close>

lemma tx_tick_cases:
  assumes "tx_inv S sent s"
  obtains (idle) "tx_segments_backup s = []" "tx_tick s ms = Inr s"
  | (wait) "tx_segments_backup s \<noteq> []" "\<not> tm_expired (tm_tick (tx_timer s) ms)"
      "tx_tick s ms = Inr (s\<lparr>tx_timer := tm_tick (tx_timer s) ms\<rparr>)"
  | (expire) "tx_segments_backup s \<noteq> []" "tm_expired (tm_tick (tx_timer s) ms)"
      "tx_tick s ms = Inr
        (let s' = s\<lparr>tx_segments_out := tx_segments_out s @ [hd (tx_segments_backup s)],
              tx_consecutive_retransmissions := tx_consecutive_retransmissions s + (if tx_window_size s \<noteq> 0 then 1 else 0),
              tx_retransmission_timeout := tx_retransmission_timeout s * (if tx_window_size s \<noteq> 0 then 2 else 1)\<rparr>
         in s'\<lparr>tx_timer := tm_start_timer (tm_tick (tx_timer s) ms) (tx_retransmission_timeout s')\<rparr>)"
proof (cases "tx_segments_backup s")
  case Nil
  then have "\<not> tm_active (tx_timer s)" "\<not> tm_expired (tx_timer s)"
    using assms by (simp_all add: tx_inv_def tx_backup_inv_def)
  then have "tx_tick s ms = Inr s" by (simp add: tx_tick_def tm_tick_def tm_timer_expired_def)
  with Nil show thesis by (rule idle)
next
  case (Cons x xs)
  show thesis
  proof (cases "tm_expired (tm_tick (tx_timer s) ms)")
    case True
    show thesis
      by (rule expire) (use Cons True in \<open>simp_all add: tx_tick_def tm_timer_expired_def Let_def\<close>)
  next
    case False
    show thesis
      by (rule wait) (use Cons False in \<open>simp_all add: tx_tick_def tm_timer_expired_def\<close>)
  qed
qed

lemma tm_tick_active [simp]: "tm_active (tm_tick t ms) = tm_active t"
  by (simp add: tm_tick_def Let_def)

text \<open>The parts of the invariant a record update does not touch.\<close>

lemma tx_inv_frame [simp]:
  "tx_stream_inv S sent (s\<lparr>tx_timer := t\<rparr>) = tx_stream_inv S sent s"
  "tx_stream_inv S sent (s\<lparr>tx_segments_out := out\<rparr>) = tx_stream_inv S sent s"
  "tx_seqno_inv sent (s\<lparr>tx_timer := t\<rparr>) = tx_seqno_inv sent s"
  "tx_seqno_inv sent (s\<lparr>tx_segments_out := out\<rparr>) = tx_seqno_inv sent s"
  "tx_seqno_inv sent (s\<lparr>tx_stream := st\<rparr>) = tx_seqno_inv sent s"
  "tx_backup_inv S (s\<lparr>tx_segments_out := out\<rparr>) = tx_backup_inv S s"
  "tx_backup_inv S (s\<lparr>tx_stream := st\<rparr>) = tx_backup_inv S s"
  "tx_out_inv S (s\<lparr>tx_timer := t\<rparr>) = tx_out_inv S s"
  "tx_out_inv S (s\<lparr>tx_stream := st\<rparr>) = tx_out_inv S s"
  by (simp_all add: tx_stream_inv_def tx_seqno_inv_def tx_backup_inv_def tx_out_inv_def)

lemma tx_inv_timer:
  assumes "tx_inv S sent s" and "tm_active t \<longleftrightarrow> tx_segments_backup s \<noteq> []" and "\<not> tm_expired t"
  shows "tx_inv S sent (s\<lparr>tx_timer := t\<rparr>)"
  using assms by (simp add: tx_inv_def) (simp add: tx_backup_inv_def)

text \<open>A segment of the backup queue may be queued for sending again, and any queued segment may leave.\<close>

lemma tx_inv_out:
  assumes "tx_inv S sent s" and "\<forall>seg \<in> set out. \<exists>n \<le> unat (tx_next_seqno s). tx_seg_ok S (tx_isn s) n seg"
  shows "tx_inv S sent (s\<lparr>tx_segments_out := out\<rparr>)"
  using assms by (simp add: tx_inv_def) (simp add: tx_out_inv_def)

lemma tx_inv_counters:
  "tx_inv S sent (s\<lparr>tx_consecutive_retransmissions := c, tx_retransmission_timeout := r\<rparr>) = tx_inv S sent s"
  by (simp add: tx_inv_def tx_stream_inv_def tx_seqno_inv_def tx_backup_inv_def tx_out_inv_def)

lemma tx_backup_hd:
  assumes "tx_inv S sent s" and "tx_segments_backup s \<noteq> []"
  shows "\<exists>n \<le> unat (tx_next_seqno s). tx_seg_ok S (tx_isn s) n (hd (tx_segments_backup s))"
proof -
  obtain x xs where x: "tx_segments_backup s = x # xs" using assms(2) by (cases "tx_segments_backup s") auto
  obtain n where n: "seg_chain S (tx_isn s) n (x # xs) (unat (tx_next_seqno s))"
    using assms(1) x by (auto simp: tx_inv_def tx_backup_inv_def)
  then have "n \<le> unat (tx_next_seqno s)" "tx_seg_ok S (tx_isn s) n x" using seg_chain_le [OF n] by simp_all
  then show ?thesis using x by auto
qed

lemma tx_tick_inv:
  assumes inv: "tx_inv S sent s"
  shows "\<exists>s'. tx_tick s ms = Inr s' \<and> tx_inv S sent s'"
  using inv
proof (cases rule: tx_tick_cases [where ms = ms])
  case idle
  then show ?thesis using inv by simp
next
  case wait
  then have "tx_inv S sent (s\<lparr>tx_timer := tm_tick (tx_timer s) ms\<rparr>)"
    using inv by (intro tx_inv_timer) (simp_all, simp add: tx_inv_def tx_backup_inv_def)
  then show ?thesis using wait(3) by simp
next
  case expire
  let ?s1 = "s\<lparr>tx_segments_out := tx_segments_out s @ [hd (tx_segments_backup s)]\<rparr>"
  let ?s2 = "?s1\<lparr>tx_consecutive_retransmissions := tx_consecutive_retransmissions s + (if tx_window_size s \<noteq> 0 then 1 else 0),
    tx_retransmission_timeout := tx_retransmission_timeout s * (if tx_window_size s \<noteq> 0 then 2 else 1)\<rparr>"
  have "tx_inv S sent ?s1"
    using inv tx_backup_hd [OF inv expire(1)] by (intro tx_inv_out) (auto simp: tx_inv_def tx_out_inv_def)
  then have "tx_inv S sent ?s2" by (simp only: tx_inv_counters)
  then have "tx_inv S sent (?s2\<lparr>tx_timer := tm_start_timer (tm_tick (tx_timer s) ms) (tx_retransmission_timeout ?s2)\<rparr>)"
    by (rule tx_inv_timer) (use expire(1) in \<open>simp_all add: tm_start_timer_def\<close>)
  then show ?thesis unfolding expire(3) Let_def by auto
qed

section \<open>The other operations\<close>

lemma tx_send_empty_segment_inv:
  assumes "tx_inv S sent s"
  shows "tx_inv S sent (tx_send_empty_segment s rst)"
proof -
  let ?seg = "tx_make_segment s (tx_next_seqno s) False False []"
  let ?e = "?seg\<lparr>seg_header := (seg_header ?seg)\<lparr>th_rst := rst\<rparr>\<rparr>"
  have "tx_seg_ok S (tx_isn s) (unat (tx_next_seqno s)) ?e"
    using tx_make_segment_data [of "[]" s "tx_next_seqno s" False False]
    by (simp add: tx_seg_ok_def seg_carries_def)
  then show ?thesis
    using assms unfolding tx_send_empty_segment_def Let_def
    by (intro tx_inv_out) (auto simp: tx_inv_def tx_out_inv_def)
qed

lemma tx_stream_write_inv:
  assumes "tx_inv S sent s" and "prefix (sent @ bs_buffer (tx_stream (snd (tx_stream_write s data)))) S"
  shows "tx_inv S sent (snd (tx_stream_write s data))"
proof -
  let ?st = "snd (bs_write (tx_stream s) data)"
  have w: "snd (tx_stream_write s data) = s\<lparr>tx_stream := ?st\<rparr>"
    by (simp add: tx_stream_write_def Let_def case_prod_beta)
  have inv: "bs_inv (tx_stream s)" using assms(1) by (simp add: tx_inv_def tx_stream_inv_def)
  have "?st = tx_stream s" if "bs_input_end (tx_stream s)"
    using that by (simp add: bs_write_def bs_input_ended_def)
  moreover have "bs_bytes_written ?st = str_size (sent @ bs_buffer ?st)"
  proof -
    have "bs_bytes_written (tx_stream s) = str_size (sent @ bs_buffer (tx_stream s))"
      using assms(1) by (simp add: tx_inv_def tx_stream_inv_def)
    then have "bs_bytes_read (tx_stream s) = str_size sent" using inv by (simp add: bs_inv_def str_size_append)
    then show ?thesis using bs_write_inv [OF inv, of data] by (simp add: bs_inv_def str_size_append)
  qed
  ultimately have "tx_stream_inv S sent (s\<lparr>tx_stream := ?st\<rparr>)"
    using assms inv bs_write_inv [of "tx_stream s" data] unfolding w
    by (auto simp: tx_inv_def tx_stream_inv_def bs_eof_def)
  then show ?thesis
    using assms(1) unfolding w by (simp add: tx_inv_def)
qed

lemma tx_stream_flags_inv:
  assumes "tx_inv S sent s"
  shows "sent @ bs_buffer (tx_stream s) = S \<Longrightarrow> tx_inv S sent (tx_stream_end_input s)"
    and "tx_inv S sent (s\<lparr>tx_stream := bs_set_error (tx_stream s)\<rparr>)"
  using assms
  by (simp_all add: tx_inv_def tx_stream_end_input_def) (simp_all add: tx_stream_inv_def bs_eof_def)
section \<open>Everything that can happen to a sender\<close>

text \<open>
  The application writes the bytes of \<open>S\<close> and announces their end, the connection asks for segments,
  takes them from the queue and reports acknowledgments (any number, any window), and time passes.
  \<open>sent\<close> is what has been read from the stream so far.
\<close>

inductive tx_reach :: "bytes \<Rightarrow> tcp_sender \<Rightarrow> bytes \<Rightarrow> tcp_sender \<Rightarrow> bool"
  for S s0 where
  start: "tx_reach S s0 [] s0"
| writing: "tx_reach S s0 sent s \<Longrightarrow> tx_stream_write s data = (n, s') \<Longrightarrow>
    prefix (sent @ bs_buffer (tx_stream s')) S \<Longrightarrow> tx_reach S s0 sent s'"
| ending: "tx_reach S s0 sent s \<Longrightarrow> sent @ bs_buffer (tx_stream s) = S \<Longrightarrow>
    tx_reach S s0 sent (tx_stream_end_input s)"
| failing: "tx_reach S s0 sent s \<Longrightarrow> tx_reach S s0 sent (s\<lparr>tx_stream := bs_set_error (tx_stream s)\<rparr>)"
| filling: "tx_reach S s0 sent s \<Longrightarrow> tx_fill_window s = s' \<Longrightarrow>
    sent' @ bs_buffer (tx_stream s') = sent @ bs_buffer (tx_stream s) \<Longrightarrow> tx_reach S s0 sent' s'"
| acking: "tx_reach S s0 sent s \<Longrightarrow> tx_reach S s0 sent (tx_ack_received s ackno window_size)"
| ticking: "tx_reach S s0 sent s \<Longrightarrow> tx_tick s ms = Inr s' \<Longrightarrow> tx_reach S s0 sent s'"
| answering: "tx_reach S s0 sent s \<Longrightarrow> tx_reach S s0 sent (tx_send_empty_segment s rst)"
| popping: "tx_reach S s0 sent s \<Longrightarrow> tx_segments_out s = seg # segs \<Longrightarrow>
    tx_reach S s0 sent (s\<lparr>tx_segments_out := segs\<rparr>)"



lemma tx_fill_window_stream:
  assumes "tx_inv S sent s" and "sent' @ bs_buffer (tx_stream (tx_fill_window s)) = sent @ bs_buffer (tx_stream s)"
  shows "tx_inv S sent' (tx_fill_window s)"
proof (cases "tx_SYN_sent s")
  case False
  then have "tx_stream (tx_fill_window s) = tx_stream s" by (simp add: tx_fill_window_def)
  then have "sent' = sent" using assms(2) by simp
  then show ?thesis using tx_syn_inv [OF assms(1) False] by simp
next
  case True
  from tx_fill_window_spec [OF assms(1) this] obtain new where
    "concat (map seg_data new) @ bs_buffer (tx_stream (tx_fill_window s)) = bs_buffer (tx_stream s)"
    "tx_inv S (sent @ concat (map seg_data new)) (tx_fill_window s)"
    unfolding tx_filled_def by blast
  moreover from this(1) have "sent' = sent @ concat (map seg_data new)"
    using assms(2) by (metis append.assoc append_same_eq)
  ultimately show ?thesis by simp
qed

lemma tx_reach_inv:
  assumes "tx_reach S (TCPSender c t i r) sent s" and "length S + 2 < 2 ^ 32"
  shows "tx_inv S sent s"
  using assms
proof (induction rule: tx_reach.induct)
  case start
  then show ?case by (simp add: tx_inv_init)
next
  case (writing sent s data n s')
  then show ?case using tx_stream_write_inv [of S sent s data] by simp
next
  case (ending sent s)
  then show ?case by (simp add: tx_stream_flags_inv)
next
  case (failing sent s)
  then show ?case by (simp add: tx_stream_flags_inv)
next
  case (filling sent s s' sent')
  then show ?case using tx_fill_window_stream [of S sent s sent'] by simp
next
  case (acking sent s ackno window_size)
  then show ?case by (simp add: tx_ack_received_spec(1))
next
  case (ticking sent s ms s')
  then show ?case using tx_tick_inv [of S sent s ms] by auto
next
  case (answering sent s rst)
  then show ?case by (simp add: tx_send_empty_segment_inv)
next
  case (popping sent s seg segs)
  then have "tx_inv S sent s" by simp
  then show ?case
    by (rule tx_inv_out) (use popping in \<open>simp add: tx_inv_def tx_out_inv_def\<close>)
qed

lemma seg_chain_length: "seg_chain S isn n xs m \<Longrightarrow> m = n + sum_list (map slen xs)"
proof (induction xs arbitrary: n)
  case (Cons x xs)
  then have "m = (n + slen x) + sum_list (map slen xs)" by (intro Cons.IH) simp
  then show ?case by simp
qed simp

text \<open>Two reachable states for the witnesses: the SYN sent, and data written after its acknowledgment.\<close>

definition tx_example_init :: tcp_sender where
  "tx_example_init = TCPSender 100 1000 (Some (WrappingInt32 5)) 0"

definition tx_example_syn :: tcp_sender where
  "tx_example_syn = tx_fill_window tx_example_init"

definition tx_example :: tcp_sender where
  "tx_example = tx_stream_end_input (snd (tx_stream_write (tx_ack_received tx_example_syn (WrappingInt32 6) 10) [7, 8]))"

lemma tx_example_syn_reach: "tx_reach [7, 8] (TCPSender 100 1000 (Some (WrappingInt32 5)) 0) [] tx_example_syn"
  unfolding tx_example_init_def [symmetric] tx_example_syn_def
  by (rule tx_reach.filling [OF tx_reach.start refl]) code_simp

lemma tx_example_reach: "tx_reach [7, 8] (TCPSender 100 1000 (Some (WrappingInt32 5)) 0) [] tx_example"
proof -
  let ?s = "tx_ack_received tx_example_syn (WrappingInt32 6) 10"
  have "tx_reach [7, 8] (TCPSender 100 1000 (Some (WrappingInt32 5)) 0) [] ?s"
    by (rule tx_reach.acking [OF tx_example_syn_reach])
  then have "tx_reach [7, 8] (TCPSender 100 1000 (Some (WrappingInt32 5)) 0) [] (snd (tx_stream_write ?s [7, 8]))"
    by (rule tx_reach.writing [OF _ surjective_pairing]) code_simp
  then show ?thesis unfolding tx_example_def by (rule tx_reach.ending) code_simp
qed

section \<open>Properties\<close>

text \<open>
  C4. The sender's invariant holds in every reachable state: the next sequence number counts the SYN,
  the bytes read from the stream and the FIN; at most 65535 numbers are outstanding; the timer runs
  exactly when the backup queue is not empty and is never left expired; every queued segment carries
  the bytes of \<open>S\<close> that belong at its sequence number, and at most 1000 of them.
\<close>

theorem tx_invariant:
  assumes "tx_reach S (TCPSender c t i r) sent s" and "length S + 2 < 2 ^ 32"
  shows "prefix (sent @ bs_buffer (tx_stream s)) S \<and>
    unat (tx_next_seqno s) = (if tx_SYN_sent s then 1 else 0) + length sent + (if tx_FIN_sent s then 1 else 0) \<and>
    unat (tx_bytes_in_flight s) = unat (tx_next_seqno s) - unat (tx_abs_ackno s) \<and>
    unat (tx_bytes_in_flight s) \<le> 65535 \<and>
    (tm_active (tx_timer s) \<longleftrightarrow> tx_segments_backup s \<noteq> []) \<and> \<not> tm_timer_expired (tx_timer s) \<and>
    (\<forall>seg \<in> set (tx_segments_out s). \<exists>n \<le> unat (tx_next_seqno s).
       seg_carries S (tx_isn s) n seg \<and> length (buf_str (seg_payload seg)) \<le> 1000)"
proof -
  have inv: "tx_inv S sent s" using tx_reach_inv [OF assms] .
  then have "tx_seqno_inv sent s" by (simp add: tx_inv_def)
  moreover have "\<forall>seg \<in> set (tx_segments_out s). \<exists>n \<le> unat (tx_next_seqno s).
       seg_carries S (tx_isn s) n seg \<and> length (buf_str (seg_payload seg)) \<le> 1000"
    using inv unfolding tx_inv_def tx_out_inv_def tx_seg_ok_def by blast
  ultimately show ?thesis
    using inv tx_bytes_in_flight_nat [of sent s]
    unfolding tx_inv_def tx_stream_inv_def tx_seqno_inv_def tx_backup_inv_def tm_timer_expired_def by simp
qed

theorem tx_invariant_witness: "unat (tx_next_seqno tx_example) = 1"
proof -
  have e: "tx_SYN_sent tx_example" "\<not> tx_FIN_sent tx_example" by code_simp+
  have "length [7, 8 :: u8] + 2 < 2 ^ 32" by simp
  from tx_invariant [OF tx_example_reach this] e show ?thesis by simp
qed

text \<open>
  \<open>tick\<close> never reads the front of an empty backup queue, whatever happened before.
\<close>

theorem tx_tick_defined:
  assumes "tx_reach S (TCPSender c t i r) sent s" and "length S + 2 < 2 ^ 32"
  shows "\<exists>s'. tx_tick s ms = Inr s'"
  using tx_tick_inv [OF tx_reach_inv [OF assms]] by blast

theorem tx_tick_defined_witness: "\<exists>s'. tx_tick tx_example_syn 5000 = Inr s'"
  by (rule tx_tick_defined [OF tx_example_syn_reach]) simp

text \<open>
  C12. Retransmission: with something outstanding, a tick that brings the elapsed time to the timeout
  queues the oldest outstanding segment once more and restarts the timer; the timeout doubles and the
  retransmission counts as one more in a row, unless the peer's window was zero. A tick that does not
  reach the timeout sends nothing.
\<close>

theorem tx_tick_retransmits:
  fixes ms :: u64
  assumes "tx_reach S (TCPSender c t i r) sent s" and "length S + 2 < 2 ^ 32" and "tx_segments_backup s \<noteq> []"
  defines "elapsed \<equiv> ucast (ucast (tm_time_passed (tx_timer s)) + ms :: u64) :: u32"
  shows "\<exists>s'. tx_tick s ms = Inr s' \<and>
    (if elapsed \<ge> tm_RTO (tx_timer s)
     then tx_segments_out s' = tx_segments_out s @ [hd (tx_segments_backup s)] \<and>
       tx_retransmission_timeout s' = tx_retransmission_timeout s * (if tx_window_size s \<noteq> 0 then 2 else 1) \<and>
       tx_consecutive_retransmissions s' = tx_consecutive_retransmissions s + (if tx_window_size s \<noteq> 0 then 1 else 0) \<and>
       tm_RTO (tx_timer s') = tx_retransmission_timeout s' \<and> tm_time_passed (tx_timer s') = 0
     else tx_segments_out s' = tx_segments_out s \<and> tm_time_passed (tx_timer s') = elapsed)"
proof -
  have inv: "tx_inv S sent s" using tx_reach_inv [OF assms(1,2)] .
  have act: "tm_active (tx_timer s)" "\<not> tm_expired (tx_timer s)"
    using inv assms(3) by (simp_all add: tx_inv_def tx_backup_inv_def)
  then have exp: "tm_expired (tm_tick (tx_timer s) ms) \<longleftrightarrow> elapsed \<ge> tm_RTO (tx_timer s)"
    "tm_time_passed (tm_tick (tx_timer s) ms) = elapsed"
    by (simp_all add: tm_tick_def Let_def elapsed_def)
  show ?thesis
    using inv
  proof (cases rule: tx_tick_cases [where ms = ms])
    case idle
    then show ?thesis using assms(3) by simp
  next
    case wait
    then show ?thesis using exp by simp
  next
    case expire
    then show ?thesis using exp(1) by (simp add: Let_def tm_start_timer_def)
  qed
qed

theorem tx_tick_retransmits_witness:
  "\<exists>s'. tx_tick tx_example_syn 1000 = Inr s' \<and> tx_retransmission_timeout s' = 2000"
proof -
  have h: "tx_segments_backup tx_example_syn \<noteq> []" by code_simp
  have e: "tm_RTO (tx_timer tx_example_syn) = 1000" "tm_time_passed (tx_timer tx_example_syn) = 0"
    "tx_retransmission_timeout tx_example_syn = 1000" "tx_window_size tx_example_syn = 1" by code_simp+
  have "length [7, 8 :: u8] + 2 < 2 ^ 32" by simp
  from tx_tick_retransmits [OF tx_example_syn_reach this h, of 1000] show ?thesis by (auto simp: e)
qed

text \<open>
  C10. \<open>fill_window\<close> sends exactly what the window allows: once the SYN is out, it appends segments to
  the queue that carry the next bytes of the stream in order (at most 1000 each), the outstanding
  numbers grow to at most the advertised window (a zero window counts as one), and if it stops short
  of the window there is nothing left to send.
\<close>

theorem tx_fill_window_fills:
  assumes "tx_reach S (TCPSender c t i r) sent s" and "length S + 2 < 2 ^ 32" and "tx_SYN_sent s"
  defines "s' \<equiv> tx_fill_window s"
  shows "\<exists>new. tx_segments_out s' = tx_segments_out s @ new \<and>
    concat (map (\<lambda>seg. buf_str (seg_payload seg)) new) @ bs_buffer (tx_stream s') = bs_buffer (tx_stream s) \<and>
    (\<forall>seg \<in> set new. length (buf_str (seg_payload seg)) \<le> 1000) \<and>
    unat (tx_bytes_in_flight s') \<le> max (unat (tx_bytes_in_flight s)) (max (unat (tx_window_size s)) 1) \<and>
    (unat (tx_bytes_in_flight s') < max (unat (tx_window_size s)) 1 \<longrightarrow>
       tx_FIN_sent s' \<or> bs_error (tx_stream s') \<or> bs_buffer (tx_stream s') = [] \<and> \<not> bs_input_end (tx_stream s'))"
proof -
  have inv: "tx_inv S sent s" using tx_reach_inv [OF assms(1,2)] .
  obtain new where new: "tx_filled s (tx_window s - (unat (tx_next_seqno s) - unat (tx_abs_ackno s))) new s'"
    "tx_inv S (sent @ concat (map seg_data new)) s'"
    using tx_fill_window_spec [OF inv assms(3)] unfolding s'_def by blast
  have fl: "unat (tx_bytes_in_flight s) = unat (tx_next_seqno s) - unat (tx_abs_ackno s)"
    "unat (tx_bytes_in_flight s') = unat (tx_next_seqno s') - unat (tx_abs_ackno s')"
    "unat (tx_abs_ackno s) \<le> unat (tx_next_seqno s)"
    using inv new(2) tx_bytes_in_flight_nat unfolding tx_inv_def tx_seqno_inv_def by blast+
  show ?thesis
    using new(1) unfolding tx_filled_def fl tx_drained_def tx_window_def [symmetric]
    by (intro exI [of _ new]) (auto simp: fl(3))
qed

theorem tx_fill_window_fills_witness:
  "unat (tx_bytes_in_flight (tx_fill_window tx_example)) \<le> 10"
proof -
  have e: "tx_SYN_sent tx_example" "unat (tx_bytes_in_flight tx_example) = 0" "unat (tx_window_size tx_example) = 10"
    by code_simp+
  have "length [7, 8 :: u8] + 2 < 2 ^ 32" by simp
  from tx_fill_window_fills [OF tx_example_reach this e(1)] e(2,3) show ?thesis by auto
qed

text \<open>
  C11. \<open>ack_received\<close>: an acknowledgment beyond what was sent, or behind what is already acknowledged,
  does not move the position; afterwards the backup queue is the old one without the leading
  segments that are acknowledged completely, in particular it is empty when everything is
  acknowledged, and the first segment left still has an unacknowledged number.
\<close>

theorem tx_ack_received_pops:
  fixes ackno :: wrapping_int32 and window_size :: u16
  assumes "tx_reach S (TCPSender c t i r) sent s" and "length S + 2 < 2 ^ 32"
  defines "a \<equiv> unwrap ackno (tx_isn s) (tx_abs_ackno s)" and "s' \<equiv> tx_ack_received s ackno window_size"
  shows "tx_abs_ackno s' = (if a > tx_abs_ackno s \<and> a \<le> tx_next_seqno s then a else tx_abs_ackno s) \<and>
    tx_window_size s' = window_size \<and>
    (\<exists>acked n. tx_segments_backup s = acked @ tx_segments_backup s' \<and>
       n = unat (tx_next_seqno s) - sum_list (map (\<lambda>x. unat (seg_length_in_sequence_space x)) (tx_segments_backup s')) \<and>
       n \<le> unat (tx_abs_ackno s') \<and>
       (tx_segments_backup s' \<noteq> [] \<longrightarrow>
          unat (tx_abs_ackno s') < n + unat (seg_length_in_sequence_space (hd (tx_segments_backup s'))))) \<and>
    (tm_active (tx_timer s') \<longleftrightarrow> tx_abs_ackno s' \<noteq> tx_next_seqno s)"
proof -
  have inv: "tx_inv S sent s" using tx_reach_inv [OF assms(1,2)] .
  note spec = tx_ack_received_spec [OF inv, of ackno window_size, folded a_def s'_def]
  obtain acked where acked: "tx_segments_backup s = acked @ tx_segments_backup s'" using spec(6) by blast
  obtain n where n: "seg_chain S (tx_isn s') n (tx_segments_backup s') (unat (tx_next_seqno s'))"
    "n \<le> unat (tx_abs_ackno s')"
    "tx_segments_backup s' \<noteq> [] \<longrightarrow> unat (tx_abs_ackno s') < n + slen (hd (tx_segments_backup s'))"
    "tm_active (tx_timer s') \<longleftrightarrow> tx_segments_backup s' \<noteq> []"
    using spec(1) unfolding tx_inv_def tx_backup_inv_def by blast
  have len: "unat (tx_next_seqno s) = n + sum_list (map slen (tx_segments_backup s'))"
    using seg_chain_length [OF n(1)] spec(4) by simp
  have le: "unat (tx_abs_ackno s') \<le> unat (tx_next_seqno s)"
    using spec(1,4) by (simp add: tx_inv_def tx_seqno_inv_def)
  have "tx_segments_backup s' \<noteq> [] \<longleftrightarrow> tx_abs_ackno s' \<noteq> tx_next_seqno s"
    using n(2,3) le len by (cases "tx_segments_backup s'") (auto simp: word_unat_eq_iff)
  then show ?thesis using spec(2,3) acked n(2-4) len by auto
qed

theorem tx_ack_received_pops_witness:
  "tx_abs_ackno (tx_ack_received tx_example_syn (WrappingInt32 6) 10) = 1"
proof -
  have e: "unwrap (WrappingInt32 6) (tx_isn tx_example_syn) (tx_abs_ackno tx_example_syn) = 1"
    "tx_abs_ackno tx_example_syn = 0" "tx_next_seqno tx_example_syn = 1" by code_simp+
  have "length [7, 8 :: u8] + 2 < 2 ^ 32" by simp
  from tx_ack_received_pops [OF tx_example_syn_reach this, of "WrappingInt32 6" 10] e show ?thesis by simp
qed

end
