(* ===== verification/TCP_Connection.thy ===== *)
theory TCP_Connection
  imports TCP_Sender
begin

text \<open>
  \<open>TCPConnection\<close> (tcp_connection.hh, tcp_connection.cc) and the summary \<open>TCPState\<close>
  (tcp_helpers/tcp_state.hh, tcp_state.cc): a sender and a receiver joined into one endpoint, with
  acknowledgments on every outgoing segment, reset, and the two ways to shut down.
\<close>

section \<open>TCPState\<close>

datatype tcp_official_state =
    LISTEN | SYN_RCVD | SYN_SENT | ESTABLISHED | CLOSE_WAIT | LAST_ACK | FIN_WAIT_1 | FIN_WAIT_2
  | CLOSING | TIME_WAIT | CLOSED | RESET

definition Receiver_ERROR :: string where "Receiver_ERROR = ''error (connection was reset)''"
definition Receiver_LISTEN :: string where "Receiver_LISTEN = ''waiting for SYN: ackno is empty''"
definition Receiver_SYN_RECV :: string where
  "Receiver_SYN_RECV = ''SYN received (ackno exists), and input to stream hasn't ended''"
definition Receiver_FIN_RECV :: string where "Receiver_FIN_RECV = ''input to stream has ended''"

definition Sender_ERROR :: string where "Sender_ERROR = ''error (connection was reset)''"
definition Sender_CLOSED :: string where "Sender_CLOSED = ''waiting for stream to begin (no SYN sent)''"
definition Sender_SYN_SENT :: string where "Sender_SYN_SENT = ''stream started but nothing acknowledged''"
definition Sender_SYN_ACKED :: string where "Sender_SYN_ACKED = ''stream ongoing''"
definition Sender_FIN_SENT :: string where
  "Sender_FIN_SENT = ''stream finished (FIN sent) but not fully acknowledged''"
definition Sender_FIN_ACKED :: string where "Sender_FIN_ACKED = ''stream finished and fully acknowledged''"

lemmas summary_defs = Receiver_ERROR_def Receiver_LISTEN_def Receiver_SYN_RECV_def Receiver_FIN_RECV_def
  Sender_ERROR_def Sender_CLOSED_def Sender_SYN_SENT_def Sender_SYN_ACKED_def Sender_FIN_SENT_def
  Sender_FIN_ACKED_def

record tcp_state =
  ts_sender :: string
  ts_receiver :: string
  ts_active :: bool
  ts_linger_after_streams_finish :: bool

definition ts_equal :: "tcp_state \<Rightarrow> tcp_state \<Rightarrow> bool" where
  "ts_equal a b \<longleftrightarrow> ts_active a = ts_active b \<and>
     ts_linger_after_streams_finish a = ts_linger_after_streams_finish b \<and>
     ts_sender a = ts_sender b \<and> ts_receiver a = ts_receiver b"

definition ts_name :: "tcp_state \<Rightarrow> string" where
  "ts_name t = ''sender=`'' @ ts_sender t @ ''`, receiver=`'' @ ts_receiver t @ ''`, active='' @
     (if ts_active t then ''1'' else ''0'') @ '', linger_after_streams_finish='' @
     (if ts_linger_after_streams_finish t then ''1'' else ''0'')"

fun ts_of_official :: "tcp_official_state \<Rightarrow> tcp_state" where
  "ts_of_official LISTEN = \<lparr>ts_sender = Sender_CLOSED, ts_receiver = Receiver_LISTEN, ts_active = True, ts_linger_after_streams_finish = True\<rparr>"
| "ts_of_official SYN_RCVD = \<lparr>ts_sender = Sender_SYN_SENT, ts_receiver = Receiver_SYN_RECV, ts_active = True, ts_linger_after_streams_finish = True\<rparr>"
| "ts_of_official SYN_SENT = \<lparr>ts_sender = Sender_SYN_SENT, ts_receiver = Receiver_LISTEN, ts_active = True, ts_linger_after_streams_finish = True\<rparr>"
| "ts_of_official ESTABLISHED = \<lparr>ts_sender = Sender_SYN_ACKED, ts_receiver = Receiver_SYN_RECV, ts_active = True, ts_linger_after_streams_finish = True\<rparr>"
| "ts_of_official CLOSE_WAIT = \<lparr>ts_sender = Sender_SYN_ACKED, ts_receiver = Receiver_FIN_RECV, ts_active = True, ts_linger_after_streams_finish = False\<rparr>"
| "ts_of_official LAST_ACK = \<lparr>ts_sender = Sender_FIN_SENT, ts_receiver = Receiver_FIN_RECV, ts_active = True, ts_linger_after_streams_finish = False\<rparr>"
| "ts_of_official CLOSING = \<lparr>ts_sender = Sender_FIN_SENT, ts_receiver = Receiver_FIN_RECV, ts_active = True, ts_linger_after_streams_finish = True\<rparr>"
| "ts_of_official FIN_WAIT_1 = \<lparr>ts_sender = Sender_FIN_SENT, ts_receiver = Receiver_SYN_RECV, ts_active = True, ts_linger_after_streams_finish = True\<rparr>"
| "ts_of_official FIN_WAIT_2 = \<lparr>ts_sender = Sender_FIN_ACKED, ts_receiver = Receiver_SYN_RECV, ts_active = True, ts_linger_after_streams_finish = True\<rparr>"
| "ts_of_official TIME_WAIT = \<lparr>ts_sender = Sender_FIN_ACKED, ts_receiver = Receiver_FIN_RECV, ts_active = True, ts_linger_after_streams_finish = True\<rparr>"
| "ts_of_official RESET = \<lparr>ts_sender = Sender_ERROR, ts_receiver = Receiver_ERROR, ts_active = False, ts_linger_after_streams_finish = False\<rparr>"
| "ts_of_official CLOSED = \<lparr>ts_sender = Sender_FIN_ACKED, ts_receiver = Receiver_FIN_RECV, ts_active = False, ts_linger_after_streams_finish = False\<rparr>"

definition ts_receiver_summary :: "tcp_receiver \<Rightarrow> string" where
  "ts_receiver_summary r =
    (if bs_error (rx_stream_out r) then Receiver_ERROR
     else if rx_ackno r = None then Receiver_LISTEN
     else if bs_input_ended (rx_stream_out r) then Receiver_FIN_RECV
     else Receiver_SYN_RECV)"

definition ts_sender_summary :: "tcp_sender \<Rightarrow> string" where
  "ts_sender_summary s =
    (if bs_error (tx_stream s) then Sender_ERROR
     else if tx_next_seqno s = 0 then Sender_CLOSED
     else if tx_next_seqno s = tx_bytes_in_flight s then Sender_SYN_SENT
     else if \<not> bs_eof (tx_stream s) then Sender_SYN_ACKED
     else if tx_next_seqno s < bs_bytes_written (tx_stream s) + 2 then Sender_SYN_ACKED
     else if tx_bytes_in_flight s \<noteq> 0 then Sender_FIN_SENT
     else Sender_FIN_ACKED)"

definition TCPState :: "tcp_sender \<Rightarrow> tcp_receiver \<Rightarrow> bool \<Rightarrow> bool \<Rightarrow> tcp_state" where
  "TCPState sender receiver active linger =
    \<lparr>ts_sender = ts_sender_summary sender, ts_receiver = ts_receiver_summary receiver,
     ts_active = active, ts_linger_after_streams_finish = (if active then linger else False)\<rparr>"

section \<open>TCPConnection\<close>

record tcp_connection =
  cn_cfg :: tcp_config
  cn_receiver :: tcp_receiver
  cn_sender :: tcp_sender
  cn_segments_out :: "tcp_segment list"
  cn_linger_after_streams_finish :: bool
  cn_lingering :: bool
  cn_time_since_last_segrecv :: u64
  cn_active :: bool

text \<open>As in \<open>TCPSender\<close>, the random initial sequence number is an argument.\<close>

definition TCPConnection :: "tcp_config \<Rightarrow> u32 \<Rightarrow> tcp_connection" where
  "TCPConnection cfg random =
    \<lparr>cn_cfg = cfg, cn_receiver = TCPReceiver (cfg_recv_capacity cfg),
     cn_sender = TCPSender (cfg_send_capacity cfg) (cfg_rt_timeout cfg) (cfg_fixed_isn cfg) random,
     cn_segments_out = [], cn_linger_after_streams_finish = True, cn_lingering = False,
     cn_time_since_last_segrecv = 0, cn_active = True\<rparr>"

definition cn_remaining_outbound_capacity :: "tcp_connection \<Rightarrow> u64" where
  "cn_remaining_outbound_capacity c = bs_remaining_capacity (tx_stream (cn_sender c))"

definition cn_bytes_in_flight :: "tcp_connection \<Rightarrow> u64" where
  "cn_bytes_in_flight c = tx_bytes_in_flight (cn_sender c)"

definition cn_unassembled_bytes :: "tcp_connection \<Rightarrow> u64" where
  "cn_unassembled_bytes c = rx_unassembled_bytes (cn_receiver c)"

definition cn_inbound_stream :: "tcp_connection \<Rightarrow> byte_stream" where
  "cn_inbound_stream c = rx_stream_out (cn_receiver c)"

definition cn_state :: "tcp_connection \<Rightarrow> tcp_state" where
  "cn_state c = TCPState (cn_sender c) (cn_receiver c) (cn_active c) (cn_linger_after_streams_finish c)"

definition cn_handle_sender_segment :: "tcp_connection \<Rightarrow> tcp_segment \<Rightarrow> tcp_segment" where
  "cn_handle_sender_segment c seg =
    (let h = seg_header seg;
         h = (case rx_ackno (cn_receiver c) of
                Some ackno \<Rightarrow> h\<lparr>th_ack := True, th_ackno := ackno\<rparr>
              | None \<Rightarrow> h);
         w = rx_window_size (cn_receiver c)
     in seg\<lparr>seg_header := h\<lparr>th_win := (if w > 65535 then 65535 else ucast w)\<rparr>\<rparr>)"

fun cn_send_queue :: "tcp_connection \<Rightarrow> tcp_segment list \<Rightarrow> tcp_connection" where
  "cn_send_queue c [] = c\<lparr>cn_sender := (cn_sender c)\<lparr>tx_segments_out := []\<rparr>\<rparr>"
| "cn_send_queue c (seg # segs) =
    cn_send_queue (c\<lparr>cn_sender := (cn_sender c)\<lparr>tx_segments_out := segs\<rparr>,
                     cn_segments_out := cn_segments_out c @ [cn_handle_sender_segment c seg]\<rparr>) segs"

definition cn_send_all :: "tcp_connection \<Rightarrow> tcp_connection" where
  "cn_send_all c = cn_send_queue c (tx_segments_out (cn_sender c))"

definition cn_follow_prereq :: "tcp_connection \<Rightarrow> bool \<times> tcp_connection" where
  "cn_follow_prereq c =
    (let inbound = rx_stream_out (cn_receiver c); outbound = tx_stream (cn_sender c);
         prereq1 = bs_input_ended inbound;
         prereq2 = (bs_eof outbound \<and> tx_next_seqno (cn_sender c) = bs_bytes_written outbound + 2);
         prereq3 = (cn_bytes_in_flight c = 0);
         c = (if bs_eof inbound \<and> \<not> tx_FIN_sent (cn_sender c)
              then c\<lparr>cn_linger_after_streams_finish := False\<rparr> else c)
     in (prereq1 \<and> prereq2 \<and> prereq3, c))"

text \<open>The receiver with its inbound stream in the error state.\<close>

definition rx_set_error :: "tcp_receiver \<Rightarrow> tcp_receiver" where
  "rx_set_error r =
    (let ra = rx_reassembler r in r\<lparr>rx_reassembler := ra\<lparr>sr_output := bs_set_error (sr_output ra)\<rparr>\<rparr>)"

definition cn_send_rst :: "tcp_connection \<Rightarrow> tcp_connection" where
  "cn_send_rst c =
    (let s = tx_fill_window (cn_sender c);
         s = (case tx_segments_out s of
                [] \<Rightarrow> tx_send_empty_segment s True
              | seg # segs \<Rightarrow>
                  s\<lparr>tx_segments_out := seg\<lparr>seg_header := (seg_header seg)\<lparr>th_rst := True\<rparr>\<rparr> # segs\<rparr>)
     in cn_send_all (c\<lparr>cn_sender := s\<rparr>))"

definition cn_unclean_shutdown :: "tcp_connection \<Rightarrow> bool \<Rightarrow> tcp_connection" where
  "cn_unclean_shutdown c rst_sent =
    (let c = (if rst_sent then cn_send_rst c else c)
     in c\<lparr>cn_receiver := rx_set_error (cn_receiver c),
          cn_sender := (cn_sender c)\<lparr>tx_stream := bs_set_error (tx_stream (cn_sender c))\<rparr>,
          cn_active := False\<rparr>)"

text \<open>The parts of \<open>segment_received\<close>: the receiver's, the sender's, and the answer.\<close>

definition cn_receive :: "tcp_connection \<Rightarrow> tcp_segment \<Rightarrow> tcp_connection" where
  "cn_receive c seg =
    c\<lparr>cn_time_since_last_segrecv := 0, cn_receiver := rx_segment_received (cn_receiver c) seg\<rparr>"

definition cn_take_ack :: "tcp_connection \<Rightarrow> tcp_header \<Rightarrow> tcp_connection" where
  "cn_take_ack c h =
    (let c = (if th_ack h then c\<lparr>cn_sender := tx_ack_received (cn_sender c) (th_ackno h) (th_win h)\<rparr> else c)
     in snd (cn_follow_prereq c))"

definition cn_answer_empty :: "tcp_connection \<Rightarrow> tcp_header \<Rightarrow> tcp_connection" where
  "cn_answer_empty c h =
    cn_send_all
      (case rx_ackno (cn_receiver c) of
         None \<Rightarrow> c
       | Some ackno \<Rightarrow>
           if wi_eq (th_seqno h) (wi_minus_u32 ackno 1)
           then c\<lparr>cn_sender := tx_send_empty_segment (cn_sender c) False\<rparr> else c)"

definition cn_answer :: "tcp_connection \<Rightarrow> tcp_header \<Rightarrow> tcp_connection" where
  "cn_answer c h =
    (let c = (if th_syn h \<and> \<not> th_ack h then c\<lparr>cn_sender := tx_fill_window (cn_sender c)\<rparr> else c);
         c = (if tx_segments_out (cn_sender c) = []
              then c\<lparr>cn_sender := tx_send_empty_segment (cn_sender c) False\<rparr> else c)
     in cn_send_all c)"

definition cn_segment_received :: "tcp_connection \<Rightarrow> tcp_segment \<Rightarrow> tcp_connection" where
  "cn_segment_received c seg =
    (if \<not> cn_active c then c
     else
       let h = seg_header seg; c = cn_receive c seg
       in if th_rst h then cn_unclean_shutdown c False
          else let c = cn_take_ack c h
               in if seg_length_in_sequence_space seg = 0 then cn_answer_empty c h else cn_answer c h)"

definition cn_write :: "tcp_connection \<Rightarrow> bytes \<Rightarrow> u64 \<times> tcp_connection" where
  "cn_write c data =
    (let (written_size, s) = tx_stream_write (cn_sender c) data;
         s = tx_fill_window s
     in (written_size, cn_send_all (c\<lparr>cn_sender := s\<rparr>)))"

text \<open>The end of \<open>tick\<close>: shut down cleanly when both streams are finished, at once or after lingering.\<close>

definition cn_try_close :: "tcp_connection \<Rightarrow> tcp_connection" where
  "cn_try_close c =
    (let (prereqs, c) = cn_follow_prereq c
     in if \<not> prereqs then c
        else
          let c = (if \<not> cn_linger_after_streams_finish c then c\<lparr>cn_active := False\<rparr> else c)
          in if cn_linger_after_streams_finish c \<and>
                cn_time_since_last_segrecv c \<ge> 10 * ucast (cfg_rt_timeout (cn_cfg c))
             then c\<lparr>cn_lingering := False, cn_active := False\<rparr>
             else c)"

definition cn_tick :: "tcp_connection \<Rightarrow> u64 \<Rightarrow> exn + tcp_connection" where
  "cn_tick c ms_since_last_tick =
    (case tx_tick (cn_sender c) ms_since_last_tick of
       Inl e \<Rightarrow> Inl e
     | Inr s \<Rightarrow>
         let c = c\<lparr>cn_sender := s,
                   cn_time_since_last_segrecv := cn_time_since_last_segrecv c + ms_since_last_tick\<rparr>
         in if tx_consecutive_retransmissions s > MAX_RETX_ATTEMPTS then Inr (cn_unclean_shutdown c True)
            else
              let c = (if tx_SYN_sent s then c\<lparr>cn_sender := tx_fill_window s\<rparr> else c)
              in Inr (cn_try_close (cn_send_all c)))"

definition cn_end_input_stream :: "tcp_connection \<Rightarrow> tcp_connection" where
  "cn_end_input_stream c =
    (let s = tx_stream_end_input (cn_sender c);
         s = tx_fill_window s
     in cn_send_all (c\<lparr>cn_sender := s\<rparr>))"

definition cn_connect :: "tcp_connection \<Rightarrow> tcp_connection" where
  "cn_connect c = cn_send_all (c\<lparr>cn_sender := tx_fill_window (cn_sender c)\<rparr>)"

definition cn_destroy :: "tcp_connection \<Rightarrow> tcp_connection" where
  "cn_destroy c = (if cn_active c then cn_unclean_shutdown c True else c)"

text \<open>The application reads from \<open>inbound_stream()\<close>, and the owner takes segments off \<open>segments_out()\<close>.\<close>

definition cn_inbound_read :: "tcp_connection \<Rightarrow> u64 \<Rightarrow> bytes \<times> tcp_connection" where
  "cn_inbound_read c n = (let (out, r) = rx_stream_read (cn_receiver c) n in (out, c\<lparr>cn_receiver := r\<rparr>))"

section \<open>Lemmas\<close>

text \<open>Only the receiver decides how a segment is stamped.\<close>

lemma cn_handle_sender_segment_cong:
  "cn_receiver c = cn_receiver c' \<Longrightarrow> cn_handle_sender_segment c seg = cn_handle_sender_segment c' seg"
  by (simp add: cn_handle_sender_segment_def)

lemma cn_send_queue_eq:
  "cn_send_queue c segs = c\<lparr>cn_sender := (cn_sender c)\<lparr>tx_segments_out := []\<rparr>,
     cn_segments_out := cn_segments_out c @ map (cn_handle_sender_segment c) segs\<rparr>"
proof (induction segs arbitrary: c)
  case (Cons seg segs)
  have "cn_handle_sender_segment (c\<lparr>cn_sender := s, cn_segments_out := q\<rparr>) = cn_handle_sender_segment c" for s q
    by (rule ext, rule cn_handle_sender_segment_cong) simp
  then show ?case by (simp add: Cons.IH)
qed simp

lemma cn_send_all_eq:
  "cn_send_all c = c\<lparr>cn_sender := (cn_sender c)\<lparr>tx_segments_out := []\<rparr>,
     cn_segments_out := cn_segments_out c @ map (cn_handle_sender_segment c) (tx_segments_out (cn_sender c))\<rparr>"
  by (simp add: cn_send_all_def cn_send_queue_eq)

lemma cn_follow_prereq_snd:
  "snd (cn_follow_prereq c) = c\<lparr>cn_linger_after_streams_finish := cn_linger_after_streams_finish c \<and>
     \<not> (bs_eof (rx_stream_out (cn_receiver c)) \<and> \<not> tx_FIN_sent (cn_sender c))\<rparr>"
  by (simp add: cn_follow_prereq_def Let_def)

text \<open>What an outgoing segment says about the receiver.\<close>

definition cn_stamped :: "tcp_receiver \<Rightarrow> tcp_segment \<Rightarrow> bool" where
  "cn_stamped r seg \<longleftrightarrow>
     (case rx_ackno r of
        Some ackno \<Rightarrow> th_ack (seg_header seg) \<and> th_ackno (seg_header seg) = ackno
      | None \<Rightarrow> \<not> th_ack (seg_header seg)) \<and>
     unat (th_win (seg_header seg)) = min (unat (rx_window_size r)) 65535"

lemma cn_handle_sender_segment_stamped:
  "\<not> th_ack (seg_header seg) \<Longrightarrow> cn_stamped (cn_receiver c) (cn_handle_sender_segment c seg)"
  by (auto simp: cn_stamped_def cn_handle_sender_segment_def Let_def word_less_nat_alt unat_ucast_mod
      split: option.splits)

lemma cn_handle_sender_segment_simps [simp]:
  "seg_payload (cn_handle_sender_segment c seg) = seg_payload seg"
  "th_seqno (seg_header (cn_handle_sender_segment c seg)) = th_seqno (seg_header seg)"
  "th_syn (seg_header (cn_handle_sender_segment c seg)) = th_syn (seg_header seg)"
  "th_fin (seg_header (cn_handle_sender_segment c seg)) = th_fin (seg_header seg)"
  "th_rst (seg_header (cn_handle_sender_segment c seg)) = th_rst (seg_header seg)"
  "th_doff (seg_header (cn_handle_sender_segment c seg)) = th_doff (seg_header seg)"
  by (auto simp: cn_handle_sender_segment_def Let_def split: option.splits)

section \<open>Invariant\<close>

text \<open>
  \<open>W\<close> is what the application has written so far, a prefix of \<open>S\<close>. Between two calls the sender's own
  queue is empty: everything has been stamped and moved to the connection's queue.
\<close>

definition cn_sender_inv :: "bytes \<Rightarrow> bytes \<Rightarrow> tcp_sender \<Rightarrow> bool" where
  "cn_sender_inv S W s \<longleftrightarrow> (\<exists>sent. tx_inv S sent s \<and> sent @ bs_buffer (tx_stream s) = W)"

text \<open>A segment as it leaves the connection: the sender's, with the acknowledgment filled in.\<close>

definition cn_seg_ok :: "bytes \<Rightarrow> tcp_sender \<Rightarrow> tcp_segment \<Rightarrow> bool" where
  "cn_seg_ok S s seg \<longleftrightarrow> (\<exists>n \<le> unat (tx_next_seqno s).
     tx_seg_ok S (tx_isn s) n (seg\<lparr>seg_header := (seg_header seg)\<lparr>th_ack := False\<rparr>\<rparr>))"

definition cn_inv :: "bytes \<Rightarrow> bytes \<Rightarrow> tcp_connection \<Rightarrow> bool" where
  "cn_inv S W c \<longleftrightarrow> cn_sender_inv S W (cn_sender c) \<and> tx_segments_out (cn_sender c) = [] \<and>
     (\<forall>seg \<in> set (cn_segments_out c). cn_seg_ok S (cn_sender c) seg)"

lemma tx_fill_window_mono:
  assumes "tx_inv S sent s"
  shows "unat (tx_next_seqno s) \<le> unat (tx_next_seqno (tx_fill_window s))" and "tx_isn (tx_fill_window s) = tx_isn s"
proof -
  have "unat (tx_next_seqno s) \<le> unat (tx_next_seqno (tx_fill_window s)) \<and> tx_isn (tx_fill_window s) = tx_isn s"
  proof (cases "tx_SYN_sent s")
    case True
    then show ?thesis using tx_fill_window_spec [OF assms] by (auto simp: tx_filled_def)
  next
    case False
    have "unat (tx_next_seqno s) = 0"
      using assms False by (auto simp: tx_inv_def tx_seqno_inv_def)
    then show ?thesis using False by (simp add: tx_fill_window_def)
  qed
  then show "unat (tx_next_seqno s) \<le> unat (tx_next_seqno (tx_fill_window s))" "tx_isn (tx_fill_window s) = tx_isn s"
    by simp_all
qed

lemma cn_sender_fill:
  assumes "cn_sender_inv S W s"
  shows "cn_sender_inv S W (tx_fill_window s)"
proof -
  obtain sent where s: "tx_inv S sent s" "sent @ bs_buffer (tx_stream s) = W"
    using assms by (auto simp: cn_sender_inv_def)
  show ?thesis
  proof (cases "tx_SYN_sent s")
    case False
    then have "tx_stream (tx_fill_window s) = tx_stream s" by (simp add: tx_fill_window_def)
    then show ?thesis using tx_syn_inv [OF s(1) False] s(2) by (auto simp: cn_sender_inv_def)
  next
    case True
    from tx_fill_window_spec [OF s(1) this] obtain new where
      "concat (map seg_data new) @ bs_buffer (tx_stream (tx_fill_window s)) = bs_buffer (tx_stream s)"
      "tx_inv S (sent @ concat (map seg_data new)) (tx_fill_window s)"
      unfolding tx_filled_def by blast
    then show ?thesis
      using s(2) unfolding cn_sender_inv_def by (intro exI [of _ "sent @ concat (map seg_data new)"]) simp
  qed
qed

lemma tx_ack_received_frame [simp]:
  "tx_stream (tx_ack_received s a w) = tx_stream s" "tx_isn (tx_ack_received s a w) = tx_isn s"
  "tx_next_seqno (tx_ack_received s a w) = tx_next_seqno s" "tx_FIN_sent (tx_ack_received s a w) = tx_FIN_sent s"
  "tx_segments_out (tx_ack_received s a w) = tx_segments_out s" "tx_SYN_sent (tx_ack_received s a w) = tx_SYN_sent s"
  by (simp_all add: tx_ack_received_def Let_def case_prod_beta)

lemma cn_sender_ack: "cn_sender_inv S W s \<Longrightarrow> cn_sender_inv S W (tx_ack_received s a w)"
  using tx_ack_received_spec(1) by (fastforce simp: cn_sender_inv_def)

lemma cn_sender_empty: "cn_sender_inv S W s \<Longrightarrow> cn_sender_inv S W (tx_send_empty_segment s rst)"
  using tx_send_empty_segment_inv by (fastforce simp: cn_sender_inv_def tx_send_empty_segment_def Let_def)

lemma cn_sender_tick:
  assumes "cn_sender_inv S W s"
  shows "\<exists>s'. tx_tick s ms = Inr s' \<and> cn_sender_inv S W s' \<and> tx_isn s' = tx_isn s \<and>
    tx_next_seqno s' = tx_next_seqno s \<and> tx_SYN_sent s' = tx_SYN_sent s \<and> tx_FIN_sent s' = tx_FIN_sent s \<and>
    tx_stream s' = tx_stream s \<and> tx_window_size s' = tx_window_size s \<and> tx_abs_ackno s' = tx_abs_ackno s"
proof -
  obtain sent where s: "tx_inv S sent s" "sent @ bs_buffer (tx_stream s) = W"
    using assms by (auto simp: cn_sender_inv_def)
  obtain s' where s': "tx_tick s ms = Inr s'" "tx_inv S sent s'" using tx_tick_inv [OF s(1)] by blast
  then have "tx_isn s' = tx_isn s \<and> tx_next_seqno s' = tx_next_seqno s \<and> tx_SYN_sent s' = tx_SYN_sent s \<and>
      tx_FIN_sent s' = tx_FIN_sent s \<and> tx_stream s' = tx_stream s \<and> tx_window_size s' = tx_window_size s \<and>
      tx_abs_ackno s' = tx_abs_ackno s"
    by (auto simp: tx_tick_def Let_def split: if_splits list.splits)
  then show ?thesis using s s' by (auto simp: cn_sender_inv_def)
qed

lemma cn_sender_out:
  assumes "cn_sender_inv S W s" and "\<forall>seg \<in> set out. \<exists>n \<le> unat (tx_next_seqno s). tx_seg_ok S (tx_isn s) n seg"
  shows "cn_sender_inv S W (s\<lparr>tx_segments_out := out\<rparr>)"
  using assms tx_inv_out by (fastforce simp: cn_sender_inv_def)

lemma cn_sender_out_ok:
  "cn_sender_inv S W s \<Longrightarrow> seg \<in> set (tx_segments_out s) \<Longrightarrow> \<exists>n \<le> unat (tx_next_seqno s). tx_seg_ok S (tx_isn s) n seg"
  by (auto simp: cn_sender_inv_def tx_inv_def tx_out_inv_def)

lemma cn_sender_error: "cn_sender_inv S W s \<Longrightarrow> cn_sender_inv S W (s\<lparr>tx_stream := bs_set_error (tx_stream s)\<rparr>)"
  using tx_stream_flags_inv(2) by (fastforce simp: cn_sender_inv_def)

lemma cn_sender_end: "cn_sender_inv S S s \<Longrightarrow> cn_sender_inv S S (tx_stream_end_input s)"
  using tx_stream_flags_inv(1) by (fastforce simp: cn_sender_inv_def tx_stream_end_input_def)
text \<open>The same without the claim about the sender's queue: what holds inside a handler.\<close>

definition cn_busy :: "bytes \<Rightarrow> bytes \<Rightarrow> tcp_connection \<Rightarrow> bool" where
  "cn_busy S W c \<longleftrightarrow> cn_sender_inv S W (cn_sender c) \<and> (\<forall>seg \<in> set (cn_segments_out c). cn_seg_ok S (cn_sender c) seg)"

lemma cn_inv_busy: "cn_inv S W c \<longleftrightarrow> cn_busy S W c \<and> tx_segments_out (cn_sender c) = []"
  by (auto simp: cn_inv_def cn_busy_def)

lemma cn_busy_frame [simp]:
  "cn_busy S W (c\<lparr>cn_receiver := r\<rparr>) = cn_busy S W c"
  "cn_busy S W (c\<lparr>cn_linger_after_streams_finish := b\<rparr>) = cn_busy S W c"
  "cn_busy S W (c\<lparr>cn_lingering := b\<rparr>) = cn_busy S W c"
  "cn_busy S W (c\<lparr>cn_time_since_last_segrecv := t\<rparr>) = cn_busy S W c"
  "cn_busy S W (c\<lparr>cn_active := b\<rparr>) = cn_busy S W c"
  by (simp_all add: cn_busy_def)

lemma cn_busy_sender:
  assumes "cn_busy S W c" and "cn_sender_inv S W' s" and "tx_isn s = tx_isn (cn_sender c)"
    and "unat (tx_next_seqno (cn_sender c)) \<le> unat (tx_next_seqno s)"
  shows "cn_busy S W' (c\<lparr>cn_sender := s\<rparr>)"
  using assms by (auto simp: cn_busy_def cn_seg_ok_def intro: order_trans)

lemma cn_busy_fill: "cn_busy S W c \<Longrightarrow> cn_busy S W (c\<lparr>cn_sender := tx_fill_window (cn_sender c)\<rparr>)"
  using tx_fill_window_mono cn_sender_fill [of S W "cn_sender c"]
  by (intro cn_busy_sender [of S W]) (auto simp: cn_busy_def cn_sender_inv_def)

lemma cn_busy_ack: "cn_busy S W c \<Longrightarrow> cn_busy S W (c\<lparr>cn_sender := tx_ack_received (cn_sender c) a w\<rparr>)"
  using cn_sender_ack [of S W "cn_sender c"] by (intro cn_busy_sender [of S W]) (simp_all add: cn_busy_def)

lemma cn_busy_empty: "cn_busy S W c \<Longrightarrow> cn_busy S W (c\<lparr>cn_sender := tx_send_empty_segment (cn_sender c) rst\<rparr>)"
  using cn_sender_empty [of S W "cn_sender c"]
  by (intro cn_busy_sender [of S W]) (simp_all add: cn_busy_def tx_send_empty_segment_def Let_def)

lemma cn_stamp_ok:
  assumes "tx_seg_ok S isn n seg"
  shows "tx_seg_ok S isn n (cn_handle_sender_segment c seg
    \<lparr>seg_header := (seg_header (cn_handle_sender_segment c seg))\<lparr>th_ack := False\<rparr>\<rparr>)"
  using assms by (simp add: tx_seg_ok_def seg_carries_def seg_index_def Let_def)

lemma cn_send_all_inv:
  assumes "cn_busy S W c"
  shows "cn_inv S W (cn_send_all c)"
proof -
  have "cn_seg_ok S (cn_sender c) (cn_handle_sender_segment c seg)" if "seg \<in> set (tx_segments_out (cn_sender c))" for seg
    using assms that cn_sender_out_ok [of S W "cn_sender c" seg] cn_stamp_ok
    by (auto simp: cn_busy_def cn_seg_ok_def)
  then show ?thesis
    using assms cn_sender_out [of S W "cn_sender c" "[]"]
    by (auto simp: cn_inv_def cn_send_all_eq cn_busy_def cn_seg_ok_def)
qed

lemma cn_send_rst_inv:
  assumes "cn_busy S W c"
  shows "cn_inv S W (cn_send_rst c)"
proof -
  let ?s = "tx_fill_window (cn_sender c)"
  have f: "cn_busy S W (c\<lparr>cn_sender := ?s\<rparr>)" using assms by (rule cn_busy_fill)
  show ?thesis
  proof (cases "tx_segments_out ?s")
    case Nil
    then have "cn_busy S W (c\<lparr>cn_sender := tx_send_empty_segment ?s True\<rparr>)"
      using cn_busy_empty [OF f, of True] by simp
    then show ?thesis using Nil by (simp add: cn_send_rst_def cn_send_all_inv)
  next
    case (Cons seg segs)
    let ?r = "seg\<lparr>seg_header := (seg_header seg)\<lparr>th_rst := True\<rparr>\<rparr>"
    have s: "cn_sender_inv S W ?s" using f by (simp add: cn_busy_def)
    have "\<exists>n \<le> unat (tx_next_seqno ?s). tx_seg_ok S (tx_isn ?s) n ?r"
      using cn_sender_out_ok [OF s, of seg] Cons
      by (auto simp: tx_seg_ok_def seg_carries_def seg_index_def Let_def)
    then have "cn_sender_inv S W (?s\<lparr>tx_segments_out := ?r # segs\<rparr>)"
      using s cn_sender_out_ok [OF s] Cons by (intro cn_sender_out) auto
    then have "cn_busy S W (c\<lparr>cn_sender := ?s, cn_sender := ?s\<lparr>tx_segments_out := ?r # segs\<rparr>\<rparr>)"
      by (intro cn_busy_sender [OF f]) simp_all
    then show ?thesis using Cons by (simp add: cn_send_rst_def cn_send_all_inv)
  qed
qed

lemma cn_unclean_shutdown_inv:
  assumes "cn_inv S W c"
  shows "cn_inv S W (cn_unclean_shutdown c b)"
proof -
  have "cn_inv S W (if b then cn_send_rst c else c)"
    using assms cn_send_rst_inv [of S W c] by (simp add: cn_inv_busy)
  moreover have "cn_inv S W (d\<lparr>cn_receiver := r, cn_sender := (cn_sender d)\<lparr>tx_stream := bs_set_error (tx_stream (cn_sender d))\<rparr>,
      cn_active := False\<rparr>)" if "cn_inv S W d" for d r
    using that cn_sender_error [of S W "cn_sender d"] by (auto simp: cn_inv_def cn_seg_ok_def)
  ultimately show ?thesis by (simp add: cn_unclean_shutdown_def Let_def)
qed

lemma cn_receive_inv: "cn_inv S W c \<Longrightarrow> cn_inv S W (cn_receive c seg)"
  by (simp add: cn_inv_busy cn_receive_def)

lemma cn_take_ack_busy: "cn_busy S W c \<Longrightarrow> cn_busy S W (cn_take_ack c h)"
  by (simp add: cn_take_ack_def cn_follow_prereq_snd cn_busy_ack)

lemma cn_answer_inv:
  "cn_busy S W c \<Longrightarrow> cn_inv S W (cn_answer_empty c h)"
  "cn_busy S W c \<Longrightarrow> cn_inv S W (cn_answer c h)"
proof -
  show "cn_inv S W (cn_answer_empty c h)" if "cn_busy S W c"
    unfolding cn_answer_empty_def using that
    by (intro cn_send_all_inv) (simp add: cn_busy_empty split: option.split)
next
  assume c: "cn_busy S W c"
  define d where "d = (if th_syn h \<and> \<not> th_ack h then c\<lparr>cn_sender := tx_fill_window (cn_sender c)\<rparr> else c)"
  have "cn_busy S W d" using c by (simp add: d_def cn_busy_fill)
  then show "cn_inv S W (cn_answer c h)"
    unfolding cn_answer_def d_def [symmetric] Let_def by (intro cn_send_all_inv) (simp add: cn_busy_empty)
qed

lemma cn_segment_received_inv:
  assumes "cn_inv S W c"
  shows "cn_inv S W (cn_segment_received c seg)"
proof -
  have 1: "cn_inv S W (cn_receive c seg)" using assms by (rule cn_receive_inv)
  then have 2: "cn_busy S W (cn_take_ack (cn_receive c seg) (seg_header seg))"
    by (intro cn_take_ack_busy) (simp add: cn_inv_busy)
  show ?thesis
    using assms cn_unclean_shutdown_inv [OF 1] cn_answer_inv [OF 2]
    by (simp add: cn_segment_received_def Let_def)
qed

lemma cn_try_close_inv: "cn_inv S W c \<Longrightarrow> cn_inv S W (cn_try_close c)"
  by (simp add: cn_try_close_def Let_def case_prod_beta cn_inv_busy cn_follow_prereq_snd)

lemma cn_write_busy:
  assumes "cn_inv S W c" and "tx_stream_write (cn_sender c) data = (n, s)" and "prefix (W @ take (unat n) data) S"
  shows "cn_busy S (W @ take (unat n) data) (c\<lparr>cn_sender := s\<rparr>)"
proof -
  let ?s = "cn_sender c"
  obtain sent where sent: "tx_inv S sent ?s" "sent @ bs_buffer (tx_stream ?s) = W"
    using assms(1) by (auto simp: cn_inv_def cn_sender_inv_def)
  have n: "n = fst (bs_write (tx_stream ?s) data)" "tx_stream s = snd (bs_write (tx_stream ?s) data)"
    "s = ?s\<lparr>tx_stream := snd (bs_write (tx_stream ?s) data)\<rparr>"
    using assms(2) by (auto simp: tx_stream_write_def Let_def case_prod_beta)
  have "bs_inv (tx_stream ?s)" using sent by (simp add: tx_inv_def tx_stream_inv_def)
  then have buf: "bs_buffer (tx_stream s) = bs_buffer (tx_stream ?s) @ take (unat n) data"
    unfolding n(1,2) by (rule stream.write_contents)
  then have "tx_inv S sent s"
    using tx_stream_write_inv [OF sent(1), of data] assms(2,3) sent(2) by (metis append.assoc snd_conv)
  then have "cn_sender_inv S (W @ take (unat n) data) s"
    using buf sent(2) unfolding cn_sender_inv_def by (intro exI [of _ sent]) simp
  then show ?thesis
    using assms(1) by (intro cn_busy_sender [of S W]) (simp_all add: cn_inv_busy n(3))
qed

lemma cn_write_inv:
  assumes "cn_inv S W c" and "tx_stream_write (cn_sender c) data = (n, s)" and "prefix (W @ take (unat n) data) S"
  shows "cn_inv S (W @ take (unat n) data) (snd (cn_write c data))" and "fst (cn_write c data) = n"
  using cn_busy_fill [OF cn_write_busy [OF assms]] by (simp_all add: cn_write_def assms(2) cn_send_all_inv)

lemma cn_end_busy: "cn_inv S S c \<Longrightarrow> cn_busy S S (c\<lparr>cn_sender := tx_stream_end_input (cn_sender c)\<rparr>)"
  using cn_sender_end [of S "cn_sender c"]
  by (intro cn_busy_sender [of S S]) (auto simp: cn_inv_busy cn_busy_def tx_stream_end_input_def)

lemma cn_end_input_stream_inv: "cn_inv S S c \<Longrightarrow> cn_inv S S (cn_end_input_stream c)"
  using cn_busy_fill [OF cn_end_busy] by (simp add: cn_end_input_stream_def cn_send_all_inv)

lemma cn_tick_inv:
  assumes "cn_inv S W c"
  shows "\<exists>c'. cn_tick c ms = Inr c' \<and> cn_inv S W c'"
proof -
  obtain s where s: "tx_tick (cn_sender c) ms = Inr s" "cn_sender_inv S W s"
    "tx_isn s = tx_isn (cn_sender c)" "tx_next_seqno s = tx_next_seqno (cn_sender c)"
    using cn_sender_tick [of S W "cn_sender c" ms] assms by (auto simp: cn_inv_def)
  let ?c1 = "c\<lparr>cn_sender := s, cn_time_since_last_segrecv := cn_time_since_last_segrecv c + ms\<rparr>"
  have c1: "cn_busy S W ?c1"
    using cn_busy_sender [of S W c W s] s assms by (simp add: cn_inv_busy)
  let ?c2 = "cn_send_all (if tx_SYN_sent s then ?c1\<lparr>cn_sender := tx_fill_window s\<rparr> else ?c1)"
  have c2: "cn_inv S W ?c2" using c1 cn_busy_fill [OF c1] by (auto intro!: cn_send_all_inv)
  have rst: "cn_inv S W (cn_unclean_shutdown ?c1 True)"
  proof -
    have "cn_inv S W (cn_send_rst ?c1)" using c1 by (rule cn_send_rst_inv)
    from cn_unclean_shutdown_inv [OF this, of False] show ?thesis
      by (simp add: cn_unclean_shutdown_def)
  qed
  show ?thesis
    using rst cn_try_close_inv [OF c2] s(1) by (simp add: cn_tick_def Let_def)
qed
text \<open>
  What the connection knows of its receiver whatever arrives: there is an acknowledgment number exactly
  once a SYN was seen, the inbound stream does not end before that, and neither stream is in the error
  state while the connection is active.
\<close>

definition cn_live :: "tcp_connection \<Rightarrow> bool" where
  "cn_live c \<longleftrightarrow>
     (rx_ackno (cn_receiver c) = None \<longleftrightarrow> rx_isn (cn_receiver c) = None) \<and>
     (rx_isn (cn_receiver c) = None \<longrightarrow> \<not> bs_input_end (rx_stream_out (cn_receiver c))) \<and>
     (cn_active c \<longrightarrow> \<not> bs_error (rx_stream_out (cn_receiver c)) \<and> \<not> bs_error (tx_stream (cn_sender c)))"

lemma sr_push_onestr_error [simp]:
  "bs_error (sr_output (snd (sr_push_onestr r d i))) = bs_error (sr_output r)"
  by (simp add: sr_push_onestr_def sr_end_if_done_def Let_def bs_end_input_def)

lemma sr_scan_error:
  "sr_scan r ps = Some (p, r') \<Longrightarrow> bs_error (sr_output r') = bs_error (sr_output r)"
proof (induction ps arbitrary: r)
  case (Cons q ps)
  then show ?case
    using sr_push_onestr_error [of r "snd q" "fst q"]
    by (cases "sr_push_onestr r (snd q) (fst q)") (auto split: bool.splits)
qed simp

lemma sr_readout_error: "bs_error (sr_output (sr_readout r)) = bs_error (sr_output r)"
proof (induction r rule: sr_readout.induct)
  case (1 r)
  then show ?case by (subst sr_readout.simps) (auto split: option.splits dest: sr_scan_error)
qed

lemma rx_segment_received_error [simp]:
  "bs_error (rx_stream_out (rx_segment_received r seg)) = bs_error (rx_stream_out r)"
  by (simp add: rx_segment_received_def rx_stream_out_def sr_push_substring_def Let_def sr_readout_error
      split: option.split)

lemma tx_next_segment_error [simp]:
  "bs_error (tx_stream (fst (tx_next_segment s n))) = bs_error (tx_stream s)"
  by (simp add: tx_next_segment_def Let_def case_prod_beta)

lemma tx_fill_loop_error: "bs_error (tx_stream (tx_fill_loop s n)) = bs_error (tx_stream s)"
proof (induction s n rule: tx_fill_loop.induct)
  case (1 s n)
  then show ?case
    using tx_next_segment_error [of s n]
    by (subst tx_fill_loop.simps) (cases "tx_next_segment s n"; auto simp: Let_def)
qed

lemma tx_fill_window_error [simp]: "bs_error (tx_stream (tx_fill_window s)) = bs_error (tx_stream s)"
  by (simp add: tx_fill_window_def tx_fill_loop_error)

lemma cn_send_all_simps [simp]:
  "cn_receiver (cn_send_all c) = cn_receiver c" "cn_active (cn_send_all c) = cn_active c"
  "cn_cfg (cn_send_all c) = cn_cfg c"
  "cn_linger_after_streams_finish (cn_send_all c) = cn_linger_after_streams_finish c"
  "cn_time_since_last_segrecv (cn_send_all c) = cn_time_since_last_segrecv c"
  "cn_sender (cn_send_all c) = (cn_sender c)\<lparr>tx_segments_out := []\<rparr>"
  "cn_segments_out (cn_send_all c) = cn_segments_out c @ map (cn_handle_sender_segment c) (tx_segments_out (cn_sender c))"
  by (simp_all add: cn_send_all_eq)

lemma cn_live_sender:
  "bs_error (tx_stream s) = bs_error (tx_stream (cn_sender c)) \<Longrightarrow> cn_live c \<Longrightarrow> cn_live (c\<lparr>cn_sender := s\<rparr>)"
  by (simp add: cn_live_def)

lemma cn_live_send_all: "cn_live c \<Longrightarrow> cn_live (cn_send_all c)"
  by (simp add: cn_live_def)

lemma cn_live_dead: "cn_live c \<Longrightarrow> cn_live (cn_unclean_shutdown c b)"
  by (auto simp: cn_live_def cn_unclean_shutdown_def rx_set_error_def Let_def cn_send_rst_def rx_stream_out_def
      bs_set_error_def)

lemma cn_live_segment:
  assumes "cn_live c"
  shows "cn_live (cn_segment_received c seg)"
proof (cases "cn_active c")
  case False
  then show ?thesis using assms by (simp add: cn_segment_received_def)
next
  case True
  let ?d = "cn_take_ack (cn_receive c seg) (seg_header seg)"
  have 1: "cn_live (cn_receive c seg)"
    using assms by (auto simp: cn_live_def cn_receive_def) (auto simp: rx_segment_received_def Let_def split: option.splits if_splits)
  then have 2: "cn_live ?d" by (simp add: cn_live_def cn_take_ack_def cn_follow_prereq_snd Let_def)
  then have "cn_live (cn_answer_empty ?d h)" "cn_live (cn_answer ?d h)" for h
    by (auto simp: cn_answer_empty_def cn_answer_def Let_def tx_send_empty_segment_def
        intro!: cn_live_send_all cn_live_sender split: option.splits)
  then show ?thesis
    using True cn_live_dead [OF 1] by (simp add: cn_segment_received_def Let_def)
qed

lemma cn_live_close: "cn_live c \<Longrightarrow> cn_live (cn_try_close c)"
  by (simp add: cn_try_close_def Let_def case_prod_beta cn_follow_prereq_snd cn_live_def)

section \<open>Everything that can happen to a connection\<close>

inductive cn_reach :: "bytes \<Rightarrow> tcp_connection \<Rightarrow> bytes \<Rightarrow> tcp_connection \<Rightarrow> bool"
  for S c0 where
  start: "cn_reach S c0 [] c0"
| connecting: "cn_reach S c0 W c \<Longrightarrow> cn_reach S c0 W (cn_connect c)"
| writing: "cn_reach S c0 W c \<Longrightarrow> cn_write c data = (n, c') \<Longrightarrow> prefix (W @ take (unat n) data) S \<Longrightarrow>
    cn_reach S c0 (W @ take (unat n) data) c'"
| ending: "cn_reach S c0 S c \<Longrightarrow> cn_reach S c0 S (cn_end_input_stream c)"
| receiving: "cn_reach S c0 W c \<Longrightarrow> cn_reach S c0 W (cn_segment_received c seg)"
| ticking: "cn_reach S c0 W c \<Longrightarrow> cn_tick c ms = Inr c' \<Longrightarrow> cn_reach S c0 W c'"
| reading: "cn_reach S c0 W c \<Longrightarrow> cn_inbound_read c k = (out, c') \<Longrightarrow> cn_reach S c0 W c'"
| popping: "cn_reach S c0 W c \<Longrightarrow> cn_segments_out c = seg # segs \<Longrightarrow> cn_reach S c0 W (c\<lparr>cn_segments_out := segs\<rparr>)"
| destroying: "cn_reach S c0 W c \<Longrightarrow> cn_reach S c0 W (cn_destroy c)"

lemma cn_inv_init: "length S + 2 < 2 ^ 32 \<Longrightarrow> cn_inv S [] (TCPConnection cfg r) \<and> cn_live (TCPConnection cfg r)"
  using tx_inv_init [of S "cfg_send_capacity cfg" "cfg_rt_timeout cfg" "cfg_fixed_isn cfg" r]
  by (auto simp: cn_inv_def cn_sender_inv_def TCPConnection_def cn_live_def TCPReceiver_def TCPSender_def
      ByteStream_def StreamReassembler_def rx_stream_out_def)

lemma cn_tick_live: "cn_live c \<Longrightarrow> cn_inv S W c \<Longrightarrow> cn_tick c ms = Inr c' \<Longrightarrow> cn_live c'"
proof -
  assume live: "cn_live c" and inv: "cn_inv S W c" and tick: "cn_tick c ms = Inr c'"
  obtain s where s: "tx_tick (cn_sender c) ms = Inr s" "tx_stream s = tx_stream (cn_sender c)"
    using cn_sender_tick [of S W "cn_sender c" ms] inv by (auto simp: cn_inv_def)
  let ?c1 = "c\<lparr>cn_sender := s, cn_time_since_last_segrecv := cn_time_since_last_segrecv c + ms\<rparr>"
  have c1: "cn_live ?c1" using live s(2) by (simp add: cn_live_def)
  moreover have "cn_live (?c1\<lparr>cn_sender := tx_fill_window s\<rparr>)" using c1 by (simp add: cn_live_def)
  ultimately have "cn_live (cn_try_close (cn_send_all (if tx_SYN_sent s then ?c1\<lparr>cn_sender := tx_fill_window s\<rparr> else ?c1)))"
    by (intro cn_live_close cn_live_send_all) (simp split: if_split)
  then show "cn_live c'"
    using tick cn_live_dead [OF c1] s(1) by (auto simp: cn_tick_def Let_def split: if_splits)
qed

lemma cn_reach_inv:
  assumes "cn_reach S (TCPConnection cfg r) W c" and "length S + 2 < 2 ^ 32"
  shows "cn_inv S W c \<and> cn_live c"
  using assms
proof (induction rule: cn_reach.induct)
  case start
  then show ?case by (simp add: cn_inv_init)
next
  case (connecting W c)
  then have "cn_inv S W c" "cn_live c" by simp_all
  then show ?case
    using cn_busy_fill [of S W c]
    by (auto simp: cn_connect_def cn_inv_busy intro!: cn_live_send_all cn_live_sender dest!: cn_send_all_inv)
next
  case (writing W c data n c')
  then have inv: "cn_inv S W c" "cn_live c" by simp_all
  obtain n' s where w: "tx_stream_write (cn_sender c) data = (n', s)" by (cases "tx_stream_write (cn_sender c) data")
  have n: "n' = n" "c' = snd (cn_write c data)" using writing.hyps(2) w by (auto simp: cn_write_def)
  have "bs_error (tx_stream s) = bs_error (tx_stream (cn_sender c))"
    using w by (auto simp: tx_stream_write_def Let_def case_prod_beta)
  then have "cn_live c'"
    using inv(2) w unfolding n(2) by (auto simp: cn_write_def intro!: cn_live_send_all cn_live_sender)
  then show ?case using cn_write_inv(1) [OF inv(1) w] writing.hyps(3) n by simp
next
  case (ending c)
  then show ?case
    using cn_end_input_stream_inv [of S c]
    by (auto simp: cn_end_input_stream_def tx_stream_end_input_def intro!: cn_live_send_all cn_live_sender)
next
  case (receiving W c seg)
  then show ?case by (simp add: cn_segment_received_inv cn_live_segment)
next
  case (ticking W c ms c')
  then show ?case using cn_tick_inv [of S W c ms] cn_tick_live [of c S W ms c'] by auto
next
  case (reading W c k out c')
  then show ?case
    by (auto simp: cn_inbound_read_def rx_stream_read_def sr_stream_read_def cn_inv_busy cn_live_def rx_stream_out_def
        case_prod_beta Let_def)
next
  case (popping W c seg segs)
  then show ?case by (simp add: cn_inv_def cn_live_def)
next
  case (destroying W c)
  then show ?case by (simp add: cn_destroy_def cn_unclean_shutdown_inv cn_live_dead)
qed

section \<open>Shutting down\<close>

text \<open>The second precondition of a clean shutdown says exactly that the FIN is out.\<close>

lemma cn_fin_out:
  assumes "cn_sender_inv S W s"
  shows "bs_eof (tx_stream s) \<and> tx_next_seqno s = bs_bytes_written (tx_stream s) + 2 \<longleftrightarrow> tx_FIN_sent s"
proof -
  obtain sent where "tx_inv S sent s" using assms by (auto simp: cn_sender_inv_def)
  then have st: "tx_stream_inv S sent s" and sq: "tx_seqno_inv sent s" by (simp_all add: tx_inv_def)
  have len: "length S + 2 < 2 ^ 32" "length (sent @ bs_buffer (tx_stream s)) \<le> length S"
    using st by (auto simp: tx_stream_inv_def dest: prefix_length_le)
  then have w: "unat (bs_bytes_written (tx_stream s) + 2) = length sent + length (bs_buffer (tx_stream s)) + 2"
    using st by (simp add: tx_stream_inv_def str_size_def unat_word_ariths unat_of_nat)
  have e: "bs_eof (tx_stream s) \<Longrightarrow> bs_buffer (tx_stream s) = []"
    by (simp add: bs_eof_def bs_buffer_empty_def)
  show ?thesis
  proof
    assume a: "bs_eof (tx_stream s) \<and> tx_next_seqno s = bs_bytes_written (tx_stream s) + 2"
    then have "unat (tx_next_seqno s) = length sent + 2" using w e by simp
    then show "tx_FIN_sent s" using sq by (auto simp: tx_seqno_inv_def split: if_splits)
  next
    assume f: "tx_FIN_sent s"
    then have "bs_eof (tx_stream s)" "tx_SYN_sent s" using st sq by (auto simp: tx_stream_inv_def tx_seqno_inv_def)
    moreover from this have "unat (tx_next_seqno s) = unat (bs_bytes_written (tx_stream s) + 2)"
      using f w e sq by (simp add: tx_seqno_inv_def)
    ultimately show "bs_eof (tx_stream s) \<and> tx_next_seqno s = bs_bytes_written (tx_stream s) + 2"
      by (simp add: word_unat_eq_iff)
  qed
qed

text \<open>Both streams are finished, and the peer has everything.\<close>

definition cn_finished :: "tcp_connection \<Rightarrow> bool" where
  "cn_finished c \<longleftrightarrow> bs_input_ended (cn_inbound_stream c) \<and> tx_FIN_sent (cn_sender c) \<and> cn_bytes_in_flight c = 0"

definition cn_waited :: "tcp_connection \<Rightarrow> bool" where
  "cn_waited c \<longleftrightarrow> \<not> cn_linger_after_streams_finish c \<or>
     unat (cn_time_since_last_segrecv c) \<ge> 10 * unat (cfg_rt_timeout (cn_cfg c))"

lemma cn_follow_prereq_fst: "cn_inv S W c \<Longrightarrow> fst (cn_follow_prereq c) = cn_finished c"
  using cn_fin_out [of S W "cn_sender c"]
  by (auto simp: cn_follow_prereq_def cn_finished_def cn_inbound_stream_def cn_inv_def Let_def)

lemma cn_linger_time: "10 * ucast (t :: u16) \<le> (x :: u64) \<longleftrightarrow> 10 * unat t \<le> unat x"
  using unat_u16_bound [of t] by (simp add: word_le_nat_alt unat_word_ariths)

lemma cn_try_close_active:
  assumes "cn_inv S W c" and "cn_active c"
  shows "\<not> cn_active (cn_try_close c) \<longleftrightarrow> cn_finished (cn_try_close c) \<and> cn_waited (cn_try_close c)"
  using cn_follow_prereq_fst [OF assms(1)] assms(2)
  by (auto simp: cn_try_close_def cn_follow_prereq_snd case_prod_beta Let_def cn_finished_def cn_waited_def
      cn_inbound_stream_def cn_bytes_in_flight_def cn_linger_time)

lemma cn_try_close_sender [simp]:
  "cn_sender (cn_try_close c) = cn_sender c" "cn_receiver (cn_try_close c) = cn_receiver c"
  by (simp_all add: cn_try_close_def cn_follow_prereq_snd case_prod_beta Let_def)

text \<open>The state a clean shutdown ends in.\<close>

lemma cn_closed_state:
  assumes "cn_inv S W c" and "cn_live c" and "cn_finished c"
    and "\<not> bs_error (cn_inbound_stream c)" and "\<not> bs_error (tx_stream (cn_sender c))" and "\<not> cn_active c"
  shows "cn_state c = ts_of_official CLOSED"
proof -
  let ?s = "cn_sender c"
  have f: "tx_FIN_sent ?s" "tx_bytes_in_flight ?s = 0" "bs_input_ended (rx_stream_out (cn_receiver c))"
    using assms(3) by (simp_all add: cn_finished_def cn_inbound_stream_def cn_bytes_in_flight_def)
  obtain sent where "tx_inv S sent ?s" using assms(1) by (auto simp: cn_inv_def cn_sender_inv_def)
  then have "unat (tx_next_seqno ?s) \<noteq> 0"
    using f(1) by (auto simp: tx_inv_def tx_seqno_inv_def)
  then have n: "tx_next_seqno ?s \<noteq> 0" by (metis unat_0)
  have e: "bs_eof (tx_stream ?s)" "tx_next_seqno ?s = bs_bytes_written (tx_stream ?s) + 2"
    using cn_fin_out [of S W ?s] assms(1) f(1) by (simp_all add: cn_inv_def)
  have "rx_ackno (cn_receiver c) \<noteq> None"
    using assms(2) f(3) by (auto simp: cn_live_def bs_input_ended_def)
  then show ?thesis
    using n e f assms(4-6)
    by (auto simp: cn_state_def TCPState_def ts_sender_summary_def ts_receiver_summary_def cn_inbound_stream_def)
qed

lemma tx_fill_loop_retx: "tx_consecutive_retransmissions (tx_fill_loop s n) = tx_consecutive_retransmissions s"
proof (induction s n rule: tx_fill_loop.induct)
  case (1 s n)
  have "tx_consecutive_retransmissions (fst (tx_next_segment s n)) = tx_consecutive_retransmissions s"
    by (simp add: tx_next_segment_def Let_def case_prod_beta)
  then show ?case using 1
    by (subst tx_fill_loop.simps) (cases "tx_next_segment s n"; auto simp: Let_def tx_transmit_def)
qed

lemma tx_fill_window_retx [simp]:
  "tx_consecutive_retransmissions (tx_fill_window s) = tx_consecutive_retransmissions s"
  by (simp add: tx_fill_window_def tx_fill_loop_retx tx_transmit_def)

lemma cn_unclean_shutdown_retx:
  "tx_consecutive_retransmissions (cn_sender (cn_unclean_shutdown c b)) = tx_consecutive_retransmissions (cn_sender c)"
  by (simp add: cn_unclean_shutdown_def cn_send_rst_def Let_def tx_send_empty_segment_def split: list.split)

text \<open>A tick that does not give up ends in the attempt to close.\<close>

lemma cn_tick_normal:
  assumes "cn_inv S W c" and "cn_live c" and "cn_tick c ms = Inr c'"
    and "tx_consecutive_retransmissions (cn_sender c') \<le> MAX_RETX_ATTEMPTS"
  shows "\<exists>d. c' = cn_try_close d \<and> cn_inv S W d \<and> cn_active d = cn_active c \<and>
    bs_error (cn_inbound_stream d) = bs_error (cn_inbound_stream c) \<and>
    bs_error (tx_stream (cn_sender d)) = bs_error (tx_stream (cn_sender c))"
proof -
  obtain s where s: "tx_tick (cn_sender c) ms = Inr s" "cn_sender_inv S W s" "tx_isn s = tx_isn (cn_sender c)"
    "tx_next_seqno s = tx_next_seqno (cn_sender c)" "tx_stream s = tx_stream (cn_sender c)"
    using cn_sender_tick [of S W "cn_sender c" ms] assms(1) by (auto simp: cn_inv_def)
  let ?c1 = "c\<lparr>cn_sender := s, cn_time_since_last_segrecv := cn_time_since_last_segrecv c + ms\<rparr>"
  let ?c2 = "if tx_SYN_sent s then ?c1\<lparr>cn_sender := tx_fill_window s\<rparr> else ?c1"
  have c1: "cn_busy S W ?c1"
    using cn_busy_sender [of S W c W s] s assms(1) by (simp add: cn_inv_busy)
  have inv: "cn_inv S W (cn_send_all ?c2)" using c1 cn_busy_fill [OF c1] by (auto intro!: cn_send_all_inv)
  have "\<not> tx_consecutive_retransmissions s > MAX_RETX_ATTEMPTS"
  proof
    assume "tx_consecutive_retransmissions s > MAX_RETX_ATTEMPTS"
    moreover from this have "c' = cn_unclean_shutdown ?c1 True" using assms(3) s(1) by (simp add: cn_tick_def)
    ultimately show False using assms(4) by (simp add: cn_unclean_shutdown_retx)
  qed
  then have "c' = cn_try_close (cn_send_all ?c2)" using assms(3) s(1) by (simp add: cn_tick_def Let_def)
  then show ?thesis
    using inv s(5) by (intro exI [of _ "cn_send_all ?c2"]) (simp add: cn_inbound_stream_def)
qed

lemma cn_unclean_shutdown_state: "cn_state (cn_unclean_shutdown c b) = ts_of_official RESET"
  by (simp add: cn_state_def TCPState_def cn_unclean_shutdown_def Let_def ts_sender_summary_def ts_receiver_summary_def
      rx_set_error_def rx_stream_out_def bs_set_error_def)

lemma cn_sender_fill_out:
  assumes "cn_sender_inv S W s"
  shows "\<exists>new. tx_segments_out (tx_fill_window s) = tx_segments_out s @ new"
proof (cases "tx_SYN_sent s")
  case True
  obtain sent where "tx_inv S sent s" using assms by (auto simp: cn_sender_inv_def)
  from tx_fill_window_spec [OF this True] show ?thesis by (auto simp: tx_filled_def)
next
  case False
  then show ?thesis by (simp add: tx_fill_window_def tx_transmit_def)
qed

lemma cn_send_rst_out:
  assumes "cn_busy S W c" and "tx_segments_out (cn_sender c) = seg # segs"
  shows "\<exists>rst new. cn_segments_out (cn_send_rst c) = cn_segments_out c @ rst # new \<and> th_rst (seg_header rst) \<and>
    th_seqno (seg_header rst) = th_seqno (seg_header seg) \<and> seg_payload rst = seg_payload seg"
proof -
  obtain new where "tx_segments_out (tx_fill_window (cn_sender c)) = seg # segs @ new"
    using cn_sender_fill_out [of S W "cn_sender c"] assms by (auto simp: cn_busy_def)
  then show ?thesis by (simp add: cn_send_rst_def Let_def)
qed

text \<open>The tick after which the sender has retransmitted too often.\<close>

lemma cn_tick_gives_up:
  assumes "cn_inv S W c" and "tx_segments_backup (cn_sender c) = seg # segs"
    and "tm_expired (tm_tick (tx_timer (cn_sender c)) ms)" and "tx_window_size (cn_sender c) \<noteq> 0"
    and "tx_consecutive_retransmissions (cn_sender c) = MAX_RETX_ATTEMPTS"
  shows "\<exists>d. cn_tick c ms = Inr (cn_unclean_shutdown d True) \<and> cn_busy S W d \<and>
    tx_segments_out (cn_sender d) = [seg] \<and> cn_segments_out d = cn_segments_out c"
proof -
  obtain sent where inv: "tx_inv S sent (cn_sender c)" using assms(1) by (auto simp: cn_inv_def cn_sender_inv_def)
  obtain s where s: "tx_tick (cn_sender c) ms = Inr s" "cn_sender_inv S W s"
    "tx_isn s = tx_isn (cn_sender c)" "tx_next_seqno s = tx_next_seqno (cn_sender c)"
    using cn_sender_tick [of S W "cn_sender c" ms] assms(1) by (auto simp: cn_inv_def)
  have o: "tx_segments_out s = [seg]" "tx_consecutive_retransmissions s = MAX_RETX_ATTEMPTS + 1"
    using s(1) assms by (auto simp: tx_tick_def tm_timer_expired_def cn_inv_def Let_def)
  let ?d = "c\<lparr>cn_sender := s, cn_time_since_last_segrecv := cn_time_since_last_segrecv c + ms\<rparr>"
  have "cn_busy S W ?d" using cn_busy_sender [of S W c W s] s assms(1) by (simp add: cn_inv_busy)
  moreover have "MAX_RETX_ATTEMPTS < MAX_RETX_ATTEMPTS + 1" by (simp add: MAX_RETX_ATTEMPTS_def)
  then have "cn_tick c ms = Inr (cn_unclean_shutdown ?d True)"
    using s(1) o(2) by (simp add: cn_tick_def)
  ultimately show ?thesis using o(1) by (intro exI [of _ ?d]) simp
qed

lemma cn_inactive_step:
  assumes "\<not> cn_active c"
  shows "\<not> cn_active (cn_connect c)" "\<not> cn_active (snd (cn_write c data))" "\<not> cn_active (cn_end_input_stream c)"
    "\<not> cn_active (cn_segment_received c seg)" "\<not> cn_active (snd (cn_inbound_read c k))" "\<not> cn_active (cn_destroy c)"
    "cn_tick c ms = Inr c' \<Longrightarrow> \<not> cn_active c'"
  using assms
  by (auto simp: cn_connect_def cn_write_def cn_end_input_stream_def cn_segment_received_def cn_inbound_read_def
      cn_destroy_def case_prod_beta Let_def cn_tick_def cn_try_close_def cn_follow_prereq_snd cn_unclean_shutdown_def
      split: sum.splits if_splits)
lemma seg_carries_ack [simp]:
  "seg_carries S isn n (seg\<lparr>seg_header := (seg_header seg)\<lparr>th_ack := b\<rparr>\<rparr>) = seg_carries S isn n seg"
  by (simp add: seg_carries_def seg_index_def Let_def)

lemma cn_send_all_out:
  assumes "cn_busy S W c" and "tx_segments_out (cn_sender c) \<noteq> []"
  shows "\<exists>new. new \<noteq> [] \<and> cn_segments_out (cn_send_all c) = cn_segments_out c @ new \<and>
    (\<forall>x \<in> set new. cn_stamped (cn_receiver c) x)"
proof -
  have "\<not> th_ack (seg_header x)" if "x \<in> set (tx_segments_out (cn_sender c))" for x
    using cn_sender_out_ok [of S W "cn_sender c" x] assms(1) that by (auto simp: cn_busy_def tx_seg_ok_def)
  then show ?thesis using assms(2) by (auto simp: cn_handle_sender_segment_stamped)
qed

lemma cn_answer_out:
  assumes "cn_busy S W c"
  shows "\<exists>new. new \<noteq> [] \<and> cn_segments_out (cn_answer c h) = cn_segments_out c @ new \<and>
    (\<forall>x \<in> set new. cn_stamped (cn_receiver c) x)"
proof -
  define d where "d = (if th_syn h \<and> \<not> th_ack h then c\<lparr>cn_sender := tx_fill_window (cn_sender c)\<rparr> else c)"
  define e where "e = (if tx_segments_out (cn_sender d) = []
    then d\<lparr>cn_sender := tx_send_empty_segment (cn_sender d) False\<rparr> else d)"
  have "cn_busy S W d" using assms by (simp add: d_def cn_busy_fill)
  then have "cn_busy S W e" by (simp add: e_def cn_busy_empty)
  moreover have "tx_segments_out (cn_sender e) \<noteq> []" by (simp add: e_def tx_send_empty_segment_def Let_def)
  moreover have "cn_receiver e = cn_receiver c" "cn_segments_out e = cn_segments_out c" by (simp_all add: e_def d_def)
  ultimately show ?thesis
    using cn_send_all_out [of S W e] unfolding cn_answer_def d_def [symmetric] Let_def e_def [symmetric] by simp
qed

lemma cn_take_ack_frame [simp]:
  "cn_receiver (cn_take_ack c h) = cn_receiver c" "cn_segments_out (cn_take_ack c h) = cn_segments_out c"
  by (simp_all add: cn_take_ack_def cn_follow_prereq_snd Let_def)

text \<open>Three reachable states for the witnesses: after \<open>connect\<close>, after eight timeouts, and at the end of a passive close.\<close>

definition cn_example_cfg :: tcp_config where
  "cn_example_cfg = TCPConfig\<lparr>cfg_recv_capacity := 10, cfg_send_capacity := 10, cfg_fixed_isn := Some (WrappingInt32 5)\<rparr>"

definition cn_example :: tcp_connection where
  "cn_example = cn_connect (TCPConnection cn_example_cfg 0)"

primrec cn_ticks :: "tcp_connection \<Rightarrow> u64 list \<Rightarrow> tcp_connection" where
  "cn_ticks c [] = c"
| "cn_ticks c (ms # mss) = (case cn_tick c ms of Inl _ \<Rightarrow> c | Inr c' \<Rightarrow> cn_ticks c' mss)"

lemma cn_ticks_reach: "cn_reach S c0 W c \<Longrightarrow> cn_reach S c0 W (cn_ticks c mss)"
  by (induction mss arbitrary: c) (auto split: sum.split intro: cn_reach.ticking)

definition cn_example_silent :: tcp_connection where
  "cn_example_silent = cn_ticks cn_example [1000, 2000, 4000, 8000, 16000, 32000, 64000, 128000]"

definition cn_peer_segment :: "u32 \<Rightarrow> u32 \<Rightarrow> bool \<Rightarrow> bool \<Rightarrow> tcp_segment" where
  "cn_peer_segment seqno ackno syn fin =
    TCPSegment\<lparr>seg_header := TCPHeader\<lparr>th_seqno := WrappingInt32 seqno, th_ack := True,
      th_ackno := WrappingInt32 ackno, th_syn := syn, th_fin := fin, th_win := 100\<rparr>\<rparr>"

definition cn_example_done :: tcp_connection where
  "cn_example_done =
    cn_segment_received
      (cn_end_input_stream
        (cn_segment_received (cn_segment_received cn_example (cn_peer_segment 20 6 True False))
          (cn_peer_segment 21 6 False True)))
      (cn_peer_segment 22 7 False False)"

lemma cn_example_reach: "cn_reach [] (TCPConnection cn_example_cfg 0) [] cn_example"
  unfolding cn_example_def by (rule cn_reach.connecting [OF cn_reach.start])

lemma cn_example_silent_reach: "cn_reach [] (TCPConnection cn_example_cfg 0) [] cn_example_silent"
  unfolding cn_example_silent_def by (rule cn_ticks_reach [OF cn_example_reach])

lemma cn_example_done_reach: "cn_reach [] (TCPConnection cn_example_cfg 0) [] cn_example_done"
  unfolding cn_example_done_def by (intro cn_reach.receiving cn_reach.ending cn_example_reach)

section \<open>Properties\<close>

text \<open>
  C7. Everything a connection ever sends is right: for an application that writes (a prefix of) \<open>S\<close>,
  whatever segments arrive, however long timers run and whether the connection is reset or
  destroyed, every segment in the outgoing queue carries the bytes of \<open>S\<close> that belong at its
  sequence number, at most 1000 of them.
\<close>

theorem cn_emits_stream:
  assumes "cn_reach S (TCPConnection cfg r) W c" and "length S + 2 < 2 ^ 32"
  shows "\<forall>seg \<in> set (cn_segments_out c). \<exists>n \<le> unat (tx_next_seqno (cn_sender c)).
    seg_carries S (tx_isn (cn_sender c)) n seg \<and> length (buf_str (seg_payload seg)) \<le> 1000"
proof -
  have "\<forall>seg \<in> set (cn_segments_out c). cn_seg_ok S (cn_sender c) seg"
    using cn_reach_inv [OF assms] by (simp add: cn_inv_def)
  then show ?thesis by (auto simp: cn_seg_ok_def tx_seg_ok_def)
qed

theorem cn_emits_stream_witness:
  "length (buf_str (seg_payload (hd (cn_segments_out cn_example_done)))) \<le> 1000"
proof -
  have "length ([] :: bytes) + 2 < 2 ^ 32" by simp
  moreover have "cn_segments_out cn_example_done \<noteq> []" by code_simp
  ultimately show ?thesis using cn_emits_stream [OF cn_example_done_reach] by (meson hd_in_set)
qed

text \<open>
  \<open>tick\<close> is defined in every reachable state of a connection.
\<close>

theorem cn_tick_defined:
  assumes "cn_reach S (TCPConnection cfg r) W c" and "length S + 2 < 2 ^ 32"
  shows "\<exists>c'. cn_tick c ms = Inr c'"
  using cn_tick_inv [of S W c ms] cn_reach_inv [OF assms] by blast

theorem cn_tick_defined_witness: "\<exists>c'. cn_tick cn_example_silent 256000 = Inr c'"
  by (rule cn_tick_defined [OF cn_example_silent_reach]) simp

text \<open>
  C14. A segment that occupies sequence numbers is always answered: an active connection that receives
  one (without RST) queues at least one segment, and every segment it queues carries the
  acknowledgment number and the window (clipped to 16 bits) of its receiver after that segment.
\<close>

theorem cn_answers:
  assumes "cn_reach S (TCPConnection cfg r) W c" and "length S + 2 < 2 ^ 32" and "cn_active c"
    and "\<not> th_rst (seg_header seg)" and "seg_length_in_sequence_space seg \<noteq> 0"
  shows "\<exists>new. new \<noteq> [] \<and> cn_segments_out (cn_segment_received c seg) = cn_segments_out c @ new \<and>
    (\<forall>x \<in> set new. cn_stamped (rx_segment_received (cn_receiver c) seg) x)"
proof -
  let ?d = "cn_take_ack (cn_receive c seg) (seg_header seg)"
  have "cn_busy S W ?d"
    using cn_reach_inv [OF assms(1,2)] by (intro cn_take_ack_busy) (simp add: cn_inv_busy cn_receive_def)
  from cn_answer_out [OF this, of "seg_header seg"] show ?thesis
    using assms(3-5) by (simp add: cn_segment_received_def cn_receive_def Let_def)
qed

theorem cn_answers_witness:
  "cn_segments_out (cn_segment_received cn_example (cn_peer_segment 20 6 True False)) \<noteq> []"
proof -
  have e: "cn_active cn_example" "\<not> th_rst (seg_header (cn_peer_segment 20 6 True False))"
    "seg_length_in_sequence_space (cn_peer_segment 20 6 True False) \<noteq> 0" by code_simp+
  have "length ([] :: bytes) + 2 < 2 ^ 32" by simp
  from cn_answers [OF cn_example_reach this e] show ?thesis by auto
qed

text \<open>
  A reset: an active connection that receives RST sends nothing, puts both streams into the error
  state and is in the state RESET.
\<close>

theorem cn_rst_received:
  assumes "cn_active c" and "th_rst (seg_header seg)"
  shows "cn_state (cn_segment_received c seg) = ts_of_official RESET \<and>
    cn_segments_out (cn_segment_received c seg) = cn_segments_out c \<and>
    bs_error (cn_inbound_stream (cn_segment_received c seg)) \<and>
    bs_error (tx_stream (cn_sender (cn_segment_received c seg))) \<and> \<not> cn_active (cn_segment_received c seg)"
proof -
  have "cn_segment_received c seg = cn_unclean_shutdown (cn_receive c seg) False"
    using assms by (simp add: cn_segment_received_def Let_def)
  then show ?thesis
    by (simp add: cn_unclean_shutdown_state)
      (simp add: cn_unclean_shutdown_def cn_receive_def cn_inbound_stream_def rx_set_error_def rx_stream_out_def
        bs_set_error_def Let_def)
qed

theorem cn_rst_received_witness:
  "cn_state (cn_segment_received cn_example (TCPSegment\<lparr>seg_header := TCPHeader\<lparr>th_rst := True\<rparr>\<rparr>)) =
   ts_of_official RESET"
proof -
  have "cn_active cn_example" "th_rst (seg_header (TCPSegment\<lparr>seg_header := TCPHeader\<lparr>th_rst := True\<rparr>\<rparr>))"
    by code_simp+
  from cn_rst_received [OF this] show ?thesis by blast
qed

text \<open>
  C15. Giving up: when the oldest outstanding segment has been retransmitted eight times in a row and its
  timer runs out again (with an open window), \<open>tick\<close> retransmits it once more with RST set, and the
  connection is in the state RESET.
\<close>

theorem cn_gives_up:
  assumes "cn_reach S (TCPConnection cfg r) W c" and "length S + 2 < 2 ^ 32"
    and "tx_segments_backup (cn_sender c) = seg # segs" and "tx_window_size (cn_sender c) \<noteq> 0"
    and "tx_consecutive_retransmissions (cn_sender c) = 8" and "tm_timer_expired (tm_tick (tx_timer (cn_sender c)) ms)"
  shows "\<exists>c' rst new. cn_tick c ms = Inr c' \<and> cn_segments_out c' = cn_segments_out c @ rst # new \<and>
    th_rst (seg_header rst) \<and> th_seqno (seg_header rst) = th_seqno (seg_header seg) \<and>
    seg_payload rst = seg_payload seg \<and> cn_state c' = ts_of_official RESET \<and> \<not> cn_active c'"
proof -
  have "cn_inv S W c" using cn_reach_inv [OF assms(1,2)] by blast
  then obtain d where d: "cn_tick c ms = Inr (cn_unclean_shutdown d True)" "cn_busy S W d"
    "tx_segments_out (cn_sender d) = [seg]" "cn_segments_out d = cn_segments_out c"
    using cn_tick_gives_up [of S W c seg segs ms] assms by (auto simp: MAX_RETX_ATTEMPTS_def tm_timer_expired_def)
  moreover have "cn_segments_out (cn_unclean_shutdown d True) = cn_segments_out (cn_send_rst d)"
    "\<not> cn_active (cn_unclean_shutdown d True)"
    by (simp_all add: cn_unclean_shutdown_def Let_def)
  ultimately show ?thesis using cn_send_rst_out [OF d(2,3)] by (auto simp: cn_unclean_shutdown_state)
qed

theorem cn_gives_up_witness:
  "\<exists>c'. cn_tick cn_example_silent 256000 = Inr c' \<and> cn_state c' = ts_of_official RESET"
proof -
  have e: "tx_segments_backup (cn_sender cn_example_silent) = hd (tx_segments_backup (cn_sender cn_example_silent)) #
      tl (tx_segments_backup (cn_sender cn_example_silent))"
    "tx_window_size (cn_sender cn_example_silent) \<noteq> 0"
    "tx_consecutive_retransmissions (cn_sender cn_example_silent) = 8"
    "tm_timer_expired (tm_tick (tx_timer (cn_sender cn_example_silent)) 256000)"
    by code_simp+
  have "length ([] :: bytes) + 2 < 2 ^ 32" by simp
  from cn_gives_up [OF cn_example_silent_reach this e] show ?thesis by blast
qed

text \<open>
  C13. The clean shutdown: a tick that does not give up makes an active connection inactive exactly when
  the inbound stream has ended, the FIN is sent, nothing is in flight, and either there is no need to
  linger or ten initial timeouts have passed since the last segment; it is then in the state CLOSED.
\<close>

theorem cn_tick_closes:
  assumes "cn_reach S (TCPConnection cfg r) W c" and "length S + 2 < 2 ^ 32" and "cn_active c"
    and "cn_tick c ms = Inr c'" and "tx_consecutive_retransmissions (cn_sender c') \<le> MAX_RETX_ATTEMPTS"
  shows "(\<not> cn_active c' \<longleftrightarrow> cn_finished c' \<and> cn_waited c') \<and>
    (\<not> cn_active c' \<longrightarrow> cn_state c' = ts_of_official CLOSED)"
proof -
  have inv: "cn_inv S W c" "cn_live c" using cn_reach_inv [OF assms(1,2)] by simp_all
  obtain d where d: "c' = cn_try_close d" "cn_inv S W d" "cn_active d"
    "bs_error (cn_inbound_stream d) = bs_error (cn_inbound_stream c)"
    "bs_error (tx_stream (cn_sender d)) = bs_error (tx_stream (cn_sender c))"
    using cn_tick_normal [OF inv assms(4,5)] assms(3) by auto
  have "\<not> bs_error (cn_inbound_stream c')" "\<not> bs_error (tx_stream (cn_sender c'))"
    using d(1,4,5) inv(2) assms(3) by (simp_all add: cn_inbound_stream_def cn_live_def)
  moreover have "cn_inv S W c'" "cn_live c'"
    using cn_try_close_inv [OF d(2)] d(1) cn_tick_live [OF inv(2,1) assms(4)] by simp_all
  ultimately show ?thesis
    using cn_try_close_active [OF d(2,3)] cn_closed_state [of S W c'] unfolding d(1) by blast
qed

theorem cn_tick_closes_witness:
  "\<exists>c'. cn_tick cn_example_done 10000 = Inr c' \<and> (\<not> cn_active c' \<longleftrightarrow> cn_finished c' \<and> cn_waited c')"
proof -
  obtain c' where c': "cn_tick cn_example_done 10000 = Inr c'"
    "tx_consecutive_retransmissions (cn_sender c') \<le> MAX_RETX_ATTEMPTS"
  proof -
    have "case cn_tick cn_example_done 10000 of Inl _ \<Rightarrow> False
      | Inr c' \<Rightarrow> tx_consecutive_retransmissions (cn_sender c') \<le> MAX_RETX_ATTEMPTS" by code_simp
    then show thesis using that by (auto split: sum.splits)
  qed
  have "cn_active cn_example_done" by code_simp
  moreover have "length ([] :: bytes) + 2 < 2 ^ 32" by simp
  ultimately show ?thesis using cn_tick_closes [OF cn_example_done_reach _ _ c'] c'(1) by blast
qed

text \<open>
  A connection that is no longer active stays so, whatever is called on it.
\<close>

theorem cn_stays_inactive:
  assumes "cn_reach S c0 W c" and "\<not> cn_active c0"
  shows "\<not> cn_active c"
  using assms
proof (induction rule: cn_reach.induct)
  case (writing W c data n c')
  then show ?case using cn_inactive_step(2) [of c data] by simp
next
  case (reading W c k out c')
  then show ?case using cn_inactive_step(5) [of c k] by simp
qed (simp_all add: cn_inactive_step)

theorem cn_stays_inactive_witness:
  "\<not> cn_active (cn_connect (cn_destroy cn_example))"
proof -
  have "\<not> cn_active (cn_destroy cn_example)" by code_simp
  from cn_stays_inactive [OF cn_reach.connecting [OF cn_reach.start] this] show ?thesis .
qed

text \<open>
  The summaries of the official states tell the states apart: two of them compare equal only if
  they are the same state.
\<close>

theorem ts_official_distinct: "ts_equal (ts_of_official a) (ts_of_official b) \<longleftrightarrow> a = b"
  by (cases a; cases b; simp add: ts_equal_def summary_defs)

end
