(* ===== verification/End_To_End.thy ===== *)
theory End_To_End
  imports TCP_Connection
begin

text \<open>
  Two TCP connections and the network between them: what one application writes, the other reads.

  The theory composes the theorems about the sender, the receiver and the connection. The key step is
  that a sender that hears acknowledgments in order never sends beyond the window of the receiver; it
  is shown by following the end of that window (\<open>sr_limit\<close>) through every operation of both sides.
\<close>

section \<open>Two endpoints and a network\<close>

text \<open>
  What the owner of a connection does with it besides passing segments: \<open>W\<close> is what the application has
  written so far (the bytes \<open>write\<close> accepted), the last argument what it reads in this step.
\<close>

inductive cn_local :: "bytes \<Rightarrow> tcp_connection \<Rightarrow> bytes \<Rightarrow> tcp_connection \<Rightarrow> bytes \<Rightarrow> bool" where
  connecting: "cn_local W c W (cn_connect c) []"
| writing: "cn_write c data = (n, c') \<Longrightarrow> cn_local W c (W @ take (unat n) data) c' []"
| ending: "cn_local W c W (cn_end_input_stream c) []"
| ticking: "cn_tick c ms = Inr c' \<Longrightarrow> cn_local W c W c' []"
| reading: "cn_inbound_read c k = (out, c') \<Longrightarrow> cn_local W c W c' out"
| destroying: "cn_local W c W (cn_destroy c) []"

text \<open>
  Two connections \<open>A\<close> and \<open>B\<close>. Every segment \<open>A\<close> has sent stays available to be delivered to \<open>B\<close>: it may be
  lost, delayed, reordered and duplicated. The segments of \<open>B\<close> may be lost but arrive in order. The
  last three fields record what the applications wrote and what \<open>B\<close>'s application has read.
\<close>

record link =
  lk_A :: tcp_connection
  lk_B :: tcp_connection
  lk_AB :: "tcp_segment list"
  lk_BA :: "tcp_segment list"
  lk_written :: bytes
  lk_answered :: bytes
  lk_read :: bytes

definition link_start :: "tcp_connection \<Rightarrow> tcp_connection \<Rightarrow> link" where
  "link_start a b = \<lparr>lk_A = a, lk_B = b, lk_AB = [], lk_BA = [], lk_written = [], lk_answered = [], lk_read = []\<rparr>"

inductive link_step :: "link \<Rightarrow> link \<Rightarrow> bool" where
  A_local: "cn_local (lk_written l) (lk_A l) W a out \<Longrightarrow> link_step l (l\<lparr>lk_A := a, lk_written := W\<rparr>)"
| A_sends: "cn_segments_out (lk_A l) = seg # segs \<Longrightarrow>
    link_step l (l\<lparr>lk_A := (lk_A l)\<lparr>cn_segments_out := segs\<rparr>, lk_AB := seg # lk_AB l\<rparr>)"
| A_receives: "lk_BA l = seg # segs \<Longrightarrow>
    link_step l (l\<lparr>lk_A := cn_segment_received (lk_A l) seg, lk_BA := segs\<rparr>)"
| B_local: "cn_local (lk_answered l) (lk_B l) V b out \<Longrightarrow>
    link_step l (l\<lparr>lk_B := b, lk_answered := V, lk_read := lk_read l @ out\<rparr>)"
| B_sends: "cn_segments_out (lk_B l) = seg # segs \<Longrightarrow>
    link_step l (l\<lparr>lk_B := (lk_B l)\<lparr>cn_segments_out := segs\<rparr>, lk_BA := lk_BA l @ [seg]\<rparr>)"
| B_receives: "seg \<in> set (lk_AB l) \<Longrightarrow> link_step l (l\<lparr>lk_B := cn_segment_received (lk_B l) seg\<rparr>)"
| BA_loses: "lk_BA l = xs @ seg # ys \<Longrightarrow> link_step l (l\<lparr>lk_BA := xs @ ys\<rparr>)"

inductive link_reach :: "link \<Rightarrow> link \<Rightarrow> bool" for l0 where
  start: "link_reach l0 l0"
| step: "link_reach l0 l \<Longrightarrow> link_step l l' \<Longrightarrow> link_reach l0 l'"

section \<open>Positions of segments\<close>

text \<open>The place of a segment, and of the acknowledgment it carries, relative to an initial sequence number.\<close>

definition seg_pos :: "wrapping_int32 \<Rightarrow> tcp_segment \<Rightarrow> nat" where
  "seg_pos isn seg = unat (raw_value (th_seqno (seg_header seg)) - raw_value isn)"

definition ack_pos :: "wrapping_int32 \<Rightarrow> tcp_segment \<Rightarrow> nat" where
  "ack_pos isn seg = unat (raw_value (th_ackno (seg_header seg)) - raw_value isn)"

text \<open>A segment with data that starts no later than one past the stream index \<open>lim\<close>.\<close>

definition seg_within :: "wrapping_int32 \<Rightarrow> nat \<Rightarrow> tcp_segment \<Rightarrow> bool" where
  "seg_within isn lim seg \<longleftrightarrow> seg_data seg \<noteq> [] \<longrightarrow> seg_pos isn seg \<le> lim + 1"

text \<open>
  The sender keeps within \<open>lim\<close>: with all it has sent and not seen acknowledged, and with all that its
  present window allows it to send next.
\<close>

definition tx_within :: "nat \<Rightarrow> tcp_sender \<Rightarrow> bool" where
  "tx_within lim s \<longleftrightarrow>
     (\<forall>x \<in> set (tx_segments_backup s) \<union> set (tx_segments_out s). seg_within (tx_isn s) lim x) \<and>
     (tx_FIN_sent s \<or> unat (tx_abs_ackno s) + tx_window s \<le> lim + 2)"

definition cn_within :: "wrapping_int32 \<Rightarrow> nat \<Rightarrow> tcp_connection \<Rightarrow> bool" where
  "cn_within isn lim c \<longleftrightarrow> tx_isn (cn_sender c) = isn \<and> tx_within lim (cn_sender c) \<and>
     (\<forall>x \<in> set (cn_segments_out c). seg_within isn lim x)"

lemma unat_u32_of_nat: "n < 2 ^ 32 \<Longrightarrow> unat (of_nat n :: u32) = n"
  by (simp add: unat_of_nat)

lemma ucast_of_nat_u32: "ucast (of_nat n :: u64) = (of_nat n :: u32)"
  by (simp add: word_unat_eq_iff unat_ucast_mod unat_of_nat mod_mod_cancel)

lemma seg_pos_carries: "seg_carries S isn n seg \<Longrightarrow> n < 2 ^ 32 \<Longrightarrow> seg_pos isn seg = n"
  by (simp add: seg_carries_def Let_def seg_pos_def wrap_alt ucast_of_nat_u32 unat_u32_of_nat)

lemma seg_chain_pos:
  "seg_chain S isn n xs m \<Longrightarrow> m < 2 ^ 32 \<Longrightarrow> x \<in> set xs \<Longrightarrow> seg_pos isn x < m"
proof (induction xs arbitrary: n)
  case (Cons y ys)
  then have y: "tx_seg_ok S isn n y" "0 < slen y" "seg_chain S isn (n + slen y) ys m" by simp_all
  then have "n + slen y \<le> m" using seg_chain_le by blast
  then have "seg_pos isn y < m" using y Cons.prems(2) seg_pos_carries [of S isn n y] by (simp add: tx_seg_ok_def)
  then show ?case using Cons y by auto
qed simp

lemma seg_within_mono: "seg_within isn lim x \<Longrightarrow> lim \<le> lim' \<Longrightarrow> seg_within isn lim' x"
  by (auto simp: seg_within_def)

lemma seg_within_eq:
  "th_seqno (seg_header x) = th_seqno (seg_header y) \<Longrightarrow> seg_payload x = seg_payload y \<Longrightarrow>
   seg_within isn lim x = seg_within isn lim y"
  by (simp add: seg_within_def seg_pos_def)

lemma seg_within_empty: "seg_data x = [] \<Longrightarrow> seg_within isn lim x"
  by (simp add: seg_within_def)

lemma tx_within_mono: "tx_within lim s \<Longrightarrow> lim \<le> lim' \<Longrightarrow> tx_within lim' s"
  by (auto simp: tx_within_def intro: seg_within_mono)

lemma cn_within_mono: "cn_within isn lim c \<Longrightarrow> lim \<le> lim' \<Longrightarrow> cn_within isn lim' c"
  by (auto simp: cn_within_def intro: seg_within_mono tx_within_mono)

lemma tx_fill_loop_fin: "tx_FIN_sent s \<Longrightarrow> tx_fill_loop s n = s"
  by (subst tx_fill_loop.simps) simp

lemma tx_next_bound:
  assumes "tx_inv S sent s"
  shows "unat (tx_next_seqno s) \<le> length S + 2" and "\<not> tx_FIN_sent s \<Longrightarrow> unat (tx_next_seqno s) \<le> length S + 1"
    and "unat (tx_abs_ackno s) \<le> unat (tx_next_seqno s)" and "length S + 2 < 2 ^ 32"
  using assms prefix_length_le [of "sent @ bs_buffer (tx_stream s)" S]
  by (auto simp: tx_inv_def tx_stream_inv_def tx_seqno_inv_def)

lemma tx_fill_window_within:
  assumes inv: "tx_inv S sent s" and w: "tx_within lim s"
  shows "tx_within lim (tx_fill_window s)"
proof (cases "tx_SYN_sent s")
  case False
  let ?syn = "tx_make_segment s (tx_next_seqno s) True False []"
  have "seg_within (tx_isn s) lim ?syn" by (rule seg_within_empty) (simp add: tx_make_segment_data)
  then show ?thesis using w False by (auto simp: tx_fill_window_def tx_within_def tx_window_def)
next
  case True
  show ?thesis
  proof (cases "tx_FIN_sent s")
    case True
    then show ?thesis using w \<open>tx_SYN_sent s\<close> by (simp add: tx_fill_window_def tx_fill_loop_fin)
  next
    case False
    let ?k = "tx_window s - (unat (tx_next_seqno s) - unat (tx_abs_ackno s))" and ?s' = "tx_fill_window s"
    obtain new where new: "tx_filled s ?k new ?s'" and inv': "tx_inv S (sent @ concat (map seg_data new)) ?s'"
      using tx_fill_window_spec [OF inv True] by blast
    have f: "tx_segments_out ?s' = tx_segments_out s @ new" "tx_segments_backup ?s' = tx_segments_backup s @ new"
      "tx_isn ?s' = tx_isn s" "tx_abs_ackno ?s' = tx_abs_ackno s" "tx_window_size ?s' = tx_window_size s"
      "unat (tx_next_seqno ?s') = unat (tx_next_seqno s) + sum_list (map slen new)" "sum_list (map slen new) \<le> ?k"
      using new by (simp_all add: tx_filled_def)
    have win: "unat (tx_abs_ackno s) + tx_window s \<le> lim + 2" using w False by (simp add: tx_within_def)
    obtain n where chain: "seg_chain S (tx_isn s) n (tx_segments_backup s @ new) (unat (tx_next_seqno ?s'))"
      using inv' f by (auto simp: tx_inv_def tx_backup_inv_def)
    have "seg_within (tx_isn s) lim x" if x: "x \<in> set new" for x
    proof -
      have "0 < slen x" using new x by (simp add: tx_filled_def)
      moreover have "slen x \<le> sum_list (map slen new)" using x by (simp add: member_le_sum_list)
      ultimately have "unat (tx_next_seqno ?s') \<le> lim + 2" using f(6,7) win tx_next_bound(3) [OF inv] by linarith
      moreover have "seg_pos (tx_isn s) x < unat (tx_next_seqno ?s')"
        using seg_chain_pos [OF chain] x tx_next_bound(1,4) [OF inv'] by simp
      ultimately show ?thesis by (simp add: seg_within_def)
    qed
    then show ?thesis using w win unfolding tx_within_def tx_window_def f(1-5) by auto
  qed
qed

section \<open>The sender respects the window it was last told\<close>

text \<open>
  What an acknowledgment promises: the peer accepts data up to the stream index \<open>lim\<close>. One that covers
  the FIN may go one further, since there is nothing left to send.
\<close>

definition ack_within :: "bytes \<Rightarrow> wrapping_int32 \<Rightarrow> nat \<Rightarrow> tcp_segment \<Rightarrow> bool" where
  "ack_within S isn lim seg \<longleftrightarrow>
     (let k = ack_pos isn seg; w = unat (th_win (seg_header seg)) in
      k \<le> length S + 2 \<and> (k + w \<le> lim + 1 \<or> k + w \<le> lim + 2 \<and> k = length S + 2))"

lemma ack_pos_wrap: "th_ackno (seg_header seg) = wrap (of_nat (ack_pos isn seg)) isn"
  by (cases "th_ackno (seg_header seg)") (simp add: wrap_alt ucast_of_nat_u32, simp add: ack_pos_def)

lemma unwrap_ack:
  assumes "ack_pos isn seg < 2 ^ 31" and "unat c < 2 ^ 31"
  shows "unwrap (th_ackno (seg_header seg)) isn c = of_nat (ack_pos isn seg)"
proof -
  have "unat (of_nat (ack_pos isn seg) :: u64) = ack_pos isn seg"
    using assms(1) by (intro unat_of_nat_small) simp
  then have "unwrap_exact (of_nat (ack_pos isn seg)) c"
    using assms by (auto simp: unwrap_exact_def adist_def)
  then show ?thesis by (subst ack_pos_wrap [where isn = isn]) (rule wrap_codec.dec_enc)
qed

lemma tx_ack_received_within:
  assumes inv: "tx_inv S sent s" and w: "tx_within lim s" and small: "length S + 2 < 2 ^ 31"
    and ack: "ack_within S (tx_isn s) lim seg" and old: "unat (tx_abs_ackno s) \<le> ack_pos (tx_isn s) seg"
  shows "tx_within lim (tx_ack_received s (th_ackno (seg_header seg)) (th_win (seg_header seg)))"
    and "unat (tx_abs_ackno (tx_ack_received s (th_ackno (seg_header seg)) (th_win (seg_header seg))))
      \<le> ack_pos (tx_isn s) seg"
proof -
  let ?k = "ack_pos (tx_isn s) seg" and ?w = "th_win (seg_header seg)"
  let ?s' = "tx_ack_received s (th_ackno (seg_header seg)) ?w"
  note b = tx_next_bound [OF inv]
  have k: "?k \<le> length S + 2" "?k + unat ?w \<le> lim + 1 \<or> ?k + unat ?w \<le> lim + 2 \<and> ?k = length S + 2"
    using ack by (simp_all add: ack_within_def Let_def)
  have "unwrap (th_ackno (seg_header seg)) (tx_isn s) (tx_abs_ackno s) = of_nat ?k"
    using k(1) small b(1,3) by (intro unwrap_ack) simp_all
  moreover have u: "unat (of_nat ?k :: u64) = ?k" using k(1) small by (intro unat_of_nat_small) simp
  ultimately have abs: "unat (tx_abs_ackno ?s') = (if ?k \<le> unat (tx_next_seqno s) then ?k else unat (tx_abs_ackno s))"
    using tx_ack_received_spec(2) [OF inv, of "th_ackno (seg_header seg)" ?w] old
    by (auto simp: word_less_nat_alt word_le_nat_alt)
  then show "unat (tx_abs_ackno ?s') \<le> ?k" using old by simp
  have win: "tx_window ?s' = max (unat ?w) 1"
    using tx_ack_received_spec(3) [OF inv, of "th_ackno (seg_header seg)" ?w] by (simp add: tx_window_def)
  have "tx_FIN_sent s \<or> unat (tx_abs_ackno ?s') + tx_window ?s' \<le> lim + 2"
    using k b(2,3) unfolding abs win
    by (cases "tx_FIN_sent s"; cases "?k \<le> unat (tx_next_seqno s)") (simp, simp, fastforce, fastforce)
  moreover obtain acked where "tx_segments_backup s = acked @ tx_segments_backup ?s'"
    using tx_ack_received_spec(6) [OF inv] by blast
  ultimately show "tx_within lim ?s'"
    using w by (simp add: tx_within_def)
qed

text \<open>The same for everything the connection does on its own.\<close>

lemma cn_within_send_all: "cn_within isn lim c \<Longrightarrow> cn_within isn lim (cn_send_all c)"
proof -
  assume c: "cn_within isn lim c"
  have "seg_within isn lim (cn_handle_sender_segment c x)" if "x \<in> set (tx_segments_out (cn_sender c))" for x
    using c that seg_within_eq [of "cn_handle_sender_segment c x" x isn lim]
    by (auto simp: cn_within_def tx_within_def)
  then show ?thesis using c by (auto simp: cn_within_def tx_within_def tx_window_def)
qed

lemma cn_within_frame [simp]:
  "cn_within isn lim (c\<lparr>cn_receiver := r\<rparr>) = cn_within isn lim c"
  "cn_within isn lim (c\<lparr>cn_linger_after_streams_finish := b\<rparr>) = cn_within isn lim c"
  "cn_within isn lim (c\<lparr>cn_lingering := b\<rparr>) = cn_within isn lim c"
  "cn_within isn lim (c\<lparr>cn_time_since_last_segrecv := t\<rparr>) = cn_within isn lim c"
  "cn_within isn lim (c\<lparr>cn_active := b\<rparr>) = cn_within isn lim c"
  by (simp_all add: cn_within_def)

lemma cn_within_sender:
  "cn_within isn lim c \<Longrightarrow> tx_within lim s \<Longrightarrow> tx_isn s = tx_isn (cn_sender c) \<Longrightarrow> cn_within isn lim (c\<lparr>cn_sender := s\<rparr>)"
  by (simp add: cn_within_def)

lemma cn_within_fill:
  assumes "cn_busy S W c" and "cn_within isn lim c"
  shows "cn_within isn lim (c\<lparr>cn_sender := tx_fill_window (cn_sender c)\<rparr>)"
proof -
  obtain sent where s: "tx_inv S sent (cn_sender c)" using assms(1) by (auto simp: cn_busy_def cn_sender_inv_def)
  show ?thesis
    using assms(2) tx_fill_window_within [OF s] tx_fill_window_mono(2) [OF s]
    by (intro cn_within_sender) (simp_all add: cn_within_def)
qed

lemma tx_within_frame [simp]:
  "tx_within lim (s\<lparr>tx_stream := st\<rparr>) = tx_within lim s"
  by (simp add: tx_within_def tx_window_def)

lemma tx_send_empty_within: "tx_within lim s \<Longrightarrow> tx_within lim (tx_send_empty_segment s b)"
  by (auto simp: tx_within_def tx_window_def tx_send_empty_segment_def Let_def tx_make_segment_data
      intro: seg_within_empty)

lemma cn_within_empty:
  "cn_within isn lim c \<Longrightarrow> cn_within isn lim (c\<lparr>cn_sender := tx_send_empty_segment (cn_sender c) b\<rparr>)"
  by (rule cn_within_sender)
    (simp_all add: cn_within_def tx_send_empty_within, simp add: tx_send_empty_segment_def Let_def)

lemma cn_within_send_rst:
  assumes "cn_busy S W c" and "cn_within isn lim c"
  shows "cn_within isn lim (cn_send_rst c)"
proof -
  let ?s = "tx_fill_window (cn_sender c)"
  have f: "cn_within isn lim (c\<lparr>cn_sender := ?s\<rparr>)" using assms by (rule cn_within_fill)
  show ?thesis
  proof (cases "tx_segments_out ?s")
    case Nil
    then show ?thesis
      using cn_within_send_all [OF cn_within_empty [OF f, of True]] by (simp add: cn_send_rst_def)
  next
    case (Cons x xs)
    let ?x = "x\<lparr>seg_header := (seg_header x)\<lparr>th_rst := True\<rparr>\<rparr>"
    have "seg_within isn lim ?x = seg_within isn lim x" by (rule seg_within_eq) simp_all
    then have "cn_within isn lim (c\<lparr>cn_sender := ?s\<lparr>tx_segments_out := ?x # xs\<rparr>\<rparr>)"
      using f Cons by (auto simp: cn_within_def tx_within_def tx_window_def)
    then show ?thesis using Cons by (simp add: cn_send_rst_def cn_within_send_all)
  qed
qed

lemma cn_within_unclean:
  assumes "cn_busy S W c" and "cn_within isn lim c"
  shows "cn_within isn lim (cn_unclean_shutdown c b)"
proof -
  have "cn_within isn lim (if b then cn_send_rst c else c)" using assms cn_within_send_rst by simp
  moreover have "cn_within isn lim (d\<lparr>cn_receiver := r,
      cn_sender := (cn_sender d)\<lparr>tx_stream := bs_set_error (tx_stream (cn_sender d))\<rparr>, cn_active := False\<rparr>)"
    if "cn_within isn lim d" for d r
    using that by (simp add: cn_within_def)
  ultimately show ?thesis by (simp add: cn_unclean_shutdown_def Let_def)
qed

lemma tx_tick_within:
  assumes "tx_within lim s" and "tx_tick s ms = Inr s'"
  shows "tx_within lim s' \<and> tx_isn s' = tx_isn s"
  using assms by (auto simp: tx_tick_def Let_def tx_within_def tx_window_def split: if_splits list.splits)

lemma cn_within_tick:
  assumes inv: "cn_inv S W c" and w: "cn_within isn lim c" and tick: "cn_tick c ms = Inr c'"
  shows "cn_within isn lim c'"
proof -
  obtain s where s: "tx_tick (cn_sender c) ms = Inr s" "cn_sender_inv S W s"
    "tx_isn s = tx_isn (cn_sender c)" "tx_next_seqno s = tx_next_seqno (cn_sender c)"
    using cn_sender_tick [of S W "cn_sender c" ms] inv by (auto simp: cn_inv_def)
  let ?c1 = "c\<lparr>cn_sender := s, cn_time_since_last_segrecv := cn_time_since_last_segrecv c + ms\<rparr>"
  have c1: "cn_busy S W ?c1" using cn_busy_sender [of S W c W s] s inv by (simp add: cn_inv_busy)
  have w1: "cn_within isn lim ?c1"
    using w tx_tick_within [OF _ s(1)] by (auto simp: cn_within_def)
  have w2: "cn_within isn lim (?c1\<lparr>cn_sender := tx_fill_window s\<rparr>)" using cn_within_fill [OF c1 w1] by simp
  have "cn_within isn lim (cn_try_close d)" if "cn_within isn lim d" for d
    using that by (simp add: cn_try_close_def case_prod_beta Let_def cn_follow_prereq_snd)
  then show ?thesis
    using tick s(1) cn_within_unclean [OF c1 w1, of True] cn_within_send_all [OF w1] cn_within_send_all [OF w2]
    by (auto simp: cn_tick_def Let_def split: if_splits)
qed

text \<open>Closing the outgoing stream is for good, and a closed stream takes no more bytes.\<close>

definition cn_out_ended :: "tcp_connection \<Rightarrow> bool" where
  "cn_out_ended c \<longleftrightarrow> bs_input_end (tx_stream (cn_sender c))"

lemma tx_fill_loop_input_end: "bs_input_end (tx_stream (tx_fill_loop s n)) = bs_input_end (tx_stream s)"
proof (induction s n rule: tx_fill_loop.induct)
  case (1 s n)
  have "bs_input_end (tx_stream (fst (tx_next_segment s n))) = bs_input_end (tx_stream s)"
    by (simp add: tx_next_segment_def Let_def case_prod_beta)
  then show ?case using 1
    by (subst tx_fill_loop.simps) (cases "tx_next_segment s n"; auto simp: Let_def)
qed

lemma tx_fill_window_input_end [simp]: "bs_input_end (tx_stream (tx_fill_window s)) = bs_input_end (tx_stream s)"
  by (simp add: tx_fill_window_def tx_fill_loop_input_end)

lemma cn_unclean_ended [simp]: "cn_out_ended (cn_unclean_shutdown c b) = cn_out_ended c"
  by (simp add: cn_out_ended_def cn_unclean_shutdown_def cn_send_rst_def Let_def bs_set_error_def
      tx_send_empty_segment_def split: list.split)

lemma tx_tick_stream: "tx_tick s ms = Inr s' \<Longrightarrow> tx_stream s' = tx_stream s"
  by (auto simp: tx_tick_def Let_def split: if_splits list.splits)

lemma cn_tick_ended: "cn_tick c ms = Inr c' \<Longrightarrow> cn_out_ended c' = cn_out_ended c"
  by (auto simp: cn_tick_def Let_def cn_out_ended_def [of "cn_try_close _"] tx_tick_stream
      split: sum.splits if_splits) (simp_all add: cn_out_ended_def tx_tick_stream)

lemma cn_segment_received_ended: "cn_out_ended (cn_segment_received c seg) = cn_out_ended c"
  by (simp add: cn_segment_received_def Let_def cn_receive_def)
    (simp add: cn_out_ended_def cn_answer_def cn_answer_empty_def cn_take_ack_def cn_follow_prereq_snd Let_def
      tx_send_empty_segment_def split: option.split)

lemma cn_write_ended: "cn_out_ended (snd (cn_write c data)) = cn_out_ended c"
  by (simp add: cn_write_def cn_out_ended_def case_prod_beta Let_def tx_stream_write_def)

lemma cn_write_closed: "cn_out_ended c \<Longrightarrow> fst (cn_write c data) = 0"
  by (simp add: cn_write_def cn_out_ended_def case_prod_beta Let_def tx_stream_write_def bs_write_def bs_input_ended_def)

lemma cn_local_mono:
  assumes "cn_local W c W' c' out"
  shows "prefix W W' \<and> (cn_out_ended c \<longrightarrow> cn_out_ended c' \<and> W' = W)"
  using assms
proof (cases rule: cn_local.cases)
  case (writing data n)
  then show ?thesis using cn_write_ended [of c data] cn_write_closed [of c data] by auto
next
  case (ticking ms)
  then show ?thesis using cn_tick_ended by auto
qed (auto simp: cn_out_ended_def cn_connect_def cn_end_input_stream_def tx_stream_end_input_def bs_end_input_def
    cn_inbound_read_def case_prod_beta Let_def cn_destroy_def, auto simp: cn_out_ended_def [symmetric])

text \<open>
  A step of the owner is a step of the runs of \<open>cn_reach\<close> for the stream \<open>S\<close>, if what was written is still a
  prefix of \<open>S\<close>, and all of it once the stream is closed.
\<close>

lemma cn_local_reach:
  assumes "cn_local W c W' c' out" and "cn_reach S c0 W c" and "prefix W' S" and "cn_out_ended c' \<longrightarrow> W' = S"
  shows "cn_reach S c0 W' c'"
  using assms(1)
proof (cases rule: cn_local.cases)
  case ending
  have "cn_out_ended c'"
    by (simp add: ending cn_out_ended_def cn_end_input_stream_def tx_stream_end_input_def bs_end_input_def)
  then have "W = S" using assms(4) ending by simp
  then show ?thesis using assms(2) ending by (auto intro: cn_reach.ending)
qed (use assms(2,3) in \<open>auto intro: cn_reach.intros\<close>)

lemma cn_local_within:
  assumes "cn_local W c W' c' out" and inv: "cn_inv S W c" and w: "cn_within isn lim c"
    and "prefix W' S" and "cn_out_ended c' \<longrightarrow> W' = S"
  shows "cn_within isn lim c'"
  using assms(1)
proof (cases rule: cn_local.cases)
  case connecting
  have "cn_busy S W c" using inv by (simp add: cn_inv_busy)
  then show ?thesis
    using cn_within_send_all [OF cn_within_fill [OF _ w]] connecting by (simp add: cn_connect_def)
next
  case (writing data n)
  obtain n' s where s: "tx_stream_write (cn_sender c) data = (n', s)" by (cases "tx_stream_write (cn_sender c) data")
  have n': "n' = n" "c' = cn_send_all (c\<lparr>cn_sender := tx_fill_window s\<rparr>)"
    using writing s by (simp_all add: cn_write_def)
  have "cn_within isn lim (c\<lparr>cn_sender := s\<rparr>)"
    using w s by (auto simp: cn_within_def tx_stream_write_def Let_def case_prod_beta)
  from cn_within_fill [OF cn_write_busy [OF inv s] this] show ?thesis
    using assms(4) writing n' by (simp add: cn_within_send_all)
next
  case ending
  have "cn_out_ended c'"
    by (simp add: ending cn_out_ended_def cn_end_input_stream_def tx_stream_end_input_def bs_end_input_def)
  then have "cn_inv S S c" using assms(5) inv ending by simp
  moreover have "cn_within isn lim (c\<lparr>cn_sender := tx_stream_end_input (cn_sender c)\<rparr>)"
    using w by (simp add: cn_within_def tx_stream_end_input_def)
  ultimately show ?thesis
    using cn_within_fill [OF cn_end_busy] ending by (simp add: cn_end_input_stream_def cn_within_send_all)
next
  case (ticking ms)
  then show ?thesis using cn_within_tick [OF inv w] by simp
next
  case (reading k)
  then show ?thesis using w by (auto simp: cn_inbound_read_def case_prod_beta Let_def)
next
  case destroying
  then show ?thesis using w inv cn_within_unclean [of S W c isn lim True] by (simp add: cn_destroy_def cn_inv_busy)
qed

lemma cn_segment_received_within:
  assumes inv: "cn_inv S W c" and w: "cn_within isn lim c" and small: "length S + 2 < 2 ^ 31"
    and ack: "th_ack (seg_header seg) \<Longrightarrow>
      ack_within S isn lim seg \<and> unat (tx_abs_ackno (cn_sender c)) \<le> ack_pos isn seg"
  shows "cn_within isn lim (cn_segment_received c seg)"
proof -
  let ?c1 = "cn_receive c seg" and ?d = "cn_take_ack (cn_receive c seg) (seg_header seg)"
  have c1: "cn_busy S W ?c1" "cn_within isn lim ?c1" using inv w by (simp_all add: cn_receive_def cn_inv_busy)
  have i: "tx_isn (cn_sender c) = isn" using w by (simp add: cn_within_def)
  obtain sent where s: "tx_inv S sent (cn_sender c)" using inv by (auto simp: cn_inv_def cn_sender_inv_def)
  have d: "cn_within isn lim ?d"
  proof (cases "th_ack (seg_header seg)")
    case True
    then have "tx_within lim (tx_ack_received (cn_sender c) (th_ackno (seg_header seg)) (th_win (seg_header seg)))"
      using tx_ack_received_within(1) [OF s _ small] ack w i by (simp add: cn_within_def)
    then show ?thesis using True w by (simp add: cn_take_ack_def cn_follow_prereq_snd cn_receive_def cn_within_def)
  next
    case False
    then show ?thesis using c1(2) by (simp add: cn_take_ack_def cn_follow_prereq_snd Let_def)
  qed
  have db: "cn_busy S W ?d" using c1(1) by (rule cn_take_ack_busy)
  have "cn_within isn lim (cn_answer_empty ?d h)" for h
    using d by (auto simp: cn_answer_empty_def intro!: cn_within_send_all cn_within_empty split: option.split)
  moreover have "cn_within isn lim (cn_answer ?d h)" for h
    using d cn_within_fill [OF db d] cn_within_empty [OF cn_within_fill [OF db d], of False]
    by (auto simp: cn_answer_def Let_def intro!: cn_within_send_all cn_within_empty)
  ultimately show ?thesis
    using w cn_within_unclean [OF c1, of False] by (simp add: cn_segment_received_def Let_def)
qed

section \<open>The receiving endpoint\<close>

lemma cn_send_all_stamped:
  assumes "cn_busy S W c"
  shows "\<exists>new. cn_segments_out (cn_send_all c) = cn_segments_out c @ new \<and> (\<forall>x \<in> set new. cn_stamped (cn_receiver c) x)"
  using cn_send_all_out [OF assms] by (cases "tx_segments_out (cn_sender c) = []") auto

text \<open>What a step of the owner does to the receiver and to the queue of an endpoint that stays active.\<close>

lemma cn_local_out:
  assumes "cn_local W c W' c' out" and inv: "cn_inv S W c" and "cn_active c'"
    and "prefix W' S" and "cn_out_ended c' \<longrightarrow> W' = S"
  obtains (stamped) new where "cn_segments_out c' = cn_segments_out c @ new" "out = []"
      "\<forall>x \<in> set new. cn_stamped (cn_receiver c) x" "cn_receiver c' = cn_receiver c"
  | (read_out) k where "rx_stream_read (cn_receiver c) k = (out, cn_receiver c')" "cn_segments_out c' = cn_segments_out c"
proof -
  have st: thesis if d: "cn_busy S V d" "c' = cn_send_all d" "cn_segments_out d = cn_segments_out c"
    "cn_receiver d = cn_receiver c" "out = []" for V d
  proof -
    obtain new where "cn_segments_out c' = cn_segments_out c @ new" "\<forall>x \<in> set new. cn_stamped (cn_receiver c) x"
      using cn_send_all_stamped [OF d(1)] d(2-4) by auto
    then show thesis using d by (intro stamped [of new]) simp_all
  qed
  show thesis using assms(1)
  proof (cases rule: cn_local.cases)
    case connecting
    have "cn_busy S W (c\<lparr>cn_sender := tx_fill_window (cn_sender c)\<rparr>)" using inv by (simp add: cn_busy_fill cn_inv_busy)
    then show thesis by (rule st) (simp_all add: connecting cn_connect_def)
  next
    case (writing data n)
    obtain n' s where s: "tx_stream_write (cn_sender c) data = (n', s)" by (cases "tx_stream_write (cn_sender c) data")
    have n': "n' = n" "c' = cn_send_all (c\<lparr>cn_sender := tx_fill_window s\<rparr>)" using writing s by (simp_all add: cn_write_def)
    have "cn_busy S W' (c\<lparr>cn_sender := s\<rparr>)" using cn_write_busy [OF inv s] assms(4) writing n' by simp
    from cn_busy_fill [OF this] show thesis by (rule st) (simp_all add: writing n')
  next
    case ending
    have "cn_out_ended c'"
      by (simp add: ending cn_out_ended_def cn_end_input_stream_def tx_stream_end_input_def bs_end_input_def)
    then have "cn_inv S S c" using assms(5) inv ending by simp
    from cn_busy_fill [OF cn_end_busy [OF this]] show thesis
      by (rule st) (simp_all add: ending cn_end_input_stream_def)
  next
    case (ticking ms)
    obtain s where s: "tx_tick (cn_sender c) ms = Inr s" "cn_sender_inv S W s"
      "tx_isn s = tx_isn (cn_sender c)" "tx_next_seqno s = tx_next_seqno (cn_sender c)"
      using cn_sender_tick [of S W "cn_sender c" ms] inv by (auto simp: cn_inv_def)
    let ?c1 = "c\<lparr>cn_sender := s, cn_time_since_last_segrecv := cn_time_since_last_segrecv c + ms\<rparr>"
    let ?c2 = "if tx_SYN_sent s then ?c1\<lparr>cn_sender := tx_fill_window s\<rparr> else ?c1"
    have c1: "cn_busy S W ?c1" using cn_busy_sender [of S W c W s] s inv by (simp add: cn_inv_busy)
    have "cn_busy S W ?c2" using c1 cn_busy_fill [OF c1] by simp
    from cn_send_all_stamped [OF this] obtain new where
      new: "cn_segments_out (cn_send_all ?c2) = cn_segments_out c @ new" "\<forall>x \<in> set new. cn_stamped (cn_receiver c) x"
      by (auto split: if_splits)
    have "c' = cn_try_close (cn_send_all ?c2)"
      using ticking s(1) assms(3) by (auto simp: cn_tick_def Let_def cn_unclean_shutdown_def split: if_splits)
    moreover have "cn_segments_out (cn_try_close d) = cn_segments_out d" for d
      by (simp add: cn_try_close_def cn_follow_prereq_snd case_prod_beta Let_def)
    ultimately show thesis using new ticking by (intro stamped [of new]) simp_all
  next
    case (reading k)
    then show thesis by (auto simp: cn_inbound_read_def case_prod_beta Let_def intro!: read_out [of k])
  next
    case destroying
    then show thesis using assms(3) by (auto simp: cn_destroy_def cn_unclean_shutdown_def Let_def split: if_splits)
  qed
qed

lemma rx_set_error_stream [simp]:
  "bs_buffer (rx_stream_out (rx_set_error r)) = bs_buffer (rx_stream_out r)"
  "bs_input_ended (rx_stream_out (rx_set_error r)) = bs_input_ended (rx_stream_out r)"
  "bs_inv (rx_stream_out (rx_set_error r)) = bs_inv (rx_stream_out r)"
  by (simp_all add: rx_set_error_def rx_stream_out_def Let_def bs_set_error_def bs_input_ended_def bs_inv_def)

lemma cn_unclean_receiver [simp]: "cn_receiver (cn_unclean_shutdown c b) = rx_set_error (cn_receiver c)"
  by (simp add: cn_unclean_shutdown_def Let_def cn_send_rst_def)

lemma cn_local_receiver:
  assumes "cn_local W c W' c' out"
  shows "out = [] \<and> cn_receiver c' \<in> {cn_receiver c, rx_set_error (cn_receiver c)} \<or>
    (\<exists>k. rx_stream_read (cn_receiver c) k = (out, cn_receiver c'))"
  using assms
  by cases (auto simp: cn_connect_def cn_write_def cn_end_input_stream_def cn_destroy_def cn_inbound_read_def cn_tick_def
      case_prod_beta Let_def split: sum.splits if_splits)

lemma cn_segment_received_receiver:
  assumes "cn_active c"
  shows "cn_receiver (cn_segment_received c seg) =
    (if th_rst (seg_header seg) then rx_set_error (rx_segment_received (cn_receiver c) seg)
     else rx_segment_received (cn_receiver c) seg)"
  using assms
  by (simp add: cn_segment_received_def Let_def cn_receive_def cn_answer_empty_def cn_answer_def split: option.split)

lemma cn_segment_received_out:
  assumes "cn_inv S W c" and "cn_active (cn_segment_received c seg)"
  shows "\<exists>new. cn_segments_out (cn_segment_received c seg) = cn_segments_out c @ new \<and>
    (\<forall>x \<in> set new. cn_stamped (rx_segment_received (cn_receiver c) seg) x)"
    and "cn_receiver (cn_segment_received c seg) = rx_segment_received (cn_receiver c) seg" and "cn_active c"
proof -
  show act: "cn_active c"
    by (rule ccontr) (use assms(2) in \<open>simp add: cn_segment_received_def\<close>)
  have rst: "\<not> th_rst (seg_header seg)"
    using assms(2) act by (auto simp: cn_segment_received_def Let_def cn_unclean_shutdown_def)
  then show "cn_receiver (cn_segment_received c seg) = rx_segment_received (cn_receiver c) seg"
    by (simp add: cn_segment_received_receiver act)
  let ?d = "cn_take_ack (cn_receive c seg) (seg_header seg)"
  have d: "cn_busy S W ?d"
    using assms(1) by (intro cn_take_ack_busy) (simp add: cn_inv_busy cn_receive_def)
  let ?e = "case rx_ackno (cn_receiver ?d) of None \<Rightarrow> ?d
    | Some ackno \<Rightarrow> if wi_eq (th_seqno (seg_header seg)) (wi_minus_u32 ackno 1)
        then ?d\<lparr>cn_sender := tx_send_empty_segment (cn_sender ?d) False\<rparr> else ?d"
  have "cn_busy S W ?e" using d by (simp add: cn_busy_empty split: option.split)
  moreover have "cn_receiver ?e = rx_segment_received (cn_receiver c) seg" "cn_segments_out ?e = cn_segments_out c"
    by (simp_all add: cn_receive_def split: option.split)
  ultimately have "\<exists>new. cn_segments_out (cn_answer_empty ?d (seg_header seg)) = cn_segments_out c @ new \<and>
      (\<forall>x \<in> set new. cn_stamped (rx_segment_received (cn_receiver c) seg) x)"
    using cn_send_all_stamped [of S W ?e] unfolding cn_answer_empty_def by simp
  moreover have "\<exists>new. cn_segments_out (cn_answer ?d (seg_header seg)) = cn_segments_out c @ new \<and>
      (\<forall>x \<in> set new. cn_stamped (rx_segment_received (cn_receiver c) seg) x)"
    using cn_answer_out [OF d, of "seg_header seg"] by (auto simp: cn_receive_def)
  ultimately show "\<exists>new. cn_segments_out (cn_segment_received c seg) = cn_segments_out c @ new \<and>
      (\<forall>x \<in> set new. cn_stamped (rx_segment_received (cn_receiver c) seg) x)"
    using act rst by (simp add: cn_segment_received_def Let_def)
qed

text \<open>The position of the receiver: how it counts, and that it only moves forward while the window's end stays.\<close>

lemma rx_next_nat:
  assumes "rx_inv S isn R r"
  shows "unat (rx_next r) = unat (sr_first_unassembled (rx_reassembler r)) + 1 +
      (if sr_reach_end (rx_reassembler r) then 1 else 0)"
    and "sr_reach_end (rx_reassembler r) \<Longrightarrow> unat (sr_first_unassembled (rx_reassembler r)) = length S"
    and "unat (sr_first_unassembled (rx_reassembler r)) \<le> length S"
proof -
  have inv: "sr_inv S R (rx_reassembler r)" using assms by (simp add: rx_inv_def)
  then have b: "unat (sr_first_unassembled (rx_reassembler r)) \<le> length S" "length S < 2 ^ 63"
    by (simp_all add: sr_inv_def sr_core_def)
  then show "unat (rx_next r) = unat (sr_first_unassembled (rx_reassembler r)) + 1 +
      (if sr_reach_end (rx_reassembler r) then 1 else 0)"
    by (simp add: rx_next_def unat_word_ariths)
  show "unat (sr_first_unassembled (rx_reassembler r)) = length S" if "sr_reach_end (rx_reassembler r)"
    using that sr_reach_end_iff [OF inv] by simp
  show "unat (sr_first_unassembled (rx_reassembler r)) \<le> length S" by (rule b)
qed

lemma sr_first_unassembled_mono:
  assumes "sr_inv S R' r'" and "sr_covered r \<subseteq> sr_covered r'"
  shows "unat (sr_first_unassembled r) \<le> unat (sr_first_unassembled r')"
proof (rule ccontr)
  assume "\<not> ?thesis"
  then have "unat (sr_first_unassembled r') \<in> sr_covered r'"
    using assms(2) sr_inv_fu_covered [of _ r] by (meson not_le subsetD)
  then show False using assms(1) by (auto simp: sr_inv_def sr_covered_def word_less_nat_alt)
qed

lemma rx_segment_received_moves:
  assumes inv: "rx_inv S isn R r" and ok: "rx_seg_ok S isn n r seg"
  defines "r' \<equiv> rx_segment_received r seg"
  shows "sr_limit (rx_reassembler r') = sr_limit (rx_reassembler r)"
    and "rx_isn r \<noteq> None \<Longrightarrow> rx_isn r' \<noteq> None \<and> unat (rx_next r) \<le> unat (rx_next r')"
proof -
  have sr: "sr_inv S R (rx_reassembler r)" using inv by (simp add: rx_inv_def)
  have inv': "rx_inv S isn R r'" using rx_segment_received_inv [OF inv ok] by (simp add: r'_def)
  have "\<exists>i e. push_ok S (rx_reassembler r) (buf_str (seg_payload seg)) i e \<and>
      rx_reassembler r' = sr_push_substring (rx_reassembler r) (buf_str (seg_payload seg)) i e"
    if known: "rx_isn r \<noteq> None"
  proof -
    obtain i where i: "rx_isn r = Some i" using known by blast
    then have "i = isn" "th_seqno (seg_header seg) = wrap (of_nat n) isn"
      "unwrap_exact (of_nat n) (sr_first_unassembled (rx_reassembler r))"
      using inv ok by (simp_all add: rx_inv_def rx_seg_ok_def seg_carries_def Let_def)
    then show ?thesis
      using rx_push_ok [OF inv ok i] i
      by (auto simp: r'_def rx_segment_received_def Let_def wrap_codec.dec_enc buf_copy_def)
  qed
  note some = this
  have none: "rx_reassembler r' = rx_reassembler r \<or> (\<exists>e. push_ok S (rx_reassembler r) (buf_str (seg_payload seg)) 0 e \<and>
      rx_reassembler r' = sr_push_substring (rx_reassembler r) (buf_str (seg_payload seg)) 0 e)" if "rx_isn r = None"
  proof (cases "th_syn (seg_header seg)")
    case True
    then have "push_ok S (rx_reassembler r) (buf_str (seg_payload seg)) 0 (th_fin (seg_header seg))"
      using ok by (auto simp: rx_seg_ok_def seg_carries_def seg_index_def push_ok_def Let_def)
    then show ?thesis using that True by (auto simp: r'_def rx_segment_received_def Let_def buf_copy_def)
  qed (use that in \<open>simp add: r'_def rx_segment_received_def Let_def\<close>)
  show "sr_limit (rx_reassembler r') = sr_limit (rx_reassembler r)"
    using some none sr_push_substring_spec(3) [OF sr] by (cases "rx_isn r = None") auto
  assume r: "rx_isn r \<noteq> None"
  then obtain i e where p: "push_ok S (rx_reassembler r) (buf_str (seg_payload seg)) i e"
    "rx_reassembler r' = sr_push_substring (rx_reassembler r) (buf_str (seg_payload seg)) i e"
    using some by blast
  have "sr_covered (rx_reassembler r) \<subseteq> sr_covered (rx_reassembler r')"
    unfolding p(2) sr_push_substring_spec(2) [OF sr p(1)] by blast
  then have fu: "unat (sr_first_unassembled (rx_reassembler r)) \<le> unat (sr_first_unassembled (rx_reassembler r'))"
    using inv' by (intro sr_first_unassembled_mono [of S R]) (simp_all add: rx_inv_def)
  have "sr_has_eof (rx_reassembler r) \<Longrightarrow> sr_has_eof (rx_reassembler r')"
    unfolding p(2) sr_push_substring_spec(4) [OF sr p(1)] by blast
  then have "sr_reach_end (rx_reassembler r) \<Longrightarrow> sr_reach_end (rx_reassembler r')"
    using fu sr_reach_end_iff [OF sr] sr_reach_end_iff [of S R "rx_reassembler r'"] inv' rx_next_nat(3) [OF inv']
    by (auto simp: rx_inv_def)
  then show "rx_isn r' \<noteq> None \<and> unat (rx_next r) \<le> unat (rx_next r')"
    using fu r rx_next_nat(1) [OF inv] rx_next_nat(1) [OF inv']
    by (auto simp: r'_def rx_segment_received_def Let_def)
qed

section \<open>The invariant of the link\<close>

text \<open>What the receiving application has and will get, whatever state the connection is in.\<close>

definition rx_delivered :: "bytes \<Rightarrow> bytes \<Rightarrow> tcp_receiver \<Rightarrow> bool" where
  "rx_delivered S R r \<longleftrightarrow> bs_inv (rx_stream_out r) \<and> prefix (R @ bs_buffer (rx_stream_out r)) S \<and>
     (bs_input_ended (rx_stream_out r) \<longrightarrow> R @ bs_buffer (rx_stream_out r) = S)"

abbreviation rx_limit :: "tcp_receiver \<Rightarrow> nat" where
  "rx_limit r \<equiv> sr_limit (rx_reassembler r)"

text \<open>A segment on its way from \<open>A\<close> to \<open>B\<close>, and the acknowledgments on their way back, in the order sent.\<close>

definition link_seg_ok :: "bytes \<Rightarrow> wrapping_int32 \<Rightarrow> nat \<Rightarrow> tcp_segment \<Rightarrow> bool" where
  "link_seg_ok S isn lim seg \<longleftrightarrow> seg_within isn lim seg \<and>
     (\<exists>n \<le> length S + 2. tx_seg_ok S isn n (seg\<lparr>seg_header := (seg_header seg)\<lparr>th_ack := False\<rparr>\<rparr>))"

abbreviation is_ack :: "tcp_segment \<Rightarrow> bool" where
  "is_ack seg \<equiv> th_ack (seg_header seg)"

definition link_acks :: "bytes \<Rightarrow> wrapping_int32 \<Rightarrow> nat \<Rightarrow> tcp_receiver \<Rightarrow> tcp_segment list \<Rightarrow> bool" where
  "link_acks S isn lo r segs \<longleftrightarrow> sorted (map (ack_pos isn) (filter is_ack segs)) \<and>
     (\<forall>x \<in> set segs. is_ack x \<longrightarrow> rx_isn r \<noteq> None \<and> lo \<le> ack_pos isn x \<and> ack_pos isn x \<le> unat (rx_next r) \<and>
        ack_within S isn (rx_limit r) x)"

definition link_live :: "bytes \<Rightarrow> wrapping_int32 \<Rightarrow> link \<Rightarrow> bool" where
  "link_live S isn l \<longleftrightarrow>
     (let r = cn_receiver (lk_B l); lo = unat (tx_abs_ackno (cn_sender (lk_A l))) in
      rx_inv S isn (lk_read l) r \<and> cn_within isn (rx_limit r) (lk_A l) \<and>
      (\<forall>x \<in> set (lk_AB l). link_seg_ok S isn (rx_limit r) x) \<and>
      link_acks S isn lo r (lk_BA l @ cn_segments_out (lk_B l)) \<and>
      (lo = 0 \<or> rx_isn r \<noteq> None \<and> lo \<le> unat (rx_next r)))"

definition link_inv :: "bytes \<Rightarrow> bytes \<Rightarrow> tcp_connection \<Rightarrow> tcp_connection \<Rightarrow> link \<Rightarrow> bool" where
  "link_inv S T a0 b0 l \<longleftrightarrow> cn_reach S a0 (lk_written l) (lk_A l) \<and> cn_reach T b0 (lk_answered l) (lk_B l) \<and>
     rx_delivered S (lk_read l) (cn_receiver (lk_B l)) \<and>
     (cn_active (lk_B l) \<longrightarrow> link_live S (tx_isn (cn_sender a0)) l)"

lemma rx_inv_delivered: "rx_inv S isn R r \<Longrightarrow> rx_delivered S R r"
proof -
  assume inv: "rx_inv S isn R r"
  then have "sr_inv S R (rx_reassembler r)" by (simp add: rx_inv_def)
  moreover from this have "bs_inv (rx_stream_out r)" by (simp add: sr_inv_def sr_core_def rx_stream_out_def)
  ultimately show ?thesis
    using rx_inv_stream [OF inv] sr_reach_end_iff [of S R "rx_reassembler r"]
    by (auto simp: rx_delivered_def take_is_prefix)
qed

lemma rx_delivered_error: "rx_delivered S R r \<Longrightarrow> rx_delivered S R (rx_set_error r)"
  by (simp add: rx_delivered_def)

lemma rx_delivered_read:
  assumes "rx_delivered S R r" and "rx_stream_read r k = (out, r')"
  shows "rx_delivered S (R @ out) r'"
proof -
  let ?s = "rx_stream_out r"
  have o: "out = fst (bs_read ?s k)" "rx_stream_out r' = snd (bs_read ?s k)"
    using assms(2) by (auto simp: rx_stream_read_def sr_stream_read_def rx_stream_out_def Let_def case_prod_beta)
  have inv: "bs_inv ?s" using assms(1) by (simp add: rx_delivered_def)
  have "out @ bs_buffer (rx_stream_out r') = bs_buffer ?s" unfolding o by (rule stream.read_contents [OF inv])
  moreover have "bs_inv (rx_stream_out r')" unfolding o by (rule stream.read_invar [OF inv])
  moreover have "bs_input_ended (rx_stream_out r') = bs_input_ended ?s"
    unfolding o by (simp add: bs_input_ended_def)
  ultimately show ?thesis using assms(1) by (simp add: rx_delivered_def)
qed

lemma link_acks_mono:
  assumes "link_acks S isn lo r segs" and "rx_limit r \<le> rx_limit r'"
    and "rx_isn r \<noteq> None \<Longrightarrow> rx_isn r' \<noteq> None \<and> unat (rx_next r) \<le> unat (rx_next r')"
  shows "link_acks S isn lo r' segs"
  using assms unfolding link_acks_def ack_within_def Let_def by fastforce

lemma link_acks_tl:
  "link_acks S isn lo r (xs @ x # ys) \<Longrightarrow> link_acks S isn lo r (xs @ ys)"
  by (cases "is_ack x") (auto simp: link_acks_def sorted_append)

text \<open>A freshly stamped segment is the newest acknowledgment.\<close>

lemma cn_stamped_ack:
  assumes inv: "rx_inv S isn R r" and small: "length S + 2 < 2 ^ 31" and x: "cn_stamped r x" and a: "is_ack x"
  shows "rx_isn r \<noteq> None" and "ack_pos isn x = unat (rx_next r)" and "ack_within S isn (rx_limit r) x"
proof -
  note n = rx_next_nat [OF inv]
  show i: "rx_isn r \<noteq> None" using inv x a by (auto simp: rx_inv_def cn_stamped_def split: option.splits)
  then have "th_ackno (seg_header x) = wrap (rx_next r) isn"
    using inv x by (auto simp: rx_inv_def cn_stamped_def split: option.splits)
  moreover have le: "unat (rx_next r) \<le> length S + 2" using n by auto
  ultimately show k: "ack_pos isn x = unat (rx_next r)"
    using small by (simp add: ack_pos_def wrap_alt unat_ucast_mod)
  have st: "length (bs_buffer (rx_stream_out r)) \<le> unat (rx_capacity r)" "str_ok (bs_buffer (rx_stream_out r))"
    using rx_inv_stream [OF inv] by simp_all
  then have "unat (rx_window_size r) = unat (rx_capacity r) - length (bs_buffer (rx_stream_out r))"
    by (simp add: rx_window_size_def bs_buffer_size_def unat_diff_no_wrap)
  moreover have "rx_capacity r = bs_capacity (sr_output (rx_reassembler r))" using inv by (simp add: rx_inv_def rx_stream_out_def)
  ultimately have "unat (th_win (seg_header x)) \<le> bs_room (sr_output (rx_reassembler r))"
    using x by (simp add: cn_stamped_def bs_room_def rx_stream_out_def)
  then show "ack_within S isn (rx_limit r) x"
    using n le unfolding ack_within_def k sr_limit_def Let_def by (auto split: if_splits)
qed

lemma link_acks_append:
  assumes acks: "link_acks S isn lo r segs" and inv: "rx_inv S isn R r" and small: "length S + 2 < 2 ^ 31"
    and new: "\<forall>x \<in> set new. cn_stamped r x" and lo: "lo = 0 \<or> rx_isn r \<noteq> None \<and> lo \<le> unat (rx_next r)"
  shows "link_acks S isn lo r (segs @ new)"
proof -
  have n: "rx_isn r \<noteq> None \<and> ack_pos isn x = unat (rx_next r) \<and> ack_within S isn (rx_limit r) x"
    if "x \<in> set new" "is_ack x" for x
    using cn_stamped_ack [OF inv small] new that by blast
  then have "map (ack_pos isn) (filter is_ack new) = map (\<lambda>_. unat (rx_next r)) (filter is_ack new)"
    by (auto intro!: map_cong)
  moreover have "sorted (map (\<lambda>_. unat (rx_next r)) xs)" for xs :: "tcp_segment list"
    by (simp add: map_replicate_const)
  ultimately have "sorted (map (ack_pos isn) (filter is_ack new))" by (simp only:)
  moreover have "\<forall>x \<in> set segs. is_ack x \<longrightarrow> ack_pos isn x \<le> unat (rx_next r)" using acks by (simp add: link_acks_def)
  ultimately show ?thesis using acks n lo by (auto simp: link_acks_def sorted_append)
qed

text \<open>A segment of \<open>A\<close> is one the receiver of \<open>B\<close> can deal with.\<close>

lemma link_seg_rx_ok:
  assumes inv: "rx_inv S isn R r" and small: "length S + 2 < 2 ^ 31" and seg: "link_seg_ok S isn (rx_limit r) seg"
  shows "\<exists>n. rx_seg_ok S isn n r seg"
proof -
  obtain n where n: "n \<le> length S + 2" "tx_seg_ok S isn n (seg\<lparr>seg_header := (seg_header seg)\<lparr>th_ack := False\<rparr>\<rparr>)"
    using seg by (auto simp: link_seg_ok_def)
  then have c: "seg_carries S isn n seg" "th_syn (seg_header seg) \<longrightarrow> seg_data seg = [] \<and> \<not> th_fin (seg_header seg)"
    by (simp_all add: tx_seg_ok_def)
  have core: "sr_core S R (rx_reassembler r)" using inv by (simp add: rx_inv_def sr_inv_def)
  have u: "unat (of_nat n :: u64) = n" using n(1) small by (intro unat_of_nat_small) simp
  have "unwrap_exact (of_nat n) (sr_first_unassembled (rx_reassembler r))"
    using u n(1) small rx_next_nat(3) [OF inv] by (auto simp: unwrap_exact_def adist_def)
  moreover have "of_nat (seg_index n seg) \<le> sr_first_unacceptable (rx_reassembler r)" if d: "seg_data seg \<noteq> []"
  proof -
    have "n \<le> rx_limit r + 1"
      using seg d seg_pos_carries [OF c(1)] n(1) small by (simp add: link_seg_ok_def seg_within_def)
    moreover have i: "seg_index n seg = n - 1" using c(2) d by (simp add: seg_index_def)
    moreover have "unat (of_nat (n - 1) :: u64) = n - 1" using n(1) small by (intro unat_of_nat_small) simp
    ultimately show ?thesis using unat_sr_first_unacceptable [OF core] by (simp add: word_le_nat_alt)
  qed
  ultimately show ?thesis using c by (intro exI [of _ n]) (auto simp: rx_seg_ok_def Let_def)
qed

text \<open>The acknowledged position of the sender moves only when an acknowledgment arrives.\<close>

lemma tx_fill_loop_abs: "tx_abs_ackno (tx_fill_loop s n) = tx_abs_ackno s"
proof (induction s n rule: tx_fill_loop.induct)
  case (1 s n)
  have "tx_abs_ackno (fst (tx_next_segment s n)) = tx_abs_ackno s"
    by (simp add: tx_next_segment_def Let_def case_prod_beta)
  then show ?case using 1
    by (subst tx_fill_loop.simps) (cases "tx_next_segment s n"; auto simp: Let_def)
qed

lemma tx_fill_window_abs [simp]: "tx_abs_ackno (tx_fill_window s) = tx_abs_ackno s"
  by (simp add: tx_fill_window_def tx_fill_loop_abs)

lemma tx_send_empty_abs [simp]: "tx_abs_ackno (tx_send_empty_segment s b) = tx_abs_ackno s"
  by (simp add: tx_send_empty_segment_def Let_def)

abbreviation cn_abs :: "tcp_connection \<Rightarrow> nat" where
  "cn_abs c \<equiv> unat (tx_abs_ackno (cn_sender c))"

lemma cn_unclean_abs [simp]: "tx_abs_ackno (cn_sender (cn_unclean_shutdown c b)) = tx_abs_ackno (cn_sender c)"
  by (simp add: cn_unclean_shutdown_def Let_def cn_send_rst_def split: list.split)

lemma tx_tick_abs: "tx_tick s ms = Inr s' \<Longrightarrow> tx_abs_ackno s' = tx_abs_ackno s"
  by (auto simp: tx_tick_def Let_def split: if_splits list.splits)

lemma cn_local_abs:
  assumes "cn_local W c W' c' out"
  shows "cn_abs c' = cn_abs c"
  using assms
  by cases (auto simp: cn_connect_def cn_write_def cn_end_input_stream_def cn_destroy_def cn_inbound_read_def cn_tick_def
      tx_stream_write_def tx_stream_end_input_def case_prod_beta Let_def tx_tick_abs split: sum.splits if_splits)

lemma cn_answer_abs [simp]:
  "tx_abs_ackno (cn_sender (cn_answer c h)) = tx_abs_ackno (cn_sender c)"
  "tx_abs_ackno (cn_sender (cn_answer_empty c h)) = tx_abs_ackno (cn_sender c)"
  by (simp_all add: cn_answer_def cn_answer_empty_def Let_def split: option.split)

lemma cn_segment_received_abs:
  "cn_abs (cn_segment_received c seg) = cn_abs c \<or>
   is_ack seg \<and> cn_abs (cn_segment_received c seg) =
     unat (tx_abs_ackno (tx_ack_received (cn_sender c) (th_ackno (seg_header seg)) (th_win (seg_header seg))))"
  by (auto simp: cn_segment_received_def Let_def cn_receive_def cn_take_ack_def cn_follow_prereq_snd)

section \<open>Every step keeps the invariant\<close>

lemma link_A_local:
  assumes step: "cn_local (lk_written l) (lk_A l) W a out" and live: "link_live S isn l"
    and inv: "cn_inv S (lk_written l) (lk_A l)" and W: "prefix W S" "cn_out_ended a \<longrightarrow> W = S"
  shows "link_live S isn (l\<lparr>lk_A := a, lk_written := W\<rparr>)"
  using live cn_local_within [OF step inv _ W] cn_local_abs [OF step] by (simp add: link_live_def Let_def)

lemma link_A_sends:
  assumes out: "cn_segments_out (lk_A l) = seg # segs" and live: "link_live S isn l"
    and inv: "cn_inv S (lk_written l) (lk_A l)"
  shows "link_live S isn (l\<lparr>lk_A := (lk_A l)\<lparr>cn_segments_out := segs\<rparr>, lk_AB := seg # lk_AB l\<rparr>)"
proof -
  let ?r = "cn_receiver (lk_B l)"
  have w: "cn_within isn (rx_limit ?r) (lk_A l)" using live by (simp add: link_live_def Let_def)
  have "cn_seg_ok S (cn_sender (lk_A l)) seg" using inv out by (simp add: cn_inv_def)
  moreover obtain sent where "tx_inv S sent (cn_sender (lk_A l))" using inv by (auto simp: cn_inv_def cn_sender_inv_def)
  ultimately have "link_seg_ok S isn (rx_limit ?r) seg"
    using w out tx_next_bound(1) unfolding cn_seg_ok_def link_seg_ok_def cn_within_def
    by (metis list.set_intros(1) order_trans)
  then show ?thesis using live w out by (simp add: link_live_def Let_def cn_within_def)
qed

lemma link_A_receives:
  assumes BA: "lk_BA l = seg # segs" and live: "link_live S isn l"
    and inv: "cn_inv S (lk_written l) (lk_A l)" and small: "length S + 2 < 2 ^ 31"
  shows "link_live S isn (l\<lparr>lk_A := cn_segment_received (lk_A l) seg, lk_BA := segs\<rparr>)"
proof -
  let ?r = "cn_receiver (lk_B l)" and ?a = "lk_A l" and ?a' = "cn_segment_received (lk_A l) seg"
  have acks: "link_acks S isn (cn_abs ?a) ?r (seg # segs @ cn_segments_out (lk_B l))"
    and w: "cn_within isn (rx_limit ?r) ?a"
    and lo: "cn_abs ?a = 0 \<or> rx_isn ?r \<noteq> None \<and> cn_abs ?a \<le> unat (rx_next ?r)"
    using live BA by (simp_all add: link_live_def Let_def)
  have ack: "ack_within S isn (rx_limit ?r) seg \<and> cn_abs ?a \<le> ack_pos isn seg \<and> rx_isn ?r \<noteq> None \<and>
      ack_pos isn seg \<le> unat (rx_next ?r)" if "is_ack seg"
    using acks that by (simp add: link_acks_def)
  have w': "cn_within isn (rx_limit ?r) ?a'"
    using ack by (intro cn_segment_received_within [OF inv w small]) simp
  obtain sent where s: "tx_inv S sent (cn_sender ?a)" using inv by (auto simp: cn_inv_def cn_sender_inv_def)
  have abs: "cn_abs ?a' = cn_abs ?a \<or> is_ack seg \<and> cn_abs ?a' \<le> ack_pos isn seg"
    using cn_segment_received_abs [of ?a seg] tx_ack_received_within(2) [OF s _ small] ack w
    by (auto simp: cn_within_def)
  have rest: "\<forall>x \<in> set (segs @ cn_segments_out (lk_B l)). is_ack x \<longrightarrow> cn_abs ?a' \<le> ack_pos isn x"
    using acks abs by (cases "is_ack seg") (auto simp: link_acks_def intro: order_trans)
  have "link_acks S isn (cn_abs ?a) ?r (segs @ cn_segments_out (lk_B l))"
    using acks link_acks_tl [of S isn "cn_abs ?a" ?r "[]" seg] by simp
  then have "link_acks S isn (cn_abs ?a') ?r (segs @ cn_segments_out (lk_B l))"
    using rest by (auto simp: link_acks_def)
  moreover have "cn_abs ?a' = 0 \<or> rx_isn ?r \<noteq> None \<and> cn_abs ?a' \<le> unat (rx_next ?r)"
    using abs lo ack by auto
  ultimately show ?thesis using live w' by (simp add: link_live_def Let_def)
qed

lemma link_B_local:
  assumes step: "cn_local (lk_answered l) (lk_B l) V b out" and live: "link_live S isn l" and act: "cn_active b"
    and inv: "cn_inv T (lk_answered l) (lk_B l)" and V: "prefix V T" "cn_out_ended b \<longrightarrow> V = T"
    and small: "length S + 2 < 2 ^ 31"
  shows "link_live S isn (l\<lparr>lk_B := b, lk_answered := V, lk_read := lk_read l @ out\<rparr>)"
proof (cases rule: cn_local_out [OF step inv act V, case_names stamped read_out])
  case (stamped new)
  let ?r = "cn_receiver (lk_B l)"
  have "link_acks S isn (cn_abs (lk_A l)) ?r ((lk_BA l @ cn_segments_out (lk_B l)) @ new)"
    by (rule link_acks_append [of S isn _ _ _ "lk_read l"])
      (use live small stamped(3) in \<open>simp_all add: link_live_def Let_def\<close>)
  then show ?thesis using live stamped by (simp add: link_live_def Let_def)
next
  case (read_out k)
  let ?r = "cn_receiver (lk_B l)"
  have inv: "rx_inv S isn (lk_read l) ?r" using live by (simp add: link_live_def Let_def)
  then have r: "rx_inv S isn (lk_read l @ out) (cn_receiver b)"
    using rx_stream_read_inv [OF inv, of k] read_out(1) by simp
  have "sr_inv S (lk_read l) (rx_reassembler ?r)" using inv by (simp add: rx_inv_def)
  note spec = sr_stream_read_spec [OF this, of k]
  have b: "cn_receiver b = ?r\<lparr>rx_reassembler := snd (sr_stream_read (rx_reassembler ?r) k)\<rparr>"
    using read_out(1) by (simp add: rx_stream_read_def case_prod_beta)
  have lim: "rx_limit ?r \<le> rx_limit (cn_receiver b)" using spec by (simp add: b)
  have same: "rx_isn (cn_receiver b) = rx_isn ?r" "rx_next (cn_receiver b) = rx_next ?r"
    by (simp_all add: b sr_stream_read_def rx_next_def sr_reach_end_def case_prod_beta)
  show ?thesis
    using live r same lim link_acks_mono [of S isn _ ?r _ "cn_receiver b"] cn_within_mono [OF _ lim]
    by (auto simp: link_live_def Let_def read_out(2) link_seg_ok_def intro: seg_within_mono)
qed

lemma link_B_receives:
  assumes seg: "seg \<in> set (lk_AB l)" and live: "link_live S isn l" and act: "cn_active (cn_segment_received (lk_B l) seg)"
    and inv: "cn_inv T (lk_answered l) (lk_B l)" and small: "length S + 2 < 2 ^ 31"
  shows "link_live S isn (l\<lparr>lk_B := cn_segment_received (lk_B l) seg\<rparr>)"
proof -
  let ?r = "cn_receiver (lk_B l)" and ?r' = "rx_segment_received (cn_receiver (lk_B l)) seg"
  have rx: "rx_inv S isn (lk_read l) ?r" and ok: "link_seg_ok S isn (rx_limit ?r) seg"
    and lo: "cn_abs (lk_A l) = 0 \<or> rx_isn ?r \<noteq> None \<and> cn_abs (lk_A l) \<le> unat (rx_next ?r)"
    and acks: "link_acks S isn (cn_abs (lk_A l)) ?r (lk_BA l @ cn_segments_out (lk_B l))"
    using live seg by (simp_all add: link_live_def Let_def)
  obtain n where n: "rx_seg_ok S isn n ?r seg" using link_seg_rx_ok [OF rx small ok] by blast
  note rx' = rx_segment_received_inv [OF rx n] and mv = rx_segment_received_moves [OF rx n]
  obtain new where new: "cn_segments_out (cn_segment_received (lk_B l) seg) = cn_segments_out (lk_B l) @ new"
    "\<forall>x \<in> set new. cn_stamped ?r' x"
    using cn_segment_received_out(1) [OF inv act] by blast
  have lo': "cn_abs (lk_A l) = 0 \<or> rx_isn ?r' \<noteq> None \<and> cn_abs (lk_A l) \<le> unat (rx_next ?r')"
    using lo mv(2) order_trans by blast
  have "link_acks S isn (cn_abs (lk_A l)) ?r' (lk_BA l @ cn_segments_out (lk_B l))"
    by (rule link_acks_mono [OF acks]) (simp add: mv(1), rule mv(2))
  from link_acks_append [OF this rx' small new(2) lo'] show ?thesis
    using live rx' lo' mv(1) cn_segment_received_out(2) [OF inv act] new(1) by (simp add: link_live_def Let_def)
qed

lemma cn_local_active:
  assumes "cn_local W c W' c' out" and "cn_active c'"
  shows "cn_active c"
proof (rule ccontr)
  assume "\<not> cn_active c"
  note inactive = cn_inactive_step [OF this]
  from assms(1) show False
    using assms(2) inactive by cases (simp_all, (metis snd_conv)+)
qed

lemma link_step_mono:
  assumes "link_step l l'"
  shows "prefix (lk_written l) (lk_written l')" and "prefix (lk_answered l) (lk_answered l')"
    and "cn_out_ended (lk_A l) \<Longrightarrow> cn_out_ended (lk_A l') \<and> lk_written l' = lk_written l"
    and "cn_out_ended (lk_B l) \<Longrightarrow> cn_out_ended (lk_B l') \<and> lk_answered l' = lk_answered l"
proof -
  have "prefix (lk_written l) (lk_written l') \<and> prefix (lk_answered l) (lk_answered l') \<and>
    (cn_out_ended (lk_A l) \<longrightarrow> cn_out_ended (lk_A l') \<and> lk_written l' = lk_written l) \<and>
    (cn_out_ended (lk_B l) \<longrightarrow> cn_out_ended (lk_B l') \<and> lk_answered l' = lk_answered l)"
    using assms
  proof cases
    case (A_local W a out)
    then show ?thesis using cn_local_mono [OF A_local(2)] by simp
  next
    case (B_local V b out)
    then show ?thesis using cn_local_mono [OF B_local(2)] by simp
  qed (simp_all add: cn_segment_received_ended, simp_all add: cn_out_ended_def)
  then show "prefix (lk_written l) (lk_written l')" "prefix (lk_answered l) (lk_answered l')"
    "cn_out_ended (lk_A l) \<Longrightarrow> cn_out_ended (lk_A l') \<and> lk_written l' = lk_written l"
    "cn_out_ended (lk_B l) \<Longrightarrow> cn_out_ended (lk_B l') \<and> lk_answered l' = lk_answered l" by simp_all
qed

text \<open>What the applications may still write without contradicting the streams \<open>S\<close> and \<open>T\<close>.\<close>

definition link_fits :: "bytes \<Rightarrow> bytes \<Rightarrow> link \<Rightarrow> bool" where
  "link_fits S T l \<longleftrightarrow>
     prefix (lk_written l) S \<and> (cn_out_ended (lk_A l) \<longrightarrow> lk_written l = S) \<and>
     prefix (lk_answered l) T \<and> (cn_out_ended (lk_B l) \<longrightarrow> lk_answered l = T)"

lemma link_fits_back:
  assumes "link_step l l'" and "link_fits S T l'"
  shows "link_fits S T l"
  using link_step_mono [OF assms(1)] assms(2) by (auto simp: link_fits_def intro: prefix_order.trans)

lemma link_step_inv:
  assumes step: "link_step l l'" and fits: "link_fits S T l'" and small: "length S + 2 < 2 ^ 31" "length T + 2 < 2 ^ 32"
    and inv: "link_inv S T (TCPConnection cfg r) (TCPConnection cfg' r') l"
  shows "link_inv S T (TCPConnection cfg r) (TCPConnection cfg' r') l'"
proof -
  let ?a0 = "TCPConnection cfg r" and ?b0 = "TCPConnection cfg' r'" and ?isn = "tx_isn (cn_sender (TCPConnection cfg r))"
  have ra: "cn_reach S ?a0 (lk_written l) (lk_A l)" and rb: "cn_reach T ?b0 (lk_answered l) (lk_B l)"
    and del: "rx_delivered S (lk_read l) (cn_receiver (lk_B l))" and live: "cn_active (lk_B l) \<Longrightarrow> link_live S ?isn l"
    using inv by (simp_all add: link_inv_def)
  have ia: "cn_inv S (lk_written l) (lk_A l)" using cn_reach_inv [OF ra] small(1) by simp
  have ib: "cn_inv T (lk_answered l) (lk_B l)" using cn_reach_inv [OF rb] small(2) by simp
  have fits': "prefix (lk_written l') S" "cn_out_ended (lk_A l') \<longrightarrow> lk_written l' = S"
    "prefix (lk_answered l') T" "cn_out_ended (lk_B l') \<longrightarrow> lk_answered l' = T"
    using fits by (simp_all add: link_fits_def)
  show ?thesis
    using step
  proof cases
    case (A_local W a out)
    then have W: "prefix W S" "cn_out_ended a \<longrightarrow> W = S" using fits' by simp_all
    show ?thesis
      using cn_local_reach [OF A_local(2) ra W] rb del live link_A_local [OF A_local(2) _ ia W]
      by (simp add: link_inv_def A_local(1))
  next
    case (A_sends seg segs)
    then show ?thesis
      using cn_reach.popping [OF ra] rb del live link_A_sends [OF _ _ ia] by (simp add: link_inv_def)
  next
    case (A_receives seg segs)
    then show ?thesis
      using cn_reach.receiving [OF ra] rb del live link_A_receives [OF _ _ ia small(1)] by (simp add: link_inv_def)
  next
    case (B_local V b out)
    then have V: "prefix V T" "cn_out_ended b \<longrightarrow> V = T" using fits' by simp_all
    have "rx_delivered S (lk_read l @ out) (cn_receiver b)"
      using cn_local_receiver [OF B_local(2)] del rx_delivered_error rx_delivered_read by fastforce
    moreover have "cn_active b \<Longrightarrow> cn_active (lk_B l)" using cn_local_active [OF B_local(2)] .
    ultimately show ?thesis
      using cn_local_reach [OF B_local(2) rb V] ra live link_B_local [OF B_local(2) _ _ ib V small(1)]
      by (simp add: link_inv_def B_local(1))
  next
    case (B_sends seg segs)
    then show ?thesis using cn_reach.popping [OF rb] ra del live by (simp add: link_inv_def link_live_def)
  next
    case (B_receives seg)
    have "rx_delivered S (lk_read l) (cn_receiver (cn_segment_received (lk_B l) seg))"
    proof (cases "cn_active (lk_B l)")
      case True
      then have rx: "rx_inv S ?isn (lk_read l) (cn_receiver (lk_B l))"
        "link_seg_ok S ?isn (rx_limit (cn_receiver (lk_B l))) seg"
        using live B_receives(2) by (simp_all add: link_live_def Let_def)
      obtain n where "rx_seg_ok S ?isn n (cn_receiver (lk_B l)) seg" using link_seg_rx_ok [OF rx(1) small(1) rx(2)] by blast
      then have "rx_delivered S (lk_read l) (rx_segment_received (cn_receiver (lk_B l)) seg)"
        using rx_segment_received_inv [OF rx(1)] rx_inv_delivered by blast
      then show ?thesis using True by (simp add: cn_segment_received_receiver rx_delivered_error)
    next
      case False
      then show ?thesis using del by (simp add: cn_segment_received_def)
    qed
    then show ?thesis
      using cn_reach.receiving [OF rb] ra live link_B_receives [OF B_receives(2) _ _ ib small(1)]
        cn_segment_received_out(3) [OF ib]
      by (simp add: link_inv_def B_receives(1))
  next
    case (BA_loses xs seg ys)
    then show ?thesis
      using ra rb del live link_acks_tl [of S ?isn _ _ xs seg "ys @ cn_segments_out (lk_B l)"]
      by (auto simp: link_inv_def link_live_def Let_def)
  qed
qed

lemma link_start_inv:
  assumes "length S + 2 < 2 ^ 31" and "unat (cfg_recv_capacity cfg') < 2 ^ 63"
  shows "link_inv S T (TCPConnection cfg r) (TCPConnection cfg' r') (link_start (TCPConnection cfg r) (TCPConnection cfg' r'))"
proof -
  let ?a = "TCPConnection cfg r" and ?b = "TCPConnection cfg' r'"
  have rx: "rx_inv S isn [] (cn_receiver ?b)" for isn
    using assms rx_inv_init [of "cfg_recv_capacity cfg'" S isn] by (simp add: TCPConnection_def)
  moreover have "cn_within (tx_isn (cn_sender ?a)) lim ?a" for lim
    by (simp add: cn_within_def tx_within_def tx_window_def TCPConnection_def TCPSender_def)
  moreover have "cn_abs ?a = 0" "cn_segments_out ?b = []" by (simp_all add: TCPConnection_def TCPSender_def)
  ultimately show ?thesis
    using rx_inv_delivered [OF rx] cn_reach.start
    by (simp add: link_inv_def link_live_def link_start_def link_acks_def)
qed

lemma link_reach_inv:
  assumes "link_reach (link_start (TCPConnection cfg r) (TCPConnection cfg' r')) l" and "link_fits S T l"
    and "length S + 2 < 2 ^ 31" and "length T + 2 < 2 ^ 32" and "unat (cfg_recv_capacity cfg') < 2 ^ 63"
  shows "link_inv S T (TCPConnection cfg r) (TCPConnection cfg' r') l"
  using assms(1,2)
proof (induction rule: link_reach.induct)
  case start
  show ?case using assms(3,5) by (rule link_start_inv)
next
  case (step l l')
  then show ?case using link_step_inv [OF _ _ assms(3,4)] link_fits_back by blast
qed

lemma link_fits_self: "link_fits (lk_written l) (lk_answered l) l"
  by (simp add: link_fits_def)

section \<open>The handshake\<close>

lemma sr_push_nothing: "sr_push_substring (StreamReassembler c) [] 0 False = StreamReassembler c"
  by (simp add: sr_push_substring_def sr_truncation_data_def sr_push_onestr_def StreamReassembler_def ByteStream_def
      sr_end_if_done_def Let_def bs_write_def substr_def sr_readout.simps)

lemma sr_init_fields: "sr_first_unassembled (StreamReassembler c) = 0" "\<not> sr_has_eof (StreamReassembler c)"
  by (simp_all add: StreamReassembler_def)

text \<open>The receiver after the peer's SYN, and still after any segment without data right behind it.\<close>

definition rx_synced :: "u64 \<Rightarrow> wrapping_int32 \<Rightarrow> tcp_receiver" where
  "rx_synced c isn = (TCPReceiver c)\<lparr>rx_isn := Some isn, rx_ackno := Some (wrap 1 isn)\<rparr>"

lemma rx_receives_syn:
  "th_syn (seg_header seg) \<Longrightarrow> \<not> th_fin (seg_header seg) \<Longrightarrow> seg_data seg = [] \<Longrightarrow> th_seqno (seg_header seg) = isn \<Longrightarrow>
   rx_segment_received (TCPReceiver c) seg = rx_synced c isn"
  by (simp add: rx_segment_received_def TCPReceiver_def rx_synced_def Let_def buf_copy_def sr_push_nothing)
    (simp add: StreamReassembler_def)

lemma rx_receives_ack:
  assumes "\<not> th_fin (seg_header seg)" and "seg_data seg = []" and "th_seqno (seg_header seg) = wrap 1 isn"
  shows "rx_segment_received (rx_synced c isn) seg = rx_synced c isn"
proof -
  have "unwrap (wrap 1 isn) isn 0 = 1" by (rule wrap_codec.dec_enc) (simp add: unwrap_exact_def adist_def)
  then show ?thesis
    using assms
    by (simp add: rx_segment_received_def TCPReceiver_def rx_synced_def Let_def buf_copy_def sr_push_nothing
        sr_init_fields sr_reach_end_def)
qed

lemma rx_synced_simps [simp]:
  "rx_ackno (rx_synced c isn) = Some (wrap 1 isn)" "\<not> bs_input_ended (rx_stream_out (rx_synced c isn))"
  "\<not> bs_error (rx_stream_out (rx_synced c isn))" "\<not> bs_eof (rx_stream_out (rx_synced c isn))"
  "rx_window_size (rx_synced c isn) = c"
  by (simp_all add: rx_synced_def TCPReceiver_def rx_stream_out_def StreamReassembler_def ByteStream_def
      bs_input_ended_def bs_eof_def rx_window_size_def bs_buffer_size_def)

lemma rx_listen_simps [simp]:
  "rx_ackno (TCPReceiver c) = None" "\<not> bs_error (rx_stream_out (TCPReceiver c))"
  "\<not> bs_eof (rx_stream_out (TCPReceiver c))"
  by (simp_all add: TCPReceiver_def rx_stream_out_def StreamReassembler_def ByteStream_def bs_eof_def)

text \<open>The sender after its SYN: one sequence number out, or already acknowledged.\<close>

definition tx_syn_out :: "bool \<Rightarrow> tcp_sender \<Rightarrow> bool" where
  "tx_syn_out acked s \<longleftrightarrow> tx_SYN_sent s \<and> \<not> tx_FIN_sent s \<and> tx_next_seqno s = 1 \<and>
     tx_abs_ackno s = (if acked then 1 else 0) \<and> \<not> bs_error (tx_stream s) \<and> \<not> bs_input_end (tx_stream s)"

lemma tx_syn_out_summary:
  "tx_syn_out acked s \<Longrightarrow> ts_sender_summary s = (if acked then Sender_SYN_ACKED else Sender_SYN_SENT)"
  by (simp add: tx_syn_out_def ts_sender_summary_def tx_bytes_in_flight_def bs_eof_def)

lemma tx_first_segment:
  fixes c t i r
  defines "s \<equiv> TCPSender c t i r" and "syn \<equiv> tx_make_segment (TCPSender c t i r) 0 True False []"
  shows "tx_segments_out (tx_fill_window s) = [syn]" and "tx_syn_out False (tx_fill_window s)"
    and "tx_isn (tx_fill_window s) = tx_isn s"
proof -
  have "slen syn = 1" using slen_eq [of syn] by (simp add: syn_def tx_make_segment_data)
  then have "seg_length_in_sequence_space syn = 1" by (metis unat_1 word_unat_eq_iff)
  then show "tx_segments_out (tx_fill_window s) = [syn]" "tx_syn_out False (tx_fill_window s)"
    "tx_isn (tx_fill_window s) = tx_isn s"
    unfolding s_def syn_def by (simp_all add: tx_fill_window_def tx_syn_out_def TCPSender_def ByteStream_def)
qed

lemma tx_syn_acked:
  assumes "tx_syn_out False s" and "ackno = wrap 1 (tx_isn s)"
  shows "tx_syn_out True (tx_ack_received s ackno w)"
proof -
  have "unwrap (wrap 1 (tx_isn s)) (tx_isn s) 0 = 1" by (rule wrap_codec.dec_enc) (simp add: unwrap_exact_def adist_def)
  then show ?thesis
    using assms by (simp add: tx_syn_out_def tx_ack_received_def Let_def case_prod_beta)
qed

text \<open>An endpoint of the handshake: a receiver, a sender after its SYN, both streams open, queues sent.\<close>

definition cn_handshaking :: "tcp_receiver \<Rightarrow> bool \<Rightarrow> wrapping_int32 \<Rightarrow> tcp_connection \<Rightarrow> bool" where
  "cn_handshaking r acked isn c \<longleftrightarrow> cn_receiver c = r \<and> tx_syn_out acked (cn_sender c) \<and> tx_isn (cn_sender c) = isn \<and>
     tx_segments_out (cn_sender c) = [] \<and> cn_active c \<and> cn_linger_after_streams_finish c"

definition seg_bare :: "tcp_segment \<Rightarrow> bool" where
  "seg_bare seg \<longleftrightarrow> \<not> th_fin (seg_header seg) \<and> \<not> th_rst (seg_header seg) \<and> seg_data seg = []"

lemma cn_handshaking_state:
  "cn_handshaking (TCPReceiver c) False isn a \<Longrightarrow> cn_state a = ts_of_official SYN_SENT"
  "cn_handshaking (rx_synced c j) False isn a \<Longrightarrow> cn_state a = ts_of_official SYN_RCVD"
  "cn_handshaking (rx_synced c j) True isn a \<Longrightarrow> cn_state a = ts_of_official ESTABLISHED"
  by (auto simp: cn_handshaking_def cn_state_def TCPState_def tx_syn_out_summary ts_receiver_summary_def)

lemma cn_connect_handshaking:
  assumes "isn = tx_isn (cn_sender (TCPConnection cfg r))"
  shows "\<exists>syn. cn_segments_out (cn_connect (TCPConnection cfg r)) = [syn] \<and> seg_bare syn \<and>
    th_syn (seg_header syn) \<and> \<not> is_ack syn \<and> th_seqno (seg_header syn) = isn \<and>
    cn_handshaking (TCPReceiver (cfg_recv_capacity cfg)) False isn (cn_connect (TCPConnection cfg r))"
  using assms
    tx_first_segment [of "cfg_send_capacity cfg" "cfg_rt_timeout cfg" "cfg_fixed_isn cfg" r]
  by (simp add: cn_connect_def TCPConnection_def cn_handshaking_def seg_bare_def tx_make_segment_data)
    (simp add: cn_handle_sender_segment_def Let_def wrap_alt tx_syn_out_def)

lemma cn_accepts_syn:
  assumes "seg_bare seg" and "th_syn (seg_header seg)" and "\<not> is_ack seg" and "th_seqno (seg_header seg) = j"
    and "isn = tx_isn (cn_sender (TCPConnection cfg r))"
  shows "\<exists>synack. cn_segments_out (cn_segment_received (TCPConnection cfg r) seg) = [synack] \<and> seg_bare synack \<and>
    th_syn (seg_header synack) \<and> is_ack synack \<and> th_ackno (seg_header synack) = wrap 1 j \<and>
    th_seqno (seg_header synack) = isn \<and>
    cn_handshaking (rx_synced (cfg_recv_capacity cfg) j) False isn (cn_segment_received (TCPConnection cfg r) seg)"
proof -
  let ?c = "TCPConnection cfg r" and ?r = "rx_synced (cfg_recv_capacity cfg) j"
  have len: "seg_length_in_sequence_space seg \<noteq> 0"
    using slen_eq [of seg] assms(1,2) by (auto simp: seg_bare_def)
  have rx: "rx_segment_received (cn_receiver ?c) seg = ?r"
    using assms by (simp add: TCPConnection_def rx_receives_syn seg_bare_def)
  note s = tx_first_segment [of "cfg_send_capacity cfg" "cfg_rt_timeout cfg" "cfg_fixed_isn cfg" r]
  have "cn_sender ?c = TCPSender (cfg_send_capacity cfg) (cfg_rt_timeout cfg) (cfg_fixed_isn cfg) r"
    by (simp add: TCPConnection_def)
  moreover have "cn_segment_received ?c seg = cn_answer (cn_take_ack (cn_receive ?c seg) (seg_header seg)) (seg_header seg)"
    using assms(1) len by (simp add: cn_segment_received_def Let_def seg_bare_def TCPConnection_def)
  ultimately show ?thesis
    using assms s
    by (simp add: cn_answer_def cn_take_ack_def cn_receive_def cn_follow_prereq_snd rx Let_def cn_handshaking_def
        seg_bare_def tx_make_segment_data tx_syn_out_def)
      (simp add: cn_handle_sender_segment_def Let_def wrap_alt TCPConnection_def)
qed

lemma cn_handshaking_sent [simp]:
  "cn_handshaking r acked isn (c\<lparr>cn_segments_out := q\<rparr>) = cn_handshaking r acked isn c"
  by (simp add: cn_handshaking_def)

lemma cn_take_ack_handshaking:
  assumes "cn_handshaking r False isn c" and "is_ack seg" and "th_ackno (seg_header seg) = wrap 1 isn"
    and "rx_segment_received r seg = rx_synced cap j"
  shows "cn_handshaking (rx_synced cap j) True isn (cn_take_ack (cn_receive c seg) (seg_header seg))"
  using assms tx_syn_acked [of "cn_sender c" "wrap 1 isn" "th_win (seg_header seg)"]
  by (auto simp: cn_handshaking_def cn_take_ack_def cn_receive_def cn_follow_prereq_snd Let_def)

lemma cn_accepts_synack:
  assumes a: "cn_handshaking (TCPReceiver cap) False isn a" and "cn_segments_out a = []"
    and "seg_bare seg" and "th_syn (seg_header seg)" and "is_ack seg"
    and "th_ackno (seg_header seg) = wrap 1 isn" and "th_seqno (seg_header seg) = j"
  shows "\<exists>ack. cn_segments_out (cn_segment_received a seg) = [ack] \<and> seg_bare ack \<and>
    \<not> th_syn (seg_header ack) \<and> is_ack ack \<and> th_ackno (seg_header ack) = wrap 1 j \<and>
    th_seqno (seg_header ack) = wrap 1 isn \<and> cn_handshaking (rx_synced cap j) True isn (cn_segment_received a seg)"
proof -
  let ?d = "cn_take_ack (cn_receive a seg) (seg_header seg)"
  have len: "seg_length_in_sequence_space seg \<noteq> 0" using slen_eq [of seg] assms(3,4) by (auto simp: seg_bare_def)
  have rx: "rx_segment_received (TCPReceiver cap) seg = rx_synced cap j"
    using assms by (simp add: rx_receives_syn seg_bare_def)
  have d: "cn_handshaking (rx_synced cap j) True isn ?d"
    by (rule cn_take_ack_handshaking [OF a assms(5,6) rx])
  have "cn_segment_received a seg = cn_answer ?d (seg_header seg)"
    using assms(1,3) len by (simp add: cn_segment_received_def Let_def seg_bare_def cn_handshaking_def)
  moreover have "cn_segments_out ?d = []" using assms(2) by (simp add: cn_receive_def)
  ultimately show ?thesis
    using d assms(4,5)
    by (simp add: cn_answer_def Let_def cn_handshaking_def tx_send_empty_segment_def seg_bare_def tx_make_segment_data
        tx_syn_out_def)
      (simp add: cn_handle_sender_segment_def Let_def)
qed

lemma cn_accepts_ack:
  assumes b: "cn_handshaking (rx_synced cap j) False isn b"
    and "seg_bare seg" and "\<not> th_syn (seg_header seg)" and "is_ack seg"
    and "th_ackno (seg_header seg) = wrap 1 isn" and "th_seqno (seg_header seg) = wrap 1 j"
  shows "cn_handshaking (rx_synced cap j) True isn (cn_segment_received b seg)"
proof -
  let ?d = "cn_take_ack (cn_receive b seg) (seg_header seg)"
  have "slen seg = 0" using slen_eq [of seg] assms(2,3) by (simp add: seg_bare_def)
  then have len: "seg_length_in_sequence_space seg = 0" by (simp add: unat_eq_zero)
  have rx: "rx_segment_received (rx_synced cap j) seg = rx_synced cap j"
    using assms by (simp add: rx_receives_ack seg_bare_def)
  have d: "cn_handshaking (rx_synced cap j) True isn ?d"
    by (rule cn_take_ack_handshaking [OF b assms(4,5) rx])
  have "cn_segment_received b seg = cn_answer_empty ?d (seg_header seg)"
    using assms(1,2) len by (simp add: cn_segment_received_def Let_def seg_bare_def cn_handshaking_def)
  then show ?thesis
    using d by (auto simp: cn_answer_empty_def cn_handshaking_def tx_send_empty_segment_def tx_syn_out_def Let_def)
qed


section \<open>Example runs\<close>

text \<open>Steps as functions, for runs that can be evaluated: a step that is not possible changes nothing.\<close>

definition link_connect :: "link \<Rightarrow> link" where
  "link_connect l = l\<lparr>lk_A := cn_connect (lk_A l), lk_written := lk_written l\<rparr>"

definition link_write :: "bytes \<Rightarrow> link \<Rightarrow> link" where
  "link_write data l = (let (n, a) = cn_write (lk_A l) data in l\<lparr>lk_A := a, lk_written := lk_written l @ take (unat n) data\<rparr>)"

definition link_read :: "u64 \<Rightarrow> link \<Rightarrow> link" where
  "link_read n l = (let (out, b) = cn_inbound_read (lk_B l) n
     in l\<lparr>lk_B := b, lk_answered := lk_answered l, lk_read := lk_read l @ out\<rparr>)"

definition link_send_A :: "link \<Rightarrow> link" where
  "link_send_A l = (case cn_segments_out (lk_A l) of [] \<Rightarrow> l
     | seg # segs \<Rightarrow> l\<lparr>lk_A := (lk_A l)\<lparr>cn_segments_out := segs\<rparr>, lk_AB := seg # lk_AB l\<rparr>)"

definition link_send_B :: "link \<Rightarrow> link" where
  "link_send_B l = (case cn_segments_out (lk_B l) of [] \<Rightarrow> l
     | seg # segs \<Rightarrow> l\<lparr>lk_B := (lk_B l)\<lparr>cn_segments_out := segs\<rparr>, lk_BA := lk_BA l @ [seg]\<rparr>)"

definition link_recv_A :: "link \<Rightarrow> link" where
  "link_recv_A l = (case lk_BA l of [] \<Rightarrow> l
     | seg # segs \<Rightarrow> l\<lparr>lk_A := cn_segment_received (lk_A l) seg, lk_BA := segs\<rparr>)"

definition link_recv_B :: "link \<Rightarrow> link" where
  "link_recv_B l = (case lk_AB l of [] \<Rightarrow> l | seg # _ \<Rightarrow> l\<lparr>lk_B := cn_segment_received (lk_B l) seg\<rparr>)"

lemma link_reach_ops:
  assumes "link_reach l0 l"
  shows "link_reach l0 (link_connect l)" "link_reach l0 (link_write data l)" "link_reach l0 (link_read n l)"
    "link_reach l0 (link_send_A l)" "link_reach l0 (link_send_B l)" "link_reach l0 (link_recv_A l)"
    "link_reach l0 (link_recv_B l)"
proof -
  show "link_reach l0 (link_connect l)"
    unfolding link_connect_def by (rule link_reach.step [OF assms link_step.A_local [OF cn_local.connecting]])
  show "link_reach l0 (link_write data l)"
    using link_reach.step [OF assms link_step.A_local [OF cn_local.writing]]
    by (cases "cn_write (lk_A l) data") (simp add: link_write_def)
  show "link_reach l0 (link_read n l)"
    using link_reach.step [OF assms link_step.B_local [OF cn_local.reading]]
    by (cases "cn_inbound_read (lk_B l) n") (simp add: link_read_def)
qed (use assms link_reach.step [OF assms] link_step.intros(2,3,5,6) in
  \<open>auto simp: link_send_A_def link_send_B_def link_recv_A_def link_recv_B_def split: list.split\<close>)


definition link_cfg :: "u64 \<Rightarrow> u32 \<Rightarrow> tcp_config" where
  "link_cfg capacity isn = TCPConfig\<lparr>cfg_recv_capacity := capacity, cfg_send_capacity := 10,
     cfg_fixed_isn := Some (WrappingInt32 isn)\<rparr>"

definition link_example_start :: link where
  "link_example_start = link_start (TCPConnection (link_cfg 10 5) 0) (TCPConnection (link_cfg 10 77) 0)"

definition link_example :: link where
  "link_example = link_read 10 (link_recv_B (link_send_A (link_send_A (link_write [7, 8]
     (link_recv_A (link_send_B (link_recv_B (link_send_A (link_connect link_example_start)))))))))"

lemma link_example_reach: "link_reach link_example_start link_example"
  unfolding link_example_def by (intro link_reach_ops link_reach.start)



section \<open>Properties\<close>

text \<open>
  C1. Reliable delivery end to end. Two connections run over a network that may lose, delay, reorder
  and duplicate the segments of \<open>A\<close>, and lose but not reorder those of \<open>B\<close>; the applications write, read, close,
  tick and destroy as they like. Then what \<open>B\<close>'s application has read, followed by what is ready
  for it, is a prefix of what \<open>A\<close>'s application has written; and if \<open>B\<close> sees the end of the stream, it is
  everything and \<open>A\<close> had closed its stream.
\<close>

theorem link_delivers:
  assumes "link_reach (link_start (TCPConnection cfg r) (TCPConnection cfg' r')) l"
    and "length (lk_written l) + 3 < 2 ^ 31" and "length (lk_answered l) + 2 < 2 ^ 32"
    and "unat (cfg_recv_capacity cfg') < 2 ^ 63"
  defines "got \<equiv> lk_read l @ bs_buffer (cn_inbound_stream (lk_B l))"
  shows "prefix got (lk_written l) \<and>
    (bs_input_ended (cn_inbound_stream (lk_B l)) \<longrightarrow>
       got = lk_written l \<and> bs_input_ended (tx_stream (cn_sender (lk_A l))))"
proof -
  have inv: "rx_delivered S (lk_read l) (cn_receiver (lk_B l))"
    if "link_fits S (lk_answered l) l" "length S + 2 < 2 ^ 31" for S
    using link_reach_inv [OF assms(1) that(1,2) assms(3,4)] by (simp add: link_inv_def)
  have 1: "rx_delivered (lk_written l) (lk_read l) (cn_receiver (lk_B l))"
    using assms(2) by (intro inv link_fits_self) simp
  have 2: "rx_delivered (lk_written l @ [0]) (lk_read l) (cn_receiver (lk_B l))" if "\<not> cn_out_ended (lk_A l)"
    using assms(2) that by (intro inv) (simp_all add: link_fits_def)
  show ?thesis
    using 1 2 unfolding rx_delivered_def got_def cn_inbound_stream_def cn_out_ended_def bs_input_ended_def by fastforce
qed

theorem link_delivers_witness: "prefix (lk_read link_example) (lk_written link_example) \<and> lk_read link_example = [7, 8]"
proof -
  have e: "lk_written link_example = [7, 8]" "lk_answered link_example = []" "lk_read link_example = [7, 8]"
    by code_simp+
  then have small: "length (lk_written link_example) + 3 < 2 ^ 31" "length (lk_answered link_example) + 2 < 2 ^ 32"
    by simp_all
  have "unat (cfg_recv_capacity (link_cfg 10 77)) < 2 ^ 63" by (simp add: link_cfg_def)
  from link_delivers [OF link_example_reach [unfolded link_example_start_def] small this]
  show ?thesis using e(3) append_prefixD by blast
qed

text \<open>
  C8. The handshake: for any two configurations and initial sequence numbers, \<open>connect\<close> sends one SYN
  (SYN_SENT), a fresh connection that receives it answers with one SYN and acknowledgment (SYN_RCVD), which
  the first one acknowledges, and then both are ESTABLISHED.
\<close>

theorem handshake_establishes:
  "\<exists>syn synack ack.
     (let a1 = cn_connect (TCPConnection cfg r); b1 = cn_segment_received (TCPConnection cfg' r') syn;
          a2 = cn_segment_received (a1\<lparr>cn_segments_out := []\<rparr>) synack;
          b2 = cn_segment_received (b1\<lparr>cn_segments_out := []\<rparr>) ack
      in cn_segments_out a1 = [syn] \<and> cn_state a1 = ts_of_official SYN_SENT \<and>
         cn_segments_out b1 = [synack] \<and> cn_state b1 = ts_of_official SYN_RCVD \<and>
         cn_segments_out a2 = [ack] \<and> cn_state a2 = ts_of_official ESTABLISHED \<and>
         cn_state b2 = ts_of_official ESTABLISHED)"
proof -
  let ?a1 = "cn_connect (TCPConnection cfg r)" and ?i = "tx_isn (cn_sender (TCPConnection cfg r))"
    and ?j = "tx_isn (cn_sender (TCPConnection cfg' r'))"
  obtain syn where a1: "cn_segments_out ?a1 = [syn]" "seg_bare syn" "th_syn (seg_header syn)" "\<not> is_ack syn"
    "th_seqno (seg_header syn) = ?i" "cn_handshaking (TCPReceiver (cfg_recv_capacity cfg)) False ?i ?a1"
    using cn_connect_handshaking [OF refl] by blast
  let ?b1 = "cn_segment_received (TCPConnection cfg' r') syn"
  obtain synack where b1: "cn_segments_out ?b1 = [synack]" "seg_bare synack" "th_syn (seg_header synack)"
    "is_ack synack" "th_ackno (seg_header synack) = wrap 1 ?i" "th_seqno (seg_header synack) = ?j"
    "cn_handshaking (rx_synced (cfg_recv_capacity cfg') ?i) False ?j ?b1"
    using cn_accepts_syn [OF a1(2-5) refl] by blast
  let ?a = "?a1\<lparr>cn_segments_out := []\<rparr>" and ?b = "?b1\<lparr>cn_segments_out := []\<rparr>"
  have a: "cn_handshaking (TCPReceiver (cfg_recv_capacity cfg)) False ?i ?a" "cn_segments_out ?a = []"
    using a1(6) by simp_all
  obtain ack where a2: "cn_segments_out (cn_segment_received ?a synack) = [ack]" "seg_bare ack"
    "\<not> th_syn (seg_header ack)" "is_ack ack" "th_ackno (seg_header ack) = wrap 1 ?j"
    "th_seqno (seg_header ack) = wrap 1 ?i"
    "cn_handshaking (rx_synced (cfg_recv_capacity cfg) ?j) True ?i (cn_segment_received ?a synack)"
    using cn_accepts_synack [OF a b1(2-6)] by blast
  have b: "cn_handshaking (rx_synced (cfg_recv_capacity cfg') ?i) False ?j ?b" using b1(7) by simp
  note b2 = cn_accepts_ack [OF b a2(2-6)]
  show ?thesis
    using a1(1) b1(1) a2(1) cn_handshaking_state(1) [OF a1(6)] cn_handshaking_state(2) [OF b1(7)]
      cn_handshaking_state(3) [OF a2(7)] cn_handshaking_state(3) [OF b2]
    unfolding Let_def by blast
qed


end
