(* ===== verification/Adapters.thy ===== *)
theory Adapters
  imports Network_Interface
begin

text \<open>
  The adapters that carry TCP segments: \<open>FdAdapterConfig\<close> (tcp_helpers/tcp_config.hh), \<open>FdAdapterBase\<close> and
  \<open>TCPOverUDPSocketAdapter\<close> (tcp_helpers/fd_adapter.hh, fd_adapter.cc), \<open>LossyFdAdapter\<close>
  (tcp_helpers/lossy_fd_adapter.hh), \<open>TCPOverIPv4Adapter\<close> (tcp_helpers/tcp_over_ip.hh, tcp_over_ip.cc),
  and the TUN and Ethernet adapters (tcp_helpers/tuntap_adapter.hh, tuntap_adapter.cc).

  What a read of the underlying descriptor returns is an argument of \<open>read\<close>, and what is written to
  it is part of the result, so that the exchange with the kernel is explicit.
\<close>

section \<open>Configuration and base class\<close>

record fd_adapter_config =
  fc_source :: address
  fc_destination :: address
  fc_loss_rate_dn :: u16
  fc_loss_rate_up :: u16

definition FdAdapterConfig :: "net_db \<Rightarrow> exn + fd_adapter_config" where
  "FdAdapterConfig db =
    (case Address_ip db ''0'' 0 of
       Inl e \<Rightarrow> Inl e
     | Inr a \<Rightarrow> Inr \<lparr>fc_source = a, fc_destination = a, fc_loss_rate_dn = 0, fc_loss_rate_up = 0\<rparr>)"

record fd_adapter =
  fa_cfg :: fd_adapter_config
  fa_listen :: bool

definition FdAdapterBase :: "fd_adapter_config \<Rightarrow> fd_adapter" where
  "FdAdapterBase cfg = \<lparr>fa_cfg = cfg, fa_listen = False\<rparr>"

definition fa_set_listening :: "fd_adapter \<Rightarrow> bool \<Rightarrow> fd_adapter" where
  "fa_set_listening fa l = fa\<lparr>fa_listen := l\<rparr>"

abbreviation fa_source :: "fd_adapter \<Rightarrow> address" where "fa_source fa \<equiv> fc_source (fa_cfg fa)"
abbreviation fa_destination :: "fd_adapter \<Rightarrow> address" where "fa_destination fa \<equiv> fc_destination (fa_cfg fa)"

text \<open>The port numbers both kinds of adapter put into an outgoing segment.\<close>

definition fa_set_ports :: "net_db \<Rightarrow> fd_adapter \<Rightarrow> tcp_segment \<Rightarrow> tcp_segment \<times> (exn + unit)" where
  "fa_set_ports db fa seg =
    (case ad_port db (fa_source fa) of
       Inl e \<Rightarrow> (seg, Inl e)
     | Inr sport \<Rightarrow>
         let seg = seg\<lparr>seg_header := (seg_header seg)\<lparr>th_sport := sport\<rparr>\<rparr>
         in case ad_port db (fa_destination fa) of
              Inl e \<Rightarrow> (seg, Inl e)
            | Inr dport \<Rightarrow> (seg\<lparr>seg_header := (seg_header seg)\<lparr>th_dport := dport\<rparr>\<rparr>, Inr ()))"

section \<open>TCP in UDP\<close>

text \<open>The received UDP datagram is its source address and payload; \<open>write\<close> yields destination and payload.\<close>

definition udp_read :: "fd_adapter \<Rightarrow> address \<Rightarrow> bytes \<Rightarrow> fd_adapter \<times> tcp_segment option" where
  "udp_read fa source_address payload =
    (if \<not> fa_listen fa \<and> \<not> ad_equal source_address (fa_destination fa) then (fa, None)
     else
       let (result, seg) = seg_parse TCPSegment (Buffer payload) 0
       in if result \<noteq> NoError then (fa, None)
          else if fa_listen fa
          then if th_syn (seg_header seg) \<and> \<not> th_rst (seg_header seg)
               then (fa_set_listening (fa\<lparr>fa_cfg := (fa_cfg fa)\<lparr>fc_destination := source_address\<rparr>\<rparr>) False, Some seg)
               else (fa, None)
          else (fa, Some seg))"

definition udp_write :: "net_db \<Rightarrow> fd_adapter \<Rightarrow> tcp_segment \<Rightarrow> tcp_segment \<times> (exn + address \<times> buffer_list)" where
  "udp_write db fa seg =
    (case fa_set_ports db fa seg of
       (seg, Inl e) \<Rightarrow> (seg, Inl e)
     | (seg, Inr _) \<Rightarrow>
         (case seg_serialize seg 0 of
            Inl e \<Rightarrow> (seg, Inl e)
          | Inr bl \<Rightarrow> (seg, Inr (fa_destination fa, bl))))"

section \<open>TCP in IPv4\<close>

text \<open>The part of \<open>unwrap_tcp_in_ip\<close> behind the address checks.\<close>

definition fa_accept :: "net_db \<Rightarrow> fd_adapter \<Rightarrow> ipv4_header \<Rightarrow> tcp_segment \<Rightarrow> fd_adapter \<times> (exn + tcp_segment option)" where
  "fa_accept db fa h seg =
    (let from_peer = \<lambda>fa. (case ad_port db (fa_destination fa) of
           Inl e \<Rightarrow> (fa, Inl e)
         | Inr port \<Rightarrow> if th_sport (seg_header seg) \<noteq> port then (fa, Inr None) else (fa, Inr (Some seg)))
     in if \<not> fa_listen fa then from_peer fa
        else if th_syn (seg_header seg) \<and> \<not> th_rst (seg_header seg)
        then case ad_port db (fa_source fa) of
               Inl e \<Rightarrow> (fa, Inl e)
             | Inr port \<Rightarrow>
                 (case Address_ip db (inet_ntoa (ih_dst h)) port of
                    Inl e \<Rightarrow> (fa, Inl e)
                  | Inr source \<Rightarrow>
                      let fa = fa\<lparr>fa_cfg := (fa_cfg fa)\<lparr>fc_source := source\<rparr>\<rparr>
                      in case Address_ip db (inet_ntoa (ih_src h)) (th_sport (seg_header seg)) of
                           Inl e \<Rightarrow> (fa, Inl e)
                         | Inr destination \<Rightarrow>
                             from_peer (fa_set_listening (fa\<lparr>fa_cfg := (fa_cfg fa)\<lparr>fc_destination := destination\<rparr>\<rparr>) False))
        else (fa, Inr None))"

text \<open>\<open>not listening() and x != config().address.ipv4_numeric()\<close>: the address is only asked for when not listening.\<close>

definition fa_other_host :: "fd_adapter \<Rightarrow> u32 \<Rightarrow> address \<Rightarrow> exn + bool" where
  "fa_other_host fa ip a =
    (if fa_listen fa then Inr False
     else case ad_ipv4_numeric a of Inl e \<Rightarrow> Inl e | Inr n \<Rightarrow> Inr (ip \<noteq> n))"

definition fa_unwrap_tcp_in_ip ::
    "net_db \<Rightarrow> fd_adapter \<Rightarrow> ipv4_datagram \<Rightarrow> fd_adapter \<times> (exn + tcp_segment option)" where
  "fa_unwrap_tcp_in_ip db fa ip_dgram =
    (let h = dg_header ip_dgram in
     case fa_other_host fa (ih_dst h) (fa_source fa) of
       Inl e \<Rightarrow> (fa, Inl e)
     | Inr True \<Rightarrow> (fa, Inr None)
     | Inr False \<Rightarrow>
         (case fa_other_host fa (ih_src h) (fa_destination fa) of
            Inl e \<Rightarrow> (fa, Inl e)
          | Inr True \<Rightarrow> (fa, Inr None)
          | Inr False \<Rightarrow>
              if ih_proto h \<noteq> PROTO_TCP then (fa, Inr None)
              else case bl_to_buffer (dg_payload ip_dgram) of
                     Inl e \<Rightarrow> (fa, Inl e)
                   | Inr b \<Rightarrow>
                       let (result, seg) = seg_parse TCPSegment b (ih_pseudo_cksum h)
                       in if result \<noteq> NoError then (fa, Inr None)
                          else case ad_port db (fa_source fa) of
                                 Inl e \<Rightarrow> (fa, Inl e)
                               | Inr port \<Rightarrow>
                                   if th_dport (seg_header seg) \<noteq> port then (fa, Inr None)
                                   else fa_accept db fa h seg))"

definition fa_wrap_tcp_in_ip ::
    "net_db \<Rightarrow> fd_adapter \<Rightarrow> tcp_segment \<Rightarrow> tcp_segment \<times> (exn + ipv4_datagram)" where
  "fa_wrap_tcp_in_ip db fa seg =
    (case fa_set_ports db fa seg of
       (seg, Inl e) \<Rightarrow> (seg, Inl e)
     | (seg, Inr _) \<Rightarrow>
         (case ad_ipv4_numeric (fa_source fa) of
            Inl e \<Rightarrow> (seg, Inl e)
          | Inr src \<Rightarrow>
              (case ad_ipv4_numeric (fa_destination fa) of
                 Inl e \<Rightarrow> (seg, Inl e)
               | Inr dst \<Rightarrow>
                   let h = IPv4Header\<lparr>ih_src := src, ih_dst := dst\<rparr>;
                       h = h\<lparr>ih_len := ucast (ucast (ih_hlen h) * 4 + ucast (th_doff (seg_header seg)) * 4 +
                              buf_size (seg_payload seg))\<rparr>
                   in case seg_serialize seg (ih_pseudo_cksum h) of
                        Inl e \<Rightarrow> (seg, Inl e)
                      | Inr payload \<Rightarrow> (seg, Inr \<lparr>dg_header = h, dg_payload = payload\<rparr>))))"

section \<open>The TUN adapter\<close>

definition tun_read :: "net_db \<Rightarrow> fd_adapter \<Rightarrow> bytes \<Rightarrow> fd_adapter \<times> (exn + tcp_segment option)" where
  "tun_read db fa data =
    (let (result, ip_dgram) = dg_parse IPv4Datagram (Buffer data)
     in if result \<noteq> NoError then (fa, Inr None) else fa_unwrap_tcp_in_ip db fa ip_dgram)"

definition tun_write :: "net_db \<Rightarrow> fd_adapter \<Rightarrow> tcp_segment \<Rightarrow> tcp_segment \<times> (exn + buffer_list)" where
  "tun_write db fa seg =
    (case fa_wrap_tcp_in_ip db fa seg of
       (seg, Inl e) \<Rightarrow> (seg, Inl e)
     | (seg, Inr ip_dgram) \<Rightarrow> (seg, dg_serialize ip_dgram))"

section \<open>The Ethernet adapter\<close>

record eth_adapter =
  ea_base :: fd_adapter
  ea_tap_written :: "buffer_list list"
  ea_interface :: network_interface
  ea_next_hop :: address

definition TCPOverIPv4OverEthernetAdapter ::
    "fd_adapter_config \<Rightarrow> ethernet_address \<Rightarrow> address \<Rightarrow> address \<Rightarrow> eth_adapter" where
  "TCPOverIPv4OverEthernetAdapter cfg eth_address ip_address next_hop =
    \<lparr>ea_base = FdAdapterBase cfg, ea_tap_written = [ef_serialize EthernetFrame],
     ea_interface = NetworkInterface eth_address ip_address, ea_next_hop = next_hop\<rparr>"

fun ea_send_queue :: "eth_adapter \<Rightarrow> ethernet_frame list \<Rightarrow> eth_adapter" where
  "ea_send_queue ea [] = ea\<lparr>ea_interface := (ea_interface ea)\<lparr>ni_frames_out := []\<rparr>\<rparr>"
| "ea_send_queue ea (f # fs) =
    ea_send_queue (ea\<lparr>ea_tap_written := ea_tap_written ea @ [ef_serialize f],
                      ea_interface := (ea_interface ea)\<lparr>ni_frames_out := fs\<rparr>\<rparr>) fs"

definition ea_send_pending :: "eth_adapter \<Rightarrow> eth_adapter" where
  "ea_send_pending ea = ea_send_queue ea (ni_frames_out (ea_interface ea))"

definition ea_read :: "net_db \<Rightarrow> eth_adapter \<Rightarrow> bytes \<Rightarrow> eth_adapter \<times> (exn + tcp_segment option)" where
  "ea_read db ea data =
    (let (result, frame) = ef_parse EthernetFrame (Buffer data)
     in if result \<noteq> NoError then (ea, Inr None)
        else case ni_recv_frame (ea_interface ea) frame of
               (ni, Inl e) \<Rightarrow> (ea\<lparr>ea_interface := ni\<rparr>, Inl e)
             | (ni, Inr ip_dgram) \<Rightarrow>
                 let ea = ea_send_pending (ea\<lparr>ea_interface := ni\<rparr>)
                 in case ip_dgram of
                      None \<Rightarrow> (ea, Inr None)
                    | Some d \<Rightarrow>
                        let (fa, r) = fa_unwrap_tcp_in_ip db (ea_base ea) d in (ea\<lparr>ea_base := fa\<rparr>, r))"

definition ea_tick :: "eth_adapter \<Rightarrow> u64 \<Rightarrow> eth_adapter" where
  "ea_tick ea ms_since_last_tick =
    ea_send_pending (ea\<lparr>ea_interface := ni_tick (ea_interface ea) ms_since_last_tick\<rparr>)"

definition ea_write :: "net_db \<Rightarrow> eth_adapter \<Rightarrow> tcp_segment \<Rightarrow> eth_adapter \<times> tcp_segment \<times> (exn + unit)" where
  "ea_write db ea seg =
    (case fa_wrap_tcp_in_ip db (ea_base ea) seg of
       (seg, Inl e) \<Rightarrow> (ea, seg, Inl e)
     | (seg, Inr ip_dgram) \<Rightarrow>
         (case ni_send_datagram (ea_interface ea) ip_dgram (ea_next_hop ea) of
            (ni, Inl e) \<Rightarrow> (ea\<lparr>ea_interface := ni\<rparr>, seg, Inl e)
          | (ni, Inr _) \<Rightarrow> (ea_send_pending (ea\<lparr>ea_interface := ni\<rparr>), seg, Inr ())))"

section \<open>Random loss\<close>

text \<open>
  \<open>LossyFdAdapter\<close> is a template over the adapter: the adapter's own \<open>read\<close> or \<open>write\<close> is an argument, and so
  is the value the random generator yields.
\<close>

definition lossy_should_drop :: "fd_adapter_config \<Rightarrow> u32 \<Rightarrow> bool \<Rightarrow> bool" where
  "lossy_should_drop cfg random uplink =
    (let loss = (if uplink then fc_loss_rate_up cfg else fc_loss_rate_dn cfg)
     in loss \<noteq> 0 \<and> (ucast random :: u16) < loss)"

definition lossy_read ::
    "('a \<Rightarrow> fd_adapter_config) \<Rightarrow> ('a \<Rightarrow> 'a \<times> (exn + tcp_segment option)) \<Rightarrow> 'a \<Rightarrow> u32 \<Rightarrow> 'a \<times> (exn + tcp_segment option)" where
  "lossy_read config adapter_read adapter random =
    (case adapter_read adapter of
       (adapter, Inl e) \<Rightarrow> (adapter, Inl e)
     | (adapter, Inr ret) \<Rightarrow>
         if lossy_should_drop (config adapter) random False then (adapter, Inr None) else (adapter, Inr ret))"

definition lossy_write ::
    "('a \<Rightarrow> fd_adapter_config) \<Rightarrow> ('a \<Rightarrow> tcp_segment \<Rightarrow> 'a \<times> tcp_segment \<times> (exn + unit)) \<Rightarrow>
     'a \<Rightarrow> tcp_segment \<Rightarrow> u32 \<Rightarrow> 'a \<times> tcp_segment \<times> (exn + unit)" where
  "lossy_write config adapter_write adapter seg random =
    (if lossy_should_drop (config adapter) random True then (adapter, seg, Inr ())
     else adapter_write adapter seg)"

section \<open>Segments an adapter can carry\<close>

definition seg_fits :: "tcp_segment \<Rightarrow> bool" where
  "seg_fits seg \<longleftrightarrow> 5 \<le> unat (th_doff (seg_header seg)) \<and> unat (th_doff (seg_header seg)) < 16 \<and>
     buf_ok (seg_payload seg) \<and> 4 * unat (th_doff (seg_header seg)) + length (buf_str (seg_payload seg)) \<le> 65515"

definition seg_ports :: "tcp_segment \<Rightarrow> u16 \<Rightarrow> u16 \<Rightarrow> tcp_segment" where
  "seg_ports seg sport dport = seg\<lparr>seg_header := (seg_header seg)\<lparr>th_sport := sport, th_dport := dport\<rparr>\<rparr>"

lemma seg_ports_simps [simp]:
  "seg_payload (seg_ports seg s d) = seg_payload seg" "th_sport (seg_header (seg_ports seg s d)) = s"
  "th_dport (seg_header (seg_ports seg s d)) = d" "th_doff (seg_header (seg_ports seg s d)) = th_doff (seg_header seg)"
  "th_syn (seg_header (seg_ports seg s d)) = th_syn (seg_header seg)"
  "th_rst (seg_header (seg_ports seg s d)) = th_rst (seg_header seg)" "seg_fits (seg_ports seg s d) = seg_fits seg"
  by (simp_all add: seg_ports_def seg_fits_def)

lemma fa_set_ports_inet:
  assumes "db_numeric db" and "fa_source fa = ad_inet n p" and "fa_destination fa = ad_inet m q"
  shows "fa_set_ports db fa seg = (seg_ports seg p q, Inr ())"
  using ad_ip_port_numeric(2) [OF assms(1)] assms(2,3) by (simp add: fa_set_ports_def seg_ports_def Let_def)

lemma seg_same_fields:
  assumes "seg_same seg seg'"
  shows "th_sport (seg_header seg') = th_sport (seg_header seg)" "th_dport (seg_header seg') = th_dport (seg_header seg)"
    "th_syn (seg_header seg') = th_syn (seg_header seg)" "th_rst (seg_header seg') = th_rst (seg_header seg)"
proof -
  have h: "(seg_header seg')\<lparr>th_cksum := th_cksum (seg_header seg)\<rparr> = seg_header seg"
    using assms by (simp add: seg_same_def)
  show "th_sport (seg_header seg') = th_sport (seg_header seg)" "th_dport (seg_header seg') = th_dport (seg_header seg)"
    "th_syn (seg_header seg') = th_syn (seg_header seg)" "th_rst (seg_header seg') = th_rst (seg_header seg)"
    using arg_cong [OF h, of th_sport] arg_cong [OF h, of th_dport] arg_cong [OF h, of th_syn] arg_cong [OF h, of th_rst]
    by simp_all
qed

text \<open>A datagram that carries the segment: its addresses, and a payload the segment parser accepts.\<close>

definition dg_carries_seg :: "u32 \<Rightarrow> u32 \<Rightarrow> tcp_segment \<Rightarrow> ipv4_datagram \<Rightarrow> bool" where
  "dg_carries_seg src dst seg d \<longleftrightarrow> dg_ok d \<and> ih_src (dg_header d) = src \<and> ih_dst (dg_header d) = dst \<and>
     ih_proto (dg_header d) = PROTO_TCP \<and>
     (\<forall>seg0 b. buf_ok b \<and> buf_str b = bl_concatenate (dg_payload d) \<longrightarrow>
       (\<exists>seg'. seg_parse seg0 b (ih_pseudo_cksum (dg_header d)) = (NoError, seg') \<and> seg_same seg seg'))"

lemma fa_wrap_inet:
  assumes "db_numeric db" and "fa_source fa = ad_inet n p" and "fa_destination fa = ad_inet m q" and "seg_fits seg"
  shows "\<exists>d. fa_wrap_tcp_in_ip db fa seg = (seg_ports seg p q, Inr d) \<and> dg_carries_seg n m (seg_ports seg p q) d"
proof -
  let ?seg = "seg_ports seg p q" and ?n = "4 * unat (th_doff (seg_header seg)) + length (buf_str (seg_payload seg))"
  let ?h0 = "IPv4Header\<lparr>ih_src := n, ih_dst := m\<rparr>"
  define len where "len = (ucast (ucast (ih_hlen ?h0) * 4 + ucast (th_doff (seg_header ?seg)) * 4 + buf_size (seg_payload ?seg) :: u64) :: u16)"
  define h where "h = ?h0\<lparr>ih_len := len\<rparr>"
  have fits: "5 \<le> unat (th_doff (seg_header ?seg))" "unat (th_doff (seg_header ?seg)) < 16" "buf_ok (seg_payload seg)"
    "?n \<le> 65515" using assms(4) by (simp_all add: seg_fits_def)
  have hl: "ih_hlen ?h0 = 5" "ih_ver ?h0 = 4" "ih_offset ?h0 = 0" "ih_proto ?h0 = PROTO_TCP" by (simp_all add: IPv4Header_def IP_LENGTH_def)
  have len: "unat len = 20 + ?n"
    using fits buf_size_nat [OF fits(3)] unfolding len_def hl by (simp add: unat_ucast_mod unat_word_ariths)
  obtain s where s: "seg_serialize ?seg (ih_pseudo_cksum h) = Inr [Buffer s, seg_payload seg]"
    "length s = 4 * unat (th_doff (seg_header seg))"
    "\<forall>seg0 b. buf_ok b \<and> buf_str b = s @ buf_str (seg_payload seg) \<longrightarrow>
      (\<exists>seg'. seg_parse seg0 b (ih_pseudo_cksum h) = (NoError, seg') \<and> seg_same ?seg seg' \<and> buf_ok (seg_payload seg'))"
    using seg_serialize_parse [OF fits(1,2), of "ih_pseudo_cksum h"] fits(4) ih_pseudo_cksum_bound [of h] by auto
  let ?d = "\<lparr>dg_header = h, dg_payload = [Buffer s, seg_payload seg]\<rparr>"
  have "dg_ok ?d"
    using hl len s(2) fits by (simp add: dg_ok_def ih_ok_def h_def bl_ok_def str_ok_def)
  then have "dg_carries_seg n m ?seg ?d"
    using s(3) hl(4) by (auto simp: dg_carries_seg_def h_def)
  moreover have "fa_wrap_tcp_in_ip db fa seg = (?seg, Inr ?d)"
    using fa_set_ports_inet [OF assms(1-3), of seg] assms(2,3) s(1)
    by (simp add: fa_wrap_tcp_in_ip_def h_def len_def)
  ultimately show ?thesis by blast
qed

lemma dg_carries_seg_same:
  assumes "dg_carries_seg src dst seg d" and "dg_same d d'" and "dg_ok d'"
  shows "dg_carries_seg src dst seg d'"
proof -
  have h: "(dg_header d')\<lparr>ih_cksum := ih_cksum (dg_header d)\<rparr> = dg_header d" using assms(2) by (simp add: dg_same_def)
  have "ih_src (dg_header d') = ih_src (dg_header d)" "ih_dst (dg_header d') = ih_dst (dg_header d)"
    "ih_proto (dg_header d') = ih_proto (dg_header d)" "ih_pseudo_cksum (dg_header d') = ih_pseudo_cksum (dg_header d)"
    using arg_cong [OF h, of ih_src] arg_cong [OF h, of ih_dst] arg_cong [OF h, of ih_proto] arg_cong [OF h, of ih_pseudo_cksum]
    by (simp_all add: ih_pseudo_cksum_def ih_payload_length_def)
  then show ?thesis using assms by (simp add: dg_carries_seg_def dg_same_def)
qed

text \<open>The connected adapter at the other end takes the segment; a listening one takes a SYN and connects to its sender.\<close>

lemma fa_unwrap_inet:
  assumes "db_numeric db" and "dg_carries_seg n m seg d" and "dg_payload d = [b]" and "buf_ok b"
    and "fa_source fa = ad_inet k (th_dport (seg_header seg))"
    and "if fa_listen fa then th_syn (seg_header seg) \<and> \<not> th_rst (seg_header seg)
      else k = m \<and> fa_destination fa = ad_inet n (th_sport (seg_header seg))"
  defines "fa' \<equiv> fa\<lparr>fa_cfg := (fa_cfg fa)\<lparr>fc_source := ad_inet m (th_dport (seg_header seg)),
    fc_destination := ad_inet n (th_sport (seg_header seg))\<rparr>, fa_listen := False\<rparr>"
  shows "\<exists>seg'. fa_unwrap_tcp_in_ip db fa d = (fa', Inr (Some seg')) \<and> seg_same seg seg'"
proof -
  note port = ad_ip_port_numeric(2) [OF assms(1)]
  have c: "ih_src (dg_header d) = n" "ih_dst (dg_header d) = m" "ih_proto (dg_header d) = PROTO_TCP"
    using assms(2) by (simp_all add: dg_carries_seg_def)
  obtain seg' where seg': "seg_parse TCPSegment b (ih_pseudo_cksum (dg_header d)) = (NoError, seg')" "seg_same seg seg'"
    using assms(2-4) unfolding dg_carries_seg_def by auto
  note f = seg_same_fields [OF seg'(2)]
  have bb: "bl_to_buffer (dg_payload d) = Inr b" using assms(3) by (simp add: bl_to_buffer_def)
  have "fa_other_host fa m (fa_source fa) = Inr False" "fa_other_host fa n (fa_destination fa) = Inr False"
    using assms(5,6) by (auto simp: fa_other_host_def split: if_splits)
  then have u: "fa_unwrap_tcp_in_ip db fa d = fa_accept db fa (dg_header d) seg'"
    using c seg'(1) bb assms(5) port f(2) by (simp add: fa_unwrap_tcp_in_ip_def Let_def)
  have "fa_accept db fa (dg_header d) seg' = (fa', Inr (Some seg'))"
  proof (cases "fa_listen fa")
    case True
    then show ?thesis
      using assms(5,6) port f c Address_ip_numeric [OF assms(1)]
      by (simp add: fa_accept_def Let_def fa'_def fa_set_listening_def)
  next
    case False
    have "fa' = fa" using False assms(5,6) by (simp add: fa'_def)
    then show ?thesis using False assms(6) port f by (simp add: fa_accept_def Let_def)
  qed
  then show ?thesis using u seg'(2) by simp
qed
lemma dg_parse_payload:
  assumes "dg_parse d0 b = (NoError, d)"
  shows "\<exists>b'. dg_payload d = [b']"
  using assms by (auto simp: dg_parse_def Let_def case_prod_beta split: if_splits)

lemma ea_send_queue_eq:
  "ea_send_queue ea fs = ea\<lparr>ea_tap_written := ea_tap_written ea @ map ef_serialize fs,
     ea_interface := (ea_interface ea)\<lparr>ni_frames_out := []\<rparr>\<rparr>"
  by (induction fs arbitrary: ea) simp_all

lemma ef_reparse:
  assumes "ef_ok f"
  shows "\<exists>f'. ef_parse f0 (Buffer (bl_concatenate (ef_serialize f))) = (NoError, f') \<and> ef_header f' = ef_header f \<and>
    bl_concatenate (ef_payload f') = bl_concatenate (ef_payload f)"
proof -
  have "str_ok (eh_serialize (ef_header f) @ bl_concatenate (ef_payload f))"
    using assms by (simp add: ef_ok_def str_ok_def eh_serialize_wire eh_ok_def eth_ok_def)
  from ef_parse_wire [OF _ this] obtain b where "buf_str b = bl_concatenate (ef_payload f)"
    "ef_parse f0 (Buffer (eh_serialize (ef_header f) @ bl_concatenate (ef_payload f))) = (NoError, \<lparr>ef_header = ef_header f, ef_payload = [b]\<rparr>)"
    using assms by (auto simp: ef_ok_def)
  then show ?thesis by (simp add: ef_serialize_def bl_append_def BufferList_def)
qed

text \<open>A name service that knows numbers only: it reads and writes dotted quads, for the witnesses.\<close>

fun split_dots :: "string \<Rightarrow> string list" where
  "split_dots [] = [[]]"
| "split_dots (c # cs) =
    (if c = CHR ''.'' then [] # split_dots cs
     else case split_dots cs of [] \<Rightarrow> [[c]] | w # ws \<Rightarrow> (c # w) # ws)"

definition quad_value :: "string \<Rightarrow> u32" where
  "quad_value s = be_int (map (\<lambda>w. of_nat (digits_value w)) (split_dots s))"

definition numeric_db :: net_db where
  "numeric_db = \<lparr>db_getaddrinfo = \<lambda>node service hints.
      Inr [(sockaddr_in AF_INET (of_nat (digits_value service)) (quad_value node), 16)],
    db_getnameinfo = \<lambda>storage len. Inr (inet_ntoa (be_int (take 4 (drop 4 storage))),
      dec_string (unat (be_int (take 2 (drop 2 storage)) :: u16)))\<rparr>"

lemma split_dots_word: "CHR ''.'' \<notin> set w \<Longrightarrow> split_dots w = [w]"
  by (induction w) auto

lemma split_dots_append: "CHR ''.'' \<notin> set w \<Longrightarrow> split_dots (w @ CHR ''.'' # s) = w # split_dots s"
  by (induction w) auto

lemma dec_string_no_dot: "CHR ''.'' \<notin> set (dec_string n)"
  using dec_string_digits [of n] is_digit_facts unfolding list_all_iff by blast

lemma quad_value_inet_ntoa: "quad_value (inet_ntoa n) = n"
proof -
  have "split_dots (inet_ntoa n) = [dec_string (unat (drop_bit 24 n)), dec_string (unat (drop_bit 16 n) mod 256),
      dec_string (unat (drop_bit 8 n) mod 256), dec_string (unat n mod 256)]"
    by (simp add: inet_ntoa_def split_dots_append split_dots_word dec_string_no_dot)
  moreover have "(of_nat (unat x mod 256) :: u8) = ucast x" for x :: u32
    by (simp add: word_unat_eq_iff unat_of_nat unat_ucast_mod)
  moreover have "(of_nat (unat x) :: u8) = ucast x" for x :: u32
    by (simp add: word_unat_eq_iff unat_of_nat unat_ucast_mod)
  ultimately show ?thesis using dec_string_digits by (simp add: quad_value_def)
qed

lemma numeric_db_ok: "db_numeric numeric_db"
proof -
  have "of_nat (digits_value (dec_string (unat port))) = port" for port :: u16
    using dec_string_digits by simp
  then show ?thesis
    by (simp add: db_numeric_def numeric_db_def quad_value_inet_ntoa ad_inet_def sockaddr_in_def)
qed

definition fa_example_a :: fd_adapter where
  "fa_example_a = FdAdapterBase \<lparr>fc_source = ad_inet 0x0a000001 1000, fc_destination = ad_inet 0x0a000002 80,
     fc_loss_rate_dn = 0, fc_loss_rate_up = 0\<rparr>"

definition fa_example_b :: fd_adapter where
  "fa_example_b = FdAdapterBase \<lparr>fc_source = ad_inet 0x0a000002 80, fc_destination = ad_inet 0x0a000001 1000,
     fc_loss_rate_dn = 0, fc_loss_rate_up = 0\<rparr>"

definition seg_example :: tcp_segment where
  "seg_example = \<lparr>seg_header = TCPHeader\<lparr>th_syn := True\<rparr>, seg_payload = Buffer [1, 2, 3]\<rparr>"

lemma seg_example_fits: "seg_fits seg_example"
  by (simp add: seg_fits_def seg_example_def TCPHeader_def str_ok_def)

section \<open>Properties\<close>

text \<open>
  TCP over IPv4 end to end: what a connected TUN adapter writes for a segment, the adapter of the peer
  reads back as the same segment, with the sender's port numbers filled in. A listening adapter on
  that port accepts it as well if it is a SYN (and no RST), and is afterwards connected to the sender.
\<close>

theorem tun_roundtrip:
  assumes "db_numeric db" and "seg_fits seg"
    and "fa_source a = ad_inet ip_a port_a" and "fa_destination a = ad_inet ip_b port_b"
    and "fa_source b = ad_inet ip_x port_b"
    and "if fa_listen b then th_syn (seg_header seg) \<and> \<not> th_rst (seg_header seg)
      else ip_x = ip_b \<and> fa_destination b = ad_inet ip_a port_a"
  shows "\<exists>seg1 data b' seg'. tun_write db a seg = (seg1, Inr data) \<and>
    tun_read db b (bl_concatenate data) = (b', Inr (Some seg')) \<and>
    seg1 = seg\<lparr>seg_header := (seg_header seg)\<lparr>th_sport := port_a, th_dport := port_b\<rparr>\<rparr> \<and> seg_same seg1 seg' \<and>
    fa_source b' = ad_inet ip_b port_b \<and> fa_destination b' = ad_inet ip_a port_a \<and> \<not> fa_listen b'"
proof -
  let ?seg1 = "seg_ports seg port_a port_b"
  obtain d where d: "fa_wrap_tcp_in_ip db a seg = (?seg1, Inr d)" "dg_carries_seg ip_a ip_b ?seg1 d"
    using fa_wrap_inet [OF assms(1,3,4,2)] by blast
  then obtain data d' where s: "dg_serialize d = Inr data"
    "dg_parse IPv4Datagram (Buffer (bl_concatenate data)) = (NoError, d')" "dg_same d d'" "bl_ok (dg_payload d')"
    using dg_serialize_parse [of d] unfolding dg_carries_seg_def by metis
  have "dg_ok d'" using d(2) s(3,4) dg_same_ok by (auto simp: dg_carries_seg_def)
  then have c: "dg_carries_seg ip_a ip_b ?seg1 d'" using dg_carries_seg_same [OF d(2) s(3)] by blast
  obtain buf where buf: "dg_payload d' = [buf]" using dg_parse_payload [OF s(2)] by blast
  have "if fa_listen b then th_syn (seg_header ?seg1) \<and> \<not> th_rst (seg_header ?seg1)
      else ip_x = ip_b \<and> fa_destination b = ad_inet ip_a (th_sport (seg_header ?seg1))"
    using assms(6) by (cases "fa_listen b") simp_all
  moreover have "buf_ok buf" using s(4) by (simp add: buf bl_ok_def)
  ultimately obtain seg' where "fa_unwrap_tcp_in_ip db b d' = (b\<lparr>fa_cfg := (fa_cfg b)\<lparr>fc_source := ad_inet ip_b port_b,
      fc_destination := ad_inet ip_a port_a\<rparr>, fa_listen := False\<rparr>, Inr (Some seg'))" "seg_same ?seg1 seg'"
    using fa_unwrap_inet [OF assms(1) c buf, of b ip_x] assms(5) by auto
  then show ?thesis using d(1) s(1,2) by (simp add: tun_write_def tun_read_def seg_ports_def)
qed

theorem tun_roundtrip_witness:
  "\<exists>seg1 data. tun_write numeric_db fa_example_a seg_example = (seg1, Inr data) \<and>
    (\<exists>seg'. snd (tun_read numeric_db fa_example_b (bl_concatenate data)) = Inr (Some seg'))"
  using tun_roundtrip [OF numeric_db_ok seg_example_fits, of fa_example_a "0x0a000001" 1000 "0x0a000002" 80 fa_example_b "0x0a000002"]
  by (fastforce simp: fa_example_a_def fa_example_b_def FdAdapterBase_def)

text \<open>
  What a connected adapter accepts is from its peer and for it: a segment is only taken out of a datagram
  that carries TCP between exactly the configured addresses and ports and whose checksum, computed
  with the pseudo-header, is right; and the configuration does not change.
\<close>

theorem fa_unwrap_filters:
  assumes "db_numeric db" and "\<not> fa_listen fa" and "fa_source fa = ad_inet n p" and "fa_destination fa = ad_inet m q"
    and "fa_unwrap_tcp_in_ip db fa d = (fa', Inr (Some seg))"
  shows "fa' = fa \<and> ih_src (dg_header d) = m \<and> ih_dst (dg_header d) = n \<and> ih_proto (dg_header d) = PROTO_TCP \<and>
    th_sport (seg_header seg) = q \<and> th_dport (seg_header seg) = p \<and>
    (\<exists>b. dg_payload d = [b] \<or> dg_payload d = [] \<and> b = Buffer0) \<and>
    ck_value (ck_add (InternetChecksum (ih_pseudo_cksum (dg_header d))) (bl_concatenate (dg_payload d))) = 0"
proof -
  note port = ad_ip_port_numeric(2) [OF assms(1)]
  have o: "fa_other_host fa (ih_dst (dg_header d)) (fa_source fa) = Inr (ih_dst (dg_header d) \<noteq> n)"
    "fa_other_host fa (ih_src (dg_header d)) (fa_destination fa) = Inr (ih_src (dg_header d) \<noteq> m)"
    using assms(2-4) by (simp_all add: fa_other_host_def)
  note u = assms(5) [unfolded fa_unwrap_tcp_in_ip_def Let_def o]
  have h: "ih_dst (dg_header d) = n" "ih_src (dg_header d) = m" "ih_proto (dg_header d) = PROTO_TCP"
    using u by (auto split: bool.splits if_splits)
  obtain b where b: "bl_to_buffer (dg_payload d) = Inr b"
    using u h by (auto split: sum.splits)
  obtain res seg1 where p: "seg_parse TCPSegment b (ih_pseudo_cksum (dg_header d)) = (res, seg1)"
    by (cases "seg_parse TCPSegment b (ih_pseudo_cksum (dg_header d))")
  have r: "res = NoError" "th_dport (seg_header seg1) = p" "fa_accept db fa (dg_header d) seg1 = (fa', Inr (Some seg))"
    using u h b p port assms(3) by (auto split: if_splits)
  then have a: "fa' = fa" "seg = seg1" "th_sport (seg_header seg) = q"
    using assms(2,4) port by (auto simp: fa_accept_def Let_def split: if_splits)
  have pay: "(dg_payload d = [b] \<or> dg_payload d = [] \<and> b = Buffer0) \<and> bl_concatenate (dg_payload d) = buf_str b"
    using b by (auto simp: bl_to_buffer_def split: list.splits)
  have "ck_value (ck_add (InternetChecksum (ih_pseudo_cksum (dg_header d))) (buf_str b)) = 0"
    using p r(1) by (auto simp: seg_parse_def Let_def split: if_splits)
  then show ?thesis using a h r(2) pay by auto
qed

theorem fa_unwrap_filters_witness:
  "\<exists>d seg. snd (fa_unwrap_tcp_in_ip numeric_db fa_example_b d) = Inr (Some seg) \<and> ih_src (dg_header d) = 0x0a000001"
proof -
  have s: "fa_source fa_example_a = ad_inet 0x0a000001 1000" "fa_destination fa_example_a = ad_inet 0x0a000002 80"
    "fa_source fa_example_b = ad_inet 0x0a000002 80" "fa_destination fa_example_b = ad_inet 0x0a000001 1000"
    "\<not> fa_listen fa_example_b"
    by (simp_all add: fa_example_a_def fa_example_b_def FdAdapterBase_def)
  obtain d where d: "dg_carries_seg 0x0a000001 0x0a000002 (seg_ports seg_example 1000 80) d"
    using fa_wrap_inet [OF numeric_db_ok s(1,2) seg_example_fits] by blast
  then obtain data d' where p: "dg_parse IPv4Datagram (Buffer data) = (NoError, d')" "dg_same d d'" "bl_ok (dg_payload d')"
    using dg_serialize_parse [of d] unfolding dg_carries_seg_def by metis
  have "dg_ok d" using d unfolding dg_carries_seg_def by blast
  then have c: "dg_carries_seg 0x0a000001 0x0a000002 (seg_ports seg_example 1000 80) d'"
    using dg_carries_seg_same [OF d p(2)] dg_same_ok [OF _ p(2,3)] by blast
  obtain buf where buf: "dg_payload d' = [buf]" using dg_parse_payload [OF p(1)] by blast
  have "buf_ok buf" using p(3) by (simp add: buf bl_ok_def)
  then obtain fa seg where u: "fa_unwrap_tcp_in_ip numeric_db fa_example_b d' = (fa, Inr (Some seg))"
    using fa_unwrap_inet [OF numeric_db_ok c buf, of fa_example_b "0x0a000002"] s(3-5) by auto
  from fa_unwrap_filters [OF numeric_db_ok s(5,3,4) u] u show ?thesis by (intro exI [of _ d']) simp
qed
text \<open>
  C30. TCP over IPv4 over Ethernet end to end: when the interface of A knows the Ethernet address of its next
  hop, writing a segment puts exactly one frame on the wire; the adapter B with that Ethernet address,
  connected to A, reads from that frame the same segment with A's port numbers filled in, and writes
  nothing.
\<close>

theorem ea_roundtrip:
  assumes "db_numeric db" and "seg_fits seg"
    and "fa_source (ea_base a) = ad_inet ip_a port_a" and "fa_destination (ea_base a) = ad_inet ip_b port_b"
    and "fa_source (ea_base b) = ad_inet ip_b port_b" and "fa_destination (ea_base b) = ad_inet ip_a port_a"
    and "\<not> fa_listen (ea_base b)"
    and "ni_ok (ea_interface a)" and "ni_frames_out (ea_interface a) = []"
    and "ad_ipv4_numeric (ea_next_hop a) = Inr hop"
    and "ni_ip_map (ea_interface a) hop = Some (ni_ethernet_address (ea_interface b), t)"
    and "ni_frames_out (ea_interface b) = []"
  shows "\<exists>a' seg1 frame seg'. ea_write db a seg = (a', seg1, Inr ()) \<and>
    ea_tap_written a' = ea_tap_written a @ [frame] \<and> ea_read db b (bl_concatenate frame) = (b, Inr (Some seg')) \<and>
    seg1 = seg\<lparr>seg_header := (seg_header seg)\<lparr>th_sport := port_a, th_dport := port_b\<rparr>\<rparr> \<and> seg_same seg1 seg'"
proof -
  let ?seg1 = "seg_ports seg port_a port_b" and ?i = "ea_interface a" and ?mac = "ni_ethernet_address (ea_interface b)"
  obtain d where d: "fa_wrap_tcp_in_ip db (ea_base a) seg = (?seg1, Inr d)" "dg_carries_seg ip_a ip_b ?seg1 d"
    using fa_wrap_inet [OF assms(1,3,4,2)] by blast
  have "eth_ok (ni_ethernet_address ?i)" "eth_ok ?mac" using assms(8,11) by (auto simp: ni_ok_def)
  moreover have "dg_ok d" using d(2) unfolding dg_carries_seg_def by blast
  ultimately obtain f where f: "ni_send_frame ?i d ?mac = (?i\<lparr>ni_frames_out := ni_frames_out ?i @ [f]\<rparr>, Inr ())"
    "ni_carries (ni_ethernet_address ?i) ?mac d f" using ni_send_frame_ok by blast
  then have w: "ni_send_datagram ?i d (ea_next_hop a) = (?i\<lparr>ni_frames_out := [f]\<rparr>, Inr ())"
    using assms(9-11) by (simp add: ni_send_datagram_def)
  obtain f' d' where f': "ef_parse EthernetFrame (Buffer (bl_concatenate (ef_serialize f))) = (NoError, f')"
    "ni_carries (ni_ethernet_address ?i) ?mac d f" "ef_header f' = ef_header f"
    "dg_parse IPv4Datagram (Buffer (bl_concatenate (ef_payload f'))) = (NoError, d')" "dg_same d d'" "dg_ok d'"
    using ef_reparse [of f EthernetFrame] f(2) unfolding ni_carries_def by metis
  have r: "ni_recv_frame (ea_interface b) f' = (ea_interface b, Inr (Some d'))"
    using f'(2-4) by (simp add: ni_recv_frame_def ni_carries_def)
  have c: "dg_carries_seg ip_a ip_b ?seg1 d'" using dg_carries_seg_same [OF d(2) f'(5,6)] .
  obtain buf where buf: "dg_payload d' = [buf]" using dg_parse_payload [OF f'(4)] by blast
  have "buf_ok buf" using f'(6) by (simp add: buf dg_ok_def bl_ok_def)
  then obtain fa seg' where u: "fa_unwrap_tcp_in_ip db (ea_base b) d' = (fa, Inr (Some seg'))" "seg_same ?seg1 seg'"
    "fa = (ea_base b)\<lparr>fa_cfg := (fa_cfg (ea_base b))\<lparr>fc_source := ad_inet ip_b port_b, fc_destination := ad_inet ip_a port_a\<rparr>,
      fa_listen := False\<rparr>"
    using fa_unwrap_inet [OF assms(1) c buf, of "ea_base b" ip_b] assms(5-7) by auto
  have "fa = ea_base b" using u(3) assms(5-7) by simp
  then have "ea_read db b (bl_concatenate (ef_serialize f)) = (b, Inr (Some seg'))"
    using f'(1) r u(1) assms(12) by (simp add: ea_read_def ea_send_pending_def)
  moreover have "ea_write db a seg = (a\<lparr>ea_tap_written := ea_tap_written a @ [ef_serialize f],
      ea_interface := ?i\<lparr>ni_frames_out := []\<rparr>\<rparr>, ?seg1, Inr ())"
    using d(1) w by (simp add: ea_write_def ea_send_pending_def)
  ultimately show ?thesis
    using u(2) by (intro exI [of _ "a\<lparr>ea_tap_written := ea_tap_written a @ [ef_serialize f],
      ea_interface := ?i\<lparr>ni_frames_out := []\<rparr>\<rparr>"] exI [of _ ?seg1] exI [of _ "ef_serialize f"] exI [of _ seg'])
      (simp add: seg_ports_def)
qed

theorem ea_roundtrip_witness:
  "let i = ni_example_a\<lparr>ni_ip_map := [0x0a000002 \<mapsto> ([2, 0, 0, 0, 0, 2], 0)]\<rparr>;
       a = \<lparr>ea_base = fa_example_a, ea_tap_written = [], ea_interface = i, ea_next_hop = ad_inet 0x0a000002 0\<rparr>
   in \<exists>a' seg1 frame. ea_write numeric_db a seg_example = (a', seg1, Inr ()) \<and> ea_tap_written a' = [frame]"
proof -
  let ?i = "ni_example_a\<lparr>ni_ip_map := [0x0a000002 \<mapsto> ([2, 0, 0, 0, 0, 2], 0)]\<rparr>"
  let ?a = "\<lparr>ea_base = fa_example_a, ea_tap_written = [], ea_interface = ?i, ea_next_hop = ad_inet 0x0a000002 0\<rparr>"
  let ?b = "\<lparr>ea_base = fa_example_b, ea_tap_written = [], ea_interface = ni_example_b, ea_next_hop = ad_inet 0x0a000001 0\<rparr>"
  have s: "fa_source (ea_base ?a) = ad_inet 0x0a000001 1000" "fa_destination (ea_base ?a) = ad_inet 0x0a000002 80"
    "fa_source (ea_base ?b) = ad_inet 0x0a000002 80" "fa_destination (ea_base ?b) = ad_inet 0x0a000001 1000"
    "\<not> fa_listen (ea_base ?b)"
    by (simp_all add: fa_example_a_def fa_example_b_def FdAdapterBase_def)
  have i: "ni_ok (ea_interface ?a)" "ni_frames_out (ea_interface ?a) = []" "ni_frames_out (ea_interface ?b) = []"
    "ad_ipv4_numeric (ea_next_hop ?a) = Inr 0x0a000002"
    "ni_ip_map (ea_interface ?a) 0x0a000002 = Some (ni_ethernet_address (ea_interface ?b), 0)"
    using ni_example_ok(1)
    by (auto simp: ni_ok_def eth_ok_def ni_example_a_def ni_example_b_def NetworkInterface_def)
  show ?thesis
    using ea_roundtrip [OF numeric_db_ok seg_example_fits s i(1,2,4,5,3)] unfolding Let_def by (metis append_Nil eth_adapter.select_convs(2))
qed

text \<open>
  TCP over UDP end to end: the datagram written for a segment goes to the configured destination, and a
  connected peer that receives it from the expected address reads the same segment; datagrams from any
  other address are ignored, and a listening adapter takes only a SYN without RST.
\<close>

theorem udp_roundtrip:
  assumes "db_numeric db" and "seg_fits seg"
    and "fa_source a = ad_inet ip_a port_a" and "fa_destination a = ad_inet ip_b port_b"
  shows "\<exists>seg1 data seg'. udp_write db a seg = (seg1, Inr (ad_inet ip_b port_b, data)) \<and>
    seg1 = seg\<lparr>seg_header := (seg_header seg)\<lparr>th_sport := port_a, th_dport := port_b\<rparr>\<rparr> \<and> seg_same seg1 seg' \<and>
    (\<forall>b src. udp_read b src (bl_concatenate data) =
      (if fa_listen b
       then if th_syn (seg_header seg) \<and> \<not> th_rst (seg_header seg)
            then (b\<lparr>fa_cfg := (fa_cfg b)\<lparr>fc_destination := src\<rparr>, fa_listen := False\<rparr>, Some seg') else (b, None)
       else if ad_equal src (fa_destination b) then (b, Some seg') else (b, None)))"
proof -
  let ?seg1 = "seg_ports seg port_a port_b"
  have fits: "5 \<le> unat (th_doff (seg_header ?seg1))" "unat (th_doff (seg_header ?seg1)) < 16" "buf_ok (seg_payload seg)"
    "4 * unat (th_doff (seg_header ?seg1)) + length (buf_str (seg_payload ?seg1)) \<le> 65535"
    using assms(2) by (simp_all add: seg_fits_def)
  obtain s where s: "seg_serialize ?seg1 0 = Inr [Buffer s, seg_payload seg]" "length s = 4 * unat (th_doff (seg_header seg))"
    "\<forall>seg0 b. buf_ok b \<and> buf_str b = s @ buf_str (seg_payload seg) \<longrightarrow>
      (\<exists>seg'. seg_parse seg0 b 0 = (NoError, seg') \<and> seg_same ?seg1 seg' \<and> buf_ok (seg_payload seg'))"
    using seg_serialize_parse [OF fits(1,2,4), of 0] by auto
  have "buf_ok (Buffer (s @ buf_str (seg_payload seg)))" using s(2) fits(4) by (simp add: str_ok_def)
  then obtain seg' where seg': "seg_parse TCPSegment (Buffer (s @ buf_str (seg_payload seg))) 0 = (NoError, seg')"
    "seg_same ?seg1 seg'" using s(3) by (metis buf_str_Buffer(1))
  have w: "udp_write db a seg = (?seg1, Inr (ad_inet ip_b port_b, [Buffer s, seg_payload seg]))"
    using fa_set_ports_inet [OF assms(1,3,4), of seg] s(1) assms(4) by (simp add: udp_write_def)
  have "udp_read b src (bl_concatenate [Buffer s, seg_payload seg]) =
      (if fa_listen b
       then if th_syn (seg_header seg) \<and> \<not> th_rst (seg_header seg)
            then (b\<lparr>fa_cfg := (fa_cfg b)\<lparr>fc_destination := src\<rparr>, fa_listen := False\<rparr>, Some seg') else (b, None)
       else if ad_equal src (fa_destination b) then (b, Some seg') else (b, None))" for b src
    using seg'(1) seg_same_fields(3,4) [OF seg'(2)] by (simp add: udp_read_def fa_set_listening_def)
  then show ?thesis using w seg'(2) unfolding seg_ports_def by blast
qed

theorem udp_roundtrip_witness:
  "\<exists>seg1 data. udp_write numeric_db fa_example_a seg_example = (seg1, Inr (ad_inet 0x0a000002 80, data))"
proof -
  have "fa_source fa_example_a = ad_inet 0x0a000001 1000" "fa_destination fa_example_a = ad_inet 0x0a000002 80"
    by (simp_all add: fa_example_a_def FdAdapterBase_def)
  from udp_roundtrip [OF numeric_db_ok seg_example_fits this] show ?thesis by blast
qed

end
