(* ===== verification/File_Descriptor.thy ===== *)
theory File_Descriptor imports Net_Buffer Address
begin

text \<open>
  \<open>FileDescriptor\<close> of \<open>util/file_descriptor.cc\<close> and \<open>SystemCall\<close> of \<open>util/util.cc\<close>. The system calls are a
  parameter: a record of functions on a state of the kernel. What the program relies on (\<open>kernel_reads\<close>,
  \<open>kernel_writes\<close>) are hypotheses of the theorems, and the scripted kernel at the end satisfies them.
  The shared wrapper of a descriptor is a \<open>fd_wrapper\<close>; its duplicates are the same wrapper.
\<close>

unbundle bit_operations_syntax

section \<open>The kernel\<close>

text \<open>
  The system calls the program makes, over a state \<open>'k\<close> of the kernel. Each returns the value and the
  \<open>errno\<close> of the C function, besides what it stores in the caller's memory:

  \<^item> \<open>sys_read k fd count\<close> also the bytes it stored in the buffer,
  \<^item> \<open>sys_recvfrom k fd count\<close> (with \<open>MSG_TRUNC\<close>) also the sender's raw address with its length and the bytes stored,
  \<^item> \<open>sys_getsockopt k fd option\<close> also the value and the length of the option,
  \<^item> \<open>sys_getname k name fd\<close> (\<open>getsockname\<close> or \<open>getpeername\<close>) also the raw address and its length,
  \<^item> \<open>sys_poll k fds timeout\<close>, where each polled descriptor has its requested events, also the returned events,
  \<^item> \<open>sys_ioctl k fd name flags\<close> is the request \<open>TUNSETIFF\<close> with that \<open>ifreq\<close>; \<open>sys_socketpair\<close> also returns the two descriptors.

  \<open>sys_clock\<close> is \<open>timestamp_ms()\<close>, the steady clock, and \<open>sys_random\<close> a value of \<open>random_device\<close>.
\<close>

type_synonym sysret = "int \<times> int"
type_synonym iovecs = "(bytes \<times> u64) list"

record 'k kernel =
  sys_read :: "'k \<Rightarrow> int \<Rightarrow> u64 \<Rightarrow> 'k \<times> sysret \<times> bytes"
  sys_writev :: "'k \<Rightarrow> int \<Rightarrow> iovecs \<Rightarrow> 'k \<times> sysret"
  sys_close :: "'k \<Rightarrow> int \<Rightarrow> 'k \<times> sysret"
  sys_getfl :: "'k \<Rightarrow> int \<Rightarrow> 'k \<times> sysret"
  sys_setfl :: "'k \<Rightarrow> int \<Rightarrow> int \<Rightarrow> 'k \<times> sysret"
  sys_socket :: "'k \<Rightarrow> int \<Rightarrow> int \<Rightarrow> 'k \<times> sysret"
  sys_getsockopt :: "'k \<Rightarrow> int \<Rightarrow> int \<Rightarrow> 'k \<times> sysret \<times> int \<times> u32"
  sys_setsockopt :: "'k \<Rightarrow> int \<Rightarrow> int \<Rightarrow> int \<Rightarrow> int \<Rightarrow> 'k \<times> sysret"
  sys_getname :: "'k \<Rightarrow> string \<Rightarrow> int \<Rightarrow> 'k \<times> sysret \<times> bytes \<times> u32"
  sys_bind :: "'k \<Rightarrow> int \<Rightarrow> bytes \<Rightarrow> u32 \<Rightarrow> 'k \<times> sysret"
  sys_connect :: "'k \<Rightarrow> int \<Rightarrow> bytes \<Rightarrow> u32 \<Rightarrow> 'k \<times> sysret"
  sys_shutdown :: "'k \<Rightarrow> int \<Rightarrow> int \<Rightarrow> 'k \<times> sysret"
  sys_recvfrom :: "'k \<Rightarrow> int \<Rightarrow> u64 \<Rightarrow> 'k \<times> sysret \<times> (bytes \<times> u32) \<times> bytes"
  sys_sendmsg :: "'k \<Rightarrow> int \<Rightarrow> (bytes \<times> u32) option \<Rightarrow> iovecs \<Rightarrow> 'k \<times> sysret"
  sys_listen :: "'k \<Rightarrow> int \<Rightarrow> int \<Rightarrow> 'k \<times> sysret"
  sys_accept :: "'k \<Rightarrow> int \<Rightarrow> 'k \<times> sysret"
  sys_poll :: "'k \<Rightarrow> (int \<times> u16) list \<Rightarrow> int \<Rightarrow> 'k \<times> sysret \<times> u16 list"
  sys_open :: "'k \<Rightarrow> string \<Rightarrow> int \<Rightarrow> 'k \<times> sysret"
  sys_ioctl :: "'k \<Rightarrow> int \<Rightarrow> bytes \<Rightarrow> u16 \<Rightarrow> 'k \<times> sysret"
  sys_socketpair :: "'k \<Rightarrow> int \<Rightarrow> int \<Rightarrow> 'k \<times> sysret \<times> int \<times> int"
  sys_clock :: "'k \<Rightarrow> 'k \<times> u64"
  sys_random :: "'k \<Rightarrow> 'k \<times> u32"

text \<open>
  A negative return value is an error unless \<open>errno\<close> is the one the caller accepts (0 for none). The
  parameter is an \<open>int\<close>: an \<open>ssize_t\<close> passed to it is cut to 32 bits.
\<close>

definition SystemCall :: "string \<Rightarrow> sysret \<Rightarrow> int \<Rightarrow> exn + int" where
  "SystemCall attempt ret errno_mask =
    (let return_value = sint (of_int (fst ret) :: u32); errno = snd ret
     in if return_value \<ge> 0 \<or> errno = errno_mask then Inr return_value
        else Inl (System_Error attempt errno))"

lemma SystemCall_range:
  assumes "SystemCall attempt ret errno_mask = Inr n"
  shows "- (2 ^ 31) \<le> n" and "n < 2 ^ 31"
proof -
  have "n = sint (of_int (fst ret) :: u32)" using assms by (auto simp: SystemCall_def Let_def split: if_splits)
  then show "- (2 ^ 31) \<le> n" "n < 2 ^ 31"
    using sint_greater_eq [of "of_int (fst ret) :: u32"] sint_less [of "of_int (fst ret) :: u32"] by simp_all
qed

lemma of_int_u64_eq_0:
  assumes "- (2 ^ 31) \<le> n" and "n < 2 ^ 31" and "(of_int n :: u64) = 0"
  shows "n = 0"
proof -
  have "2 ^ 64 dvd n" using assms(3) by (simp add: word_of_int_eq_0_iff)
  then show ?thesis using assms(1,2) by (cases "n = 0") (auto dest: zdvd_imp_le [of _ "\<bar>n\<bar>"])
qed

section \<open>FileDescriptor\<close>

record fd_wrapper =
  fw_fd :: int
  fw_eof :: bool
  fw_closed :: bool
  fw_read_count :: u32
  fw_write_count :: u32

definition int_string :: "int \<Rightarrow> string" where
  "int_string n = (if n < 0 then ''-'' @ dec_string (nat (- n)) else dec_string (nat n))"

definition FDWrapper :: "int \<Rightarrow> exn + fd_wrapper" where
  "FDWrapper fd =
    (if fd < 0 then Inl (Runtime_Error (''invalid fd number:'' @ int_string fd))
     else Inr \<lparr>fw_fd = fd, fw_eof = False, fw_closed = False, fw_read_count = 0, fw_write_count = 0\<rparr>)"

definition fd_register_read :: "fd_wrapper \<Rightarrow> fd_wrapper" where
  "fd_register_read f = f\<lparr>fw_read_count := fw_read_count f + 1\<rparr>"

definition fd_register_write :: "fd_wrapper \<Rightarrow> fd_wrapper" where
  "fd_register_write f = f\<lparr>fw_write_count := fw_write_count f + 1\<rparr>"

definition fd_close :: "'k kernel \<Rightarrow> 'k \<Rightarrow> fd_wrapper \<Rightarrow> 'k \<times> fd_wrapper \<times> (exn + unit)" where
  "fd_close K k f =
    (let (k, ret) = sys_close K k (fw_fd f)
     in case SystemCall ''close'' ret 0 of
          Inl e \<Rightarrow> (k, f, Inl e)
        | Inr _ \<Rightarrow> (k, f\<lparr>fw_eof := True, fw_closed := True\<rparr>, Inr ()))"

text \<open>The destructor swallows the exception.\<close>

definition fd_destroy :: "'k kernel \<Rightarrow> 'k \<Rightarrow> fd_wrapper \<Rightarrow> 'k \<times> fd_wrapper" where
  "fd_destroy K k f =
    (if fw_closed f then (k, f) else let (k, f, _) = fd_close K k f in (k, f))"

definition READ_BUFFER_SIZE :: u64 where "READ_BUFFER_SIZE = 1024 * 1024"

text \<open>The string is filled with zeros before the call, so \<open>resize\<close> to the result pads with zeros.\<close>

definition fd_read :: "'k kernel \<Rightarrow> 'k \<Rightarrow> fd_wrapper \<Rightarrow> u64 \<Rightarrow> 'k \<times> fd_wrapper \<times> (exn + bytes)" where
  "fd_read K k f limit =
    (let size_to_read = min READ_BUFFER_SIZE limit;
         (k, ret, stored) = sys_read K k (fw_fd f) size_to_read
     in case SystemCall ''read'' ret 0 of
          Inl e \<Rightarrow> (k, f, Inl e)
        | Inr bytes_read \<Rightarrow>
            let f = (if limit > 0 \<and> bytes_read = 0 then f\<lparr>fw_eof := True\<rparr> else f)
            in if bytes_read > sint size_to_read
               then (k, f, Inl (Runtime_Error ''read() read more than requested''))
               else (k, fd_register_read f, Inr (str_resize stored (of_int bytes_read))))"

text \<open>\<open>write\<close> sends a list of views; the loop ends because every round but the last writes something.\<close>

lemma bvl_remove_prefix_shrinks:
  "bvl_remove_prefix vl n = (vl', Inr ()) \<Longrightarrow>
   length (concat vl') \<le> length (concat vl) \<and> (n \<noteq> 0 \<longrightarrow> length (concat vl') < length (concat vl))"
proof (induction vl n rule: bvl_remove_prefix.induct)
  case (1 n)
  then show ?case by (auto simp: word_gt_0 split: if_splits)
next
  case (2 v vl n)
  have len: "unat (str_size v) \<le> length v" "n \<noteq> 0 \<Longrightarrow> 0 < unat n" by (rule unat_str_size_le) (simp add: unat_gt_0)
  show ?case
  proof (cases "n > 0 \<and> n \<ge> str_size v")
    case True
    then have n: "n > 0" "\<not> n < str_size v" by (simp_all add: not_less)
    then have "bvl_remove_prefix vl (n - str_size v) = (vl', Inr ())" using "2.prems" by simp
    from "2.IH" [OF n this] show ?thesis using n by (cases v) auto
  next
    case False
    then show ?thesis
      using "2.prems" len by (auto simp: word_gt_0 word_less_nat_alt not_le split: if_splits)
  qed
qed

lemma bvl_write_shrinks:
  assumes "SystemCall attempt ret errno_mask = Inr n" and "bvl_remove_prefix vl (of_int n) = (vl', Inr ())"
    and "bvl_size vl' \<noteq> 0" and "n \<noteq> 0 \<or> bvl_size vl = 0"
  shows "length (concat vl') < length (concat vl)"
proof -
  have "bvl_remove_prefix vl 0 = (vl, Inr ())" by (cases vl) simp_all
  then have "n \<noteq> 0" using assms(2-4) by auto
  then have "(of_int n :: u64) \<noteq> 0" using SystemCall_range [OF assms(1)] of_int_u64_eq_0 by blast
  then show ?thesis using bvl_remove_prefix_shrinks [OF assms(2)] by simp
qed

function fd_write_loop ::
    "'k kernel \<Rightarrow> 'k \<Rightarrow> fd_wrapper \<Rightarrow> buffer_view_list \<Rightarrow> bool \<Rightarrow> u64 \<Rightarrow> 'k \<times> fd_wrapper \<times> (exn + u64)" where
  "fd_write_loop K k f buffer write_all total_bytes_written =
    (let (k, ret) = sys_writev K k (fw_fd f) (bvl_as_iovecs buffer)
     in case SystemCall ''writev'' ret 0 of
          Inl e \<Rightarrow> (k, f, Inl e)
        | Inr bytes_written \<Rightarrow>
            if bytes_written = 0 \<and> bvl_size buffer \<noteq> 0
            then (k, f, Inl (Runtime_Error ''write returned 0 given non-empty input buffer''))
            else if bytes_written > sint (bvl_size buffer)
            then (k, f, Inl (Runtime_Error ''write wrote more than length of input buffer''))
            else
              let f = fd_register_write f
              in case bvl_remove_prefix buffer (of_int bytes_written) of
                   (_, Inl e) \<Rightarrow> (k, f, Inl e)
                 | (buffer, Inr _) \<Rightarrow>
                     let total = total_bytes_written + of_int bytes_written
                     in if write_all \<and> bvl_size buffer \<noteq> 0
                        then fd_write_loop K k f buffer write_all total
                        else (k, f, Inr total))"
  by pat_completeness auto
termination
  by (relation "measure (\<lambda>(_, _, _, buffer, _, _). length (concat buffer))")
    (auto dest!: sym [of "(_, Inr ())"] intro: bvl_write_shrinks)

declare fd_write_loop.simps [simp del]

definition fd_write :: "'k kernel \<Rightarrow> 'k \<Rightarrow> fd_wrapper \<Rightarrow> buffer_view_list \<Rightarrow> bool \<Rightarrow> 'k \<times> fd_wrapper \<times> (exn + u64)" where
  "fd_write K k f buffer write_all = fd_write_loop K k f buffer write_all 0"

definition O_NONBLOCK :: u32 where "O_NONBLOCK = 2048"

text \<open>\<open>flags\<close> is an \<open>int\<close>; the bit operations act on its 32 bits.\<close>

definition fd_set_blocking :: "'k kernel \<Rightarrow> 'k \<Rightarrow> fd_wrapper \<Rightarrow> bool \<Rightarrow> 'k \<times> (exn + unit)" where
  "fd_set_blocking K k f blocking_state =
    (let (k, ret) = sys_getfl K k (fw_fd f)
     in case SystemCall ''fcntl'' ret 0 of
          Inl e \<Rightarrow> (k, Inl e)
        | Inr r \<Rightarrow>
            let flags = of_int r :: u32;
                flags = (if blocking_state then flags XOR (flags AND O_NONBLOCK) else flags OR O_NONBLOCK);
                (k, ret) = sys_setfl K k (fw_fd f) (sint flags)
            in case SystemCall ''fcntl'' ret 0 of Inl e \<Rightarrow> (k, Inl e) | Inr _ \<Rightarrow> (k, Inr ()))"
section \<open>What the program relies on\<close>

lemma sint_small:
  assumes "uint (w :: 'a::len word) < 2 ^ (LENGTH('a) - 1)"
  shows "sint w = uint w"
proof -
  have "- (2 ^ (LENGTH('a) - 1)) \<le> (0 :: int)" by simp
  then have "- (2 ^ (LENGTH('a) - 1)) \<le> uint w" using uint_ge_0 [of w] by (rule order_trans)
  then have "signed_take_bit (LENGTH('a) - 1) (uint w) = uint w"
    using assms by (rule signed_take_bit_int_eq_self)
  then show ?thesis by (simp add: sint_uint)
qed

lemma sint_of_int_u32: "0 \<le> n \<Longrightarrow> n < 2 ^ 31 \<Longrightarrow> sint (of_int n :: u32) = n"
  by (subst sint_small) (simp_all add: uint_word_of_int)

lemma sint_u64_small:
  assumes "unat (w :: u64) < 2 ^ 63"
  shows "sint w = int (unat w)"
proof -
  have "int (unat w) < int (2 ^ 63)" using assms by (simp only: of_nat_less_iff)
  then show ?thesis using sint_small [of w] by simp
qed


text \<open>
  Documented behaviour of the system calls. \<open>kernel_reads\<close>: \<open>read\<close> fails with a positive \<open>errno\<close>, or stores at
  most as many bytes as asked for and returns their number.
\<close>

definition kernel_reads :: "'k kernel \<Rightarrow> bool" where
  "kernel_reads K \<longleftrightarrow> (\<forall>k fd n. case sys_read K k fd n of (k', (ret, errno), stored) \<Rightarrow>
     ret = -1 \<and> errno > 0 \<or> ret = int (length stored) \<and> length stored \<le> unat n)"

text \<open>
  \<open>kernel_writes\<close>: \<open>acc k fd\<close> is what the kernel has accepted on a descriptor. \<open>writev\<close> fails with a positive
  \<open>errno\<close> and accepts nothing, or accepts a prefix of the data, which is not empty if the data is not,
  and returns its length, at most 2147479552 bytes.
\<close>

definition kernel_writes :: "'k kernel \<Rightarrow> ('k \<Rightarrow> int \<Rightarrow> bytes) \<Rightarrow> bool" where
  "kernel_writes K acc \<longleftrightarrow> (\<forall>k fd iov. case sys_writev K k fd iov of (k', ret, errno) \<Rightarrow>
     let data = concat (map fst iov) in
     ret = -1 \<and> errno > 0 \<and> acc k' = acc k \<or>
     0 \<le> ret \<and> ret \<le> 2147479552 \<and> ret \<le> int (length data) \<and> (data \<noteq> [] \<longrightarrow> ret > 0) \<and>
     acc k' = (acc k)(fd := acc k fd @ take (nat ret) data))"

lemma kernel_writesD:
  assumes "kernel_writes K acc" and "sys_writev K k fd iov = (k', ret, errno)"
  shows "ret = -1 \<and> errno > 0 \<and> acc k' = acc k \<or>
     0 \<le> ret \<and> ret \<le> 2147479552 \<and> ret \<le> int (length (concat (map fst iov))) \<and>
     (concat (map fst iov) \<noteq> [] \<longrightarrow> ret > 0) \<and> acc k' = (acc k)(fd := acc k fd @ take (nat ret) (concat (map fst iov)))"
proof -
  from assms(1) [unfolded kernel_writes_def, THEN spec, of k, THEN spec, of fd, THEN spec, of iov]
  show ?thesis unfolding assms(2) Let_def by simp
qed

lemma SystemCall_failed: "errno > 0 \<Longrightarrow> SystemCall a (-1, errno) 0 = Inl (System_Error a errno)"
  by (simp add: SystemCall_def)

lemma SystemCall_returned:
  assumes "0 \<le> n" and "n < 2 ^ 31"
  shows "SystemCall a (n, errno) m = Inr n"
proof -
  have "sint (of_int n :: u32) = n"
    using assms by (rule sint_of_int_u32)
  then show ?thesis using assms(1) by (simp add: SystemCall_def)
qed

lemma fd_registers [simp]:
  "fw_fd (fd_register_read f) = fw_fd f" "fw_eof (fd_register_read f) = fw_eof f"
  "fw_closed (fd_register_read f) = fw_closed f" "fw_read_count (fd_register_read f) = fw_read_count f + 1"
  "fw_write_count (fd_register_read f) = fw_write_count f"
  "fw_fd (fd_register_write f) = fw_fd f" "fw_eof (fd_register_write f) = fw_eof f"
  "fw_closed (fd_register_write f) = fw_closed f" "fw_read_count (fd_register_write f) = fw_read_count f"
  "fw_write_count (fd_register_write f) = fw_write_count f + 1"
  by (simp_all add: fd_register_read_def fd_register_write_def)

lemma str_resize_all: "str_ok s \<Longrightarrow> str_resize s (of_nat (length s)) = s"
  using unat_str_size_ok [of s] by (simp add: str_resize_def str_size_def)

lemma fd_read_cases:
  assumes "kernel_reads K"
  obtains (failed) k' errno where "fd_read K k f limit = (k', f, Inl (System_Error ''read'' errno))"
  | (got) k' data where "length data \<le> unat limit" "length data \<le> 1048576"
      "fd_read K k f limit = (k', fd_register_read (if limit > 0 \<and> data = [] then f\<lparr>fw_eof := True\<rparr> else f), Inr data)"
proof -
  let ?n = "min READ_BUFFER_SIZE limit"
  obtain k' ret errno stored where r: "sys_read K k (fw_fd f) ?n = (k', (ret, errno), stored)"
    by (metis surj_pair)
  have n: "unat ?n \<le> unat limit" "unat ?n \<le> 1048576"
    by (auto simp: min_def word_le_nat_alt READ_BUFFER_SIZE_def)
  have "ret = -1 \<and> errno > 0 \<or> ret = int (length stored) \<and> length stored \<le> unat ?n"
    using assms r unfolding kernel_reads_def by (metis (mono_tags, lifting) case_prod_conv)
  then show thesis
  proof
    assume "ret = -1 \<and> errno > 0"
    then show thesis using r by (intro failed) (simp add: fd_read_def SystemCall_failed)
  next
    assume s: "ret = int (length stored) \<and> length stored \<le> unat ?n"
    then have l: "length stored \<le> 1048576" using n by simp
    then have "SystemCall ''read'' (ret, errno) 0 = Inr ret" using s by (intro SystemCall_returned) simp_all
    moreover have "sint ?n = int (unat ?n)"
      by (rule sint_u64_small) (rule le_less_trans [OF n(2)], simp)
    then have "\<not> sint ?n < ret" using s by (simp only: not_less of_nat_le_iff)
    moreover have "str_resize stored (of_nat (length stored)) = stored"
      using l by (intro str_resize_all) (simp add: str_ok_def)
    ultimately show thesis
      using s n r l by (intro got [of stored k']) (simp_all add: fd_read_def Let_def)
  qed
qed

lemma fd_write_loop_step:
  assumes "bvl_ok buffer" and "sys_writev K k (fw_fd f) (bvl_as_iovecs buffer) = (k1, ret, errno)"
    and "0 \<le> ret" and "ret < 2 ^ 31" and "ret \<le> int (length (concat buffer))" and "concat buffer \<noteq> [] \<longrightarrow> ret > 0"
  shows "\<exists>buffer'. bvl_ok buffer' \<and> concat buffer' = drop (nat ret) (concat buffer) \<and>
    fd_write_loop K k f buffer wa tot =
      (if wa \<and> concat buffer' \<noteq> [] then fd_write_loop K k1 (fd_register_write f) buffer' wa (tot + of_int ret)
       else (k1, fd_register_write f, Inr (tot + of_int ret)))"
proof -
  let ?d = "concat buffer"
  have size: "unat (bvl_size b) = length (concat b)" if "bvl_ok b" for b
    using that by (simp add: bvlc.size_of bvlc.valid_size)
  then have zero: "bvl_size b = 0 \<longleftrightarrow> concat b = []" if "bvl_ok b" for b
    using that by (metis length_0_conv unat_0 unat_eq_zero)
  have "length ?d < 2 ^ 63" using assms(1) by (simp add: bvl_ok_def str_ok_def)
  then have "sint (bvl_size buffer) = int (length ?d)" using size [OF assms(1)] sint_u64_small by metis
  then have le: "\<not> sint (bvl_size buffer) < ret" using assms(5) by simp
  have n: "unat (of_int ret :: u64) = nat ret" using assms(3,4) by (simp add: unat_eq_nat_uint uint_word_of_int)
  obtain buffer' where b: "bvl_remove_prefix buffer (of_int ret) = (buffer', Inr ())" "bvl_ok buffer'"
    "concat buffer' = drop (nat ret) ?d"
    using bvl_remove_prefix_ok [OF assms(1), of "of_int ret"] assms(3,5) n by (metis nat_le_iff prod.collapse)
  have nz: "\<not> (ret = 0 \<and> bvl_size buffer \<noteq> 0)" using assms(6) zero [OF assms(1)] by auto
  have "SystemCall ''writev'' (ret, errno) 0 = Inr ret" using assms(3,4) by (rule SystemCall_returned)
  then have "fd_write_loop K k f buffer wa tot =
      (if wa \<and> bvl_size buffer' \<noteq> 0 then fd_write_loop K k1 (fd_register_write f) buffer' wa (tot + of_int ret)
       else (k1, fd_register_write f, Inr (tot + of_int ret)))"
    using assms(2) nz le b(1) by (subst fd_write_loop.simps) (auto simp: Let_def)
  then show ?thesis using b(2,3) unfolding zero [OF b(2)] by blast
qed

text \<open>
  \<open>write\<close> hands the kernel a prefix of the data; it returns how much that is, all of it if asked to write
  everything, and the only exception it can throw is the failure of a \<open>writev\<close>.
\<close>

lemma fd_write_loop_spec:
  assumes K: "kernel_writes K acc"
  shows "bvl_ok buffer \<Longrightarrow> fd_write_loop K k f buffer wa tot = (k', f', r) \<Longrightarrow>
    \<exists>m \<le> length (concat buffer). acc k' = (acc k)(fw_fd f := acc k (fw_fd f) @ take m (concat buffer)) \<and>
      (r = Inr (tot + of_nat m) \<and> (wa \<longrightarrow> m = length (concat buffer)) \<and> (m = 0 \<longrightarrow> concat buffer = []) \<or>
       (\<exists>errno. r = Inl (System_Error ''writev'' errno)))"
proof (induction "length (concat buffer)" arbitrary: k f buffer tot rule: less_induct)
  case less
  let ?d = "concat buffer" and ?fd = "fw_fd f"
  obtain k1 ret errno where w: "sys_writev K k ?fd (bvl_as_iovecs buffer) = (k1, ret, errno)" by (metis surj_pair)
  from kernel_writesD [OF K w, unfolded bvl_as_iovecs_content] show ?case
  proof (elim disjE conjE)
    assume e: "ret = -1" "errno > 0" "acc k1 = acc k"
    then have "fd_write_loop K k f buffer wa tot = (k1, f, Inl (System_Error ''writev'' errno))"
      using w by (subst fd_write_loop.simps) (simp add: SystemCall_failed)
    then show ?thesis using e less.prems(2) by (intro exI [of _ 0]) simp
  next
    assume a: "0 \<le> ret" "ret \<le> 2147479552" "ret \<le> int (length ?d)" "?d \<noteq> [] \<longrightarrow> ret > 0"
      "acc k1 = (acc k)(?fd := acc k ?fd @ take (nat ret) ?d)"
    have "ret < 2 ^ 31" using a(2) by simp
    from fd_write_loop_step [OF less.prems(1) w a(1) this a(3,4), of wa tot]
    obtain buffer' where b: "bvl_ok buffer'" "concat buffer' = drop (nat ret) ?d"
      "fd_write_loop K k f buffer wa tot =
        (if wa \<and> concat buffer' \<noteq> [] then fd_write_loop K k1 (fd_register_write f) buffer' wa (tot + of_int ret)
         else (k1, fd_register_write f, Inr (tot + of_int ret)))"
      by blast
    show ?thesis
    proof (cases "wa \<and> concat buffer' \<noteq> []")
      case False
      then show ?thesis
        using b a less.prems(2) by (intro exI [of _ "nat ret"]) (auto simp: nat_le_iff)
    next
      case True
      then have "length (concat buffer') < length ?d" using b(2) a(4) by (cases "?d = []") auto
      moreover have "fd_write_loop K k1 (fd_register_write f) buffer' wa (tot + of_int ret) = (k', f', r)"
        using True b(3) less.prems(2) by simp
      ultimately obtain m where m: "m \<le> length (concat buffer')"
        "acc k' = (acc k1)(?fd := acc k1 ?fd @ take m (concat buffer'))"
        "r = Inr (tot + of_int ret + of_nat m) \<and> m = length (concat buffer') \<or>
         (\<exists>errno. r = Inl (System_Error ''writev'' errno))"
        using less.hyps [of buffer' k1 "fd_register_write f" "tot + of_int ret"] b(1) True by auto
      have "take (nat ret) ?d @ take m (concat buffer') = take (nat ret + m) ?d"
        unfolding b(2) by (simp add: take_add)
      moreover have "(of_int ret :: u64) = of_nat (nat ret)" using a(1) by simp
      ultimately show ?thesis
        using m a b(2) True by (intro exI [of _ "nat ret + m"]) (auto simp: nat_le_iff add.assoc)
    qed
  qed
qed
section \<open>A kernel for the examples\<close>

text \<open>
  It answers \<open>read\<close>, \<open>recvfrom\<close> and \<open>poll\<close> from scripts, accepts at most \<open>sc_chunk\<close> bytes per \<open>writev\<close>, records
  for each descriptor what was read and what was accepted, counts
  time in milliseconds per reading of the clock, and lets everything else succeed.
\<close>

record script =
  sc_reads :: "bytes list"
  sc_in :: "int \<Rightarrow> bytes"
  sc_out :: "int \<Rightarrow> bytes"
  sc_chunk :: nat
  sc_polls :: "u16 list list"
  sc_now :: u64

definition script_kernel :: "script kernel" where
  "script_kernel =
    \<lparr>sys_read = \<lambda>k fd n. (case sc_reads k of
        [] \<Rightarrow> (k, (0, 0), [])
      | d # ds \<Rightarrow> (k\<lparr>sc_reads := ds, sc_in := (sc_in k)(fd := sc_in k fd @ take (unat n) d)\<rparr>,
                   (int (length (take (unat n) d)), 0), take (unat n) d)),
     sys_writev = \<lambda>k fd iov.
       (let data = concat (map fst iov); n = min (min (max 1 (sc_chunk k)) 1000) (length data)
        in (k\<lparr>sc_out := (sc_out k)(fd := sc_out k fd @ take n data)\<rparr>, int n, 0)),
     sys_close = \<lambda>k fd. (k, 0, 0),
     sys_getfl = \<lambda>k fd. (k, 2, 0), sys_setfl = \<lambda>k fd flags. (k, 0, 0),
     sys_socket = \<lambda>k domain type. (k, 3, 0),
     sys_getsockopt = \<lambda>k fd opt. (k, (0, 0), 1, 4), sys_setsockopt = \<lambda>k fd level opt v. (k, 0, 0),
     sys_getname = \<lambda>k name fd. (k, (0, 0), [], 0),
     sys_bind = \<lambda>k fd a n. (k, 0, 0), sys_connect = \<lambda>k fd a n. (k, 0, 0), sys_shutdown = \<lambda>k fd how. (k, 0, 0),
     sys_recvfrom = \<lambda>k fd n. (case sc_reads k of
        [] \<Rightarrow> (k, (-1, 11), ([], 0), [])
      | d # ds \<Rightarrow> (k\<lparr>sc_reads := ds\<rparr>, (int (length d), 0), ([], 0), take (unat n) d)),
     sys_sendmsg = \<lambda>k fd a iov. (k, int (length (concat (map fst iov))), 0),
     sys_listen = \<lambda>k fd n. (k, 0, 0), sys_accept = \<lambda>k fd. (k, 3, 0),
     sys_poll = \<lambda>k fds ms. (case sc_polls k of
        [] \<Rightarrow> (k, (0, 0), map (\<lambda>_. 0) fds)
      | p # ps \<Rightarrow> (k\<lparr>sc_polls := ps\<rparr>, (1, 0), p)),
     sys_open = \<lambda>k path flags. (k, 3, 0), sys_ioctl = \<lambda>k fd name flags. (k, 0, 0),
     sys_socketpair = \<lambda>k domain type. (k, (0, 0), 3, 4),
     sys_clock = \<lambda>k. (k\<lparr>sc_now := sc_now k + 1\<rparr>, sc_now k),
     sys_random = \<lambda>k. (k, 4)\<rparr>"

lemma script_kernel_reads: "kernel_reads script_kernel"
  by (auto simp: kernel_reads_def script_kernel_def split: list.split)

lemma script_kernel_writes: "kernel_writes script_kernel sc_out"
  by (auto simp: kernel_writes_def script_kernel_def Let_def)

definition script_empty :: script where
  "script_empty = \<lparr>sc_reads = [], sc_in = \<lambda>_. [], sc_out = \<lambda>_. [], sc_chunk = 2, sc_polls = [], sc_now = 0\<rparr>"

definition fd_example :: "int \<Rightarrow> fd_wrapper" where
  "fd_example n = \<lparr>fw_fd = n, fw_eof = False, fw_closed = False, fw_read_count = 0, fw_write_count = 0\<rparr>"

section \<open>Properties\<close>

text \<open>
  C31. \<open>write\<close> always returns, and accounts for every byte: the kernel has accepted exactly a prefix of the
  data on this descriptor, \<open>write\<close> returns its length, which is all of the data if asked to write all
  (and not zero unless there is no data); the only exception it can throw is the failure of a
  \<open>writev\<close>, never one of its own checks.
\<close>

theorem fd_write_accounts:
  assumes "kernel_writes K acc" and "bvl_ok buffer"
  shows "\<exists>k' f' r m. fd_write K k f buffer write_all = (k', f', r) \<and> m \<le> length (concat buffer) \<and>
    acc k' = (acc k)(fw_fd f := acc k (fw_fd f) @ take m (concat buffer)) \<and>
    (r = Inr (of_nat m) \<and> (write_all \<longrightarrow> m = length (concat buffer)) \<and> (m = 0 \<longrightarrow> concat buffer = []) \<or>
     (\<exists>errno. r = Inl (System_Error ''writev'' errno)))"
proof -
  obtain k' f' r where w: "fd_write_loop K k f buffer write_all 0 = (k', f', r)" by (metis surj_pair)
  from fd_write_loop_spec [OF assms w] show ?thesis by (auto simp: fd_write_def w)
qed

theorem fd_write_accounts_witness:
  "\<exists>k' f'. fd_write script_kernel script_empty (fd_example 1) [[1, 2], [3, 4, 5]] True = (k', f', Inr 5) \<and>
     sc_out k' 1 = [1, 2, 3, 4, 5]"
proof -
  have r: "snd (snd (fd_write script_kernel script_empty (fd_example 1) [[1, 2], [3, 4, 5]] True)) = Inr 5"
    by code_simp
  have "bvl_ok [[1, 2], [3, 4, 5]]" by (simp add: bvl_ok_def str_ok_def)
  from fd_write_accounts [OF script_kernel_writes this, of script_empty "fd_example 1" True] r show ?thesis
    by (fastforce simp: script_empty_def fd_example_def)
qed

text \<open>
  C32. \<open>read\<close> always returns; it throws only when the system call fails, and then leaves the descriptor
  unchanged; otherwise it returns at most the requested number of bytes and at most 1 MiB, counts
  the read, and sets the end-of-file flag exactly when it asked for something and got nothing.
\<close>

theorem fd_read_bounded:
  assumes "kernel_reads K"
  shows "case fd_read K k f limit of (k', f', r) \<Rightarrow>
    (case r of
       Inl e \<Rightarrow> (\<exists>errno. e = System_Error ''read'' errno) \<and> f' = f
     | Inr data \<Rightarrow> length data \<le> unat limit \<and> length data \<le> 2 ^ 20 \<and>
         f' = f\<lparr>fw_read_count := fw_read_count f + 1, fw_eof := fw_eof f \<or> limit > 0 \<and> data = []\<rparr>)"
  using assms by (cases rule: fd_read_cases [where k = k and f = f and limit = limit])
    (auto simp: fd_register_read_def)

theorem fd_read_bounded_witness:
  "case fd_read script_kernel (script_empty\<lparr>sc_reads := [[1, 2, 3]]\<rparr>) (fd_example 1) 2 of (k', f', r) \<Rightarrow>
     r = Inr [1, 2] \<and> length [1, 2 :: u8] \<le> 2 ^ 20 \<and> \<not> fw_eof f'"
proof -
  have "snd (snd (fd_read script_kernel (script_empty\<lparr>sc_reads := [[1, 2, 3]]\<rparr>) (fd_example 1) 2)) = Inr [1, 2]"
    by code_simp
  then show ?thesis
    using fd_read_bounded [OF script_kernel_reads,
      where k = "script_empty\<lparr>sc_reads := [[1, 2, 3]]\<rparr>" and f = "fd_example 1" and limit = 2]
    by (auto simp: fd_example_def)
qed

text \<open>\<open>set_blocking\<close> changes the one bit and leaves the other flags.\<close>

lemma fd_set_blocking_flags:
  assumes "sys_getfl K k (fw_fd f) = (k1, flags, errno)" and "0 \<le> flags" and "flags < 2 ^ 31"
  shows "\<exists>flags' :: u32.
    fst (fd_set_blocking K k f b) = fst (sys_setfl K k1 (fw_fd f) (sint flags')) \<and>
    (\<forall>i<32. bit flags' i = (if i = 11 then \<not> b else bit flags i))"
proof -
  let ?w = "of_int flags :: u32"
  let ?f = "if b then ?w XOR (?w AND O_NONBLOCK) else ?w OR O_NONBLOCK"
  have "fst (fd_set_blocking K k f b) = fst (sys_setfl K k1 (fw_fd f) (sint ?f))"
    using SystemCall_returned [OF assms(2,3)] assms(1)
    by (simp add: fd_set_blocking_def split_beta Let_def split: sum.split)
  moreover have "bit O_NONBLOCK i \<longleftrightarrow> i = 11" for i
  proof -
    have "O_NONBLOCK = push_bit 11 1" by (simp add: O_NONBLOCK_def push_bit_eq_mult)
    then have "bit O_NONBLOCK i = bit (push_bit 11 1 :: u32) i" by (simp only:)
    also have "\<dots> \<longleftrightarrow> i = 11" by (subst bit_push_bit_iff) (auto simp: bit_1_iff possible_bit_def)
    finally show ?thesis .
  qed
  then have "\<forall>i<32. bit ?f i = (if i = 11 then \<not> b else bit flags i)" by (auto simp: bit_simps)
  ultimately show ?thesis by blast
qed

end
