(* ===== verification/Socket.thy ===== *)
theory Socket imports File_Descriptor
begin

text \<open>
  \<open>Socket\<close>, \<open>UDPSocket\<close> and \<open>TCPSocket\<close> of \<open>util/socket.cc\<close>, and \<open>TunTapFD\<close> of \<open>util/tun.cc\<close>. A socket is its file
  descriptor. A constructor that throws destroys the descriptor it has taken over.
\<close>

definition AF_UNIX :: int where "AF_UNIX = 1"
definition AF_INET_domain :: int where "AF_INET_domain = 2"
definition SOCK_STREAM :: int where "SOCK_STREAM = 1"
definition SOCK_DGRAM :: int where "SOCK_DGRAM = 2"
definition SOL_SOCKET :: int where "SOL_SOCKET = 1"
definition SO_REUSEADDR :: int where "SO_REUSEADDR = 2"
definition SO_TYPE :: int where "SO_TYPE = 3"
definition SO_DOMAIN :: int where "SO_DOMAIN = 39"
definition SHUT_RD :: int where "SHUT_RD = 0"
definition SHUT_WR :: int where "SHUT_WR = 1"
definition SHUT_RDWR :: int where "SHUT_RDWR = 2"

section \<open>Socket\<close>

definition fd_of_call :: "'k \<times> sysret \<Rightarrow> string \<Rightarrow> 'k \<times> (exn + fd_wrapper)" where
  "fd_of_call call attempt =
    (let (k, ret) = call
     in case SystemCall attempt ret 0 of Inl e \<Rightarrow> (k, Inl e) | Inr fd \<Rightarrow> (k, FDWrapper fd))"

definition so_open :: "'k kernel \<Rightarrow> 'k \<Rightarrow> int \<Rightarrow> int \<Rightarrow> 'k \<times> (exn + fd_wrapper)" where
  "so_open K k domain type = fd_of_call (sys_socket K k domain type) ''socket''"

text \<open>One check of the constructor; \<open>len\<close> must be \<open>sizeof(int)\<close>.\<close>

definition so_verify :: "'k kernel \<Rightarrow> 'k \<Rightarrow> fd_wrapper \<Rightarrow> int \<Rightarrow> int \<Rightarrow> string \<Rightarrow> 'k \<times> (exn + unit)" where
  "so_verify K k f option expected what =
    (let (k, ret, actual_value, len) = sys_getsockopt K k (fw_fd f) option
     in case SystemCall ''getsockopt'' ret 0 of
          Inl e \<Rightarrow> (k, Inl e)
        | Inr _ \<Rightarrow> if len \<noteq> 4 \<or> actual_value \<noteq> expected then (k, Inl (Runtime_Error what)) else (k, Inr ()))"

definition so_of_fd :: "'k kernel \<Rightarrow> 'k \<Rightarrow> fd_wrapper \<Rightarrow> int \<Rightarrow> int \<Rightarrow> 'k \<times> (exn + fd_wrapper)" where
  "so_of_fd K k f domain type =
    (case so_verify K k f SO_DOMAIN domain ''socket domain mismatch'' of
       (k, Inl e) \<Rightarrow> (fst (fd_destroy K k f), Inl e)
     | (k, Inr _) \<Rightarrow>
         (case so_verify K k f SO_TYPE type ''socket type mismatch'' of
            (k, Inl e) \<Rightarrow> (fst (fd_destroy K k f), Inl e)
          | (k, Inr _) \<Rightarrow> (k, Inr f)))"

definition so_get_address :: "'k kernel \<Rightarrow> 'k \<Rightarrow> fd_wrapper \<Rightarrow> string \<Rightarrow> 'k \<times> (exn + address)" where
  "so_get_address K k f name_of_function =
    (let (k, ret, address, size) = sys_getname K k name_of_function (fw_fd f)
     in case SystemCall name_of_function ret 0 of
          Inl e \<Rightarrow> (k, Inl e)
        | Inr _ \<Rightarrow> (k, Address_raw address (ucast size)))"

definition so_local_address :: "'k kernel \<Rightarrow> 'k \<Rightarrow> fd_wrapper \<Rightarrow> 'k \<times> (exn + address)" where
  "so_local_address K k f = so_get_address K k f ''getsockname''"

definition so_peer_address :: "'k kernel \<Rightarrow> 'k \<Rightarrow> fd_wrapper \<Rightarrow> 'k \<times> (exn + address)" where
  "so_peer_address K k f = so_get_address K k f ''getpeername''"

definition checked :: "'k \<times> sysret \<Rightarrow> string \<Rightarrow> 'k \<times> (exn + unit)" where
  "checked call attempt =
    (let (k, ret) = call
     in case SystemCall attempt ret 0 of Inl e \<Rightarrow> (k, Inl e) | Inr _ \<Rightarrow> (k, Inr ()))"

definition so_bind :: "'k kernel \<Rightarrow> 'k \<Rightarrow> fd_wrapper \<Rightarrow> address \<Rightarrow> 'k \<times> (exn + unit)" where
  "so_bind K k f a = checked (sys_bind K k (fw_fd f) (ad_storage a) (ad_size a)) ''bind''"

definition so_connect :: "'k kernel \<Rightarrow> 'k \<Rightarrow> fd_wrapper \<Rightarrow> address \<Rightarrow> 'k \<times> (exn + unit)" where
  "so_connect K k f a = checked (sys_connect K k (fw_fd f) (ad_storage a) (ad_size a)) ''connect''"

definition so_shutdown :: "'k kernel \<Rightarrow> 'k \<Rightarrow> fd_wrapper \<Rightarrow> int \<Rightarrow> 'k \<times> fd_wrapper \<times> (exn + unit)" where
  "so_shutdown K k f how =
    (case checked (sys_shutdown K k (fw_fd f) how) ''shutdown'' of
       (k, Inl e) \<Rightarrow> (k, f, Inl e)
     | (k, Inr _) \<Rightarrow>
         if how = SHUT_RD then (k, fd_register_read f, Inr ())
         else if how = SHUT_WR then (k, fd_register_write f, Inr ())
         else if how = SHUT_RDWR then (k, fd_register_write (fd_register_read f), Inr ())
         else (k, f, Inl (Runtime_Error ''Socket::shutdown() called with invalid `how`'')))"

definition so_setsockopt :: "'k kernel \<Rightarrow> 'k \<Rightarrow> fd_wrapper \<Rightarrow> int \<Rightarrow> int \<Rightarrow> int \<Rightarrow> 'k \<times> (exn + unit)" where
  "so_setsockopt K k f level option option_value =
    checked (sys_setsockopt K k (fw_fd f) level option option_value) ''setsockopt''"

definition so_set_reuseaddr :: "'k kernel \<Rightarrow> 'k \<Rightarrow> fd_wrapper \<Rightarrow> 'k \<times> (exn + unit)" where
  "so_set_reuseaddr K k f = so_setsockopt K k f SOL_SOCKET SO_REUSEADDR 1"

section \<open>UDPSocket\<close>

text \<open>\<open>received_datagram\<close> is the pair of the sender's address and the payload.\<close>

definition so_recv :: "'k kernel \<Rightarrow> 'k \<Rightarrow> fd_wrapper \<Rightarrow> u64 \<Rightarrow> 'k \<times> fd_wrapper \<times> (exn + address \<times> bytes)" where
  "so_recv K k f mtu =
    (let (k, ret, (source_address, fromlen), stored) = sys_recvfrom K k (fw_fd f) mtu
     in case SystemCall ''recvfrom'' ret 0 of
          Inl e \<Rightarrow> (k, f, Inl e)
        | Inr recv_len \<Rightarrow>
            if recv_len > sint mtu then (k, f, Inl (Runtime_Error ''recvfrom (oversized datagram)''))
            else
              let f = fd_register_read f
              in case Address_raw source_address (ucast fromlen) of
                   Inl e \<Rightarrow> (k, f, Inl e)
                 | Inr a \<Rightarrow> (k, f, Inr (a, str_resize stored (of_int recv_len))))"

definition sendmsg_helper ::
    "'k kernel \<Rightarrow> 'k \<Rightarrow> fd_wrapper \<Rightarrow> (bytes \<times> u32) option \<Rightarrow> buffer_view_list \<Rightarrow> 'k \<times> (exn + unit)" where
  "sendmsg_helper K k f destination payload =
    (let (k, ret) = sys_sendmsg K k (fw_fd f) destination (bvl_as_iovecs payload)
     in case SystemCall ''sendmsg'' ret 0 of
          Inl e \<Rightarrow> (k, Inl e)
        | Inr bytes_sent \<Rightarrow>
            if of_int bytes_sent \<noteq> bvl_size payload
            then (k, Inl (Runtime_Error ''datagram payload too big for sendmsg()''))
            else (k, Inr ()))"

definition so_sendto ::
    "'k kernel \<Rightarrow> 'k \<Rightarrow> fd_wrapper \<Rightarrow> address \<Rightarrow> buffer_view_list \<Rightarrow> 'k \<times> fd_wrapper \<times> (exn + unit)" where
  "so_sendto K k f destination payload =
    (case sendmsg_helper K k f (Some (ad_storage destination, ad_size destination)) payload of
       (k, Inl e) \<Rightarrow> (k, f, Inl e)
     | (k, Inr _) \<Rightarrow> (k, fd_register_write f, Inr ()))"

definition so_send :: "'k kernel \<Rightarrow> 'k \<Rightarrow> fd_wrapper \<Rightarrow> buffer_view_list \<Rightarrow> 'k \<times> fd_wrapper \<times> (exn + unit)" where
  "so_send K k f payload =
    (case sendmsg_helper K k f None payload of
       (k, Inl e) \<Rightarrow> (k, f, Inl e)
     | (k, Inr _) \<Rightarrow> (k, fd_register_write f, Inr ()))"

section \<open>TCPSocket\<close>

definition so_listen :: "'k kernel \<Rightarrow> 'k \<Rightarrow> fd_wrapper \<Rightarrow> int \<Rightarrow> 'k \<times> (exn + unit)" where
  "so_listen K k f backlog = checked (sys_listen K k (fw_fd f) backlog) ''listen''"

definition so_accept :: "'k kernel \<Rightarrow> 'k \<Rightarrow> fd_wrapper \<Rightarrow> 'k \<times> fd_wrapper \<times> (exn + fd_wrapper)" where
  "so_accept K k f =
    (let f = fd_register_read f
     in case fd_of_call (sys_accept K k (fw_fd f)) ''accept'' of
          (k, Inl e) \<Rightarrow> (k, f, Inl e)
        | (k, Inr g) \<Rightarrow> let (k, r) = so_of_fd K k g AF_INET_domain SOCK_STREAM in (k, f, r))"

section \<open>TunTapFD\<close>

definition O_RDWR :: int where "O_RDWR = 2"
definition IFF_TUN :: u16 where "IFF_TUN = 1"
definition IFF_TAP :: u16 where "IFF_TAP = 2"
definition IFF_NO_PI :: u16 where "IFF_NO_PI = 4096"
definition IFNAMSIZ :: nat where "IFNAMSIZ = 16"

text \<open>\<open>strncpy\<close> stops at a zero byte and fills up with zeros; the last byte is set to zero.\<close>

definition ifr_name :: "bytes \<Rightarrow> bytes" where
  "ifr_name devname =
    (let s = take (IFNAMSIZ - 1) (takeWhile (\<lambda>b. b \<noteq> 0) devname)
     in s @ replicate (IFNAMSIZ - length s) 0)"

definition TunTapFD :: "'k kernel \<Rightarrow> 'k \<Rightarrow> bytes \<Rightarrow> bool \<Rightarrow> 'k \<times> (exn + fd_wrapper)" where
  "TunTapFD K k devname is_tun =
    (case fd_of_call (sys_open K k ''/dev/net/tun'' O_RDWR) ''open'' of
       (k, Inl e) \<Rightarrow> (k, Inl e)
     | (k, Inr f) \<Rightarrow>
         let flags = (if is_tun then IFF_TUN else IFF_TAP) OR IFF_NO_PI
         in case checked (sys_ioctl K k (fw_fd f) (ifr_name devname) flags) ''ioctl'' of
              (k, Inl e) \<Rightarrow> (fst (fd_destroy K k f), Inl e)
            | (k, Inr _) \<Rightarrow> (k, Inr f))"

section \<open>Properties\<close>

lemma ifr_name_terminated: "length (ifr_name s) = IFNAMSIZ" "ifr_name s ! (IFNAMSIZ - 1) = 0"
  by (auto simp: ifr_name_def IFNAMSIZ_def Let_def nth_append)

text \<open>
  Documented behaviour of \<open>recvfrom\<close> with \<open>MSG_TRUNC\<close> on a datagram socket: it fails with a positive \<open>errno\<close>,
  or takes the next datagram, returns its full length (a UDP payload is below 64 KiB), stores what fits,
  and reports a sender's address no longer than a \<open>sockaddr_storage\<close>.
\<close>

definition kernel_recvs :: "'k kernel \<Rightarrow> ('k \<Rightarrow> int \<Rightarrow> bytes) \<Rightarrow> bool" where
  "kernel_recvs K dgram \<longleftrightarrow> (\<forall>k fd n. case sys_recvfrom K k fd n of (k', (ret, errno), (a, alen), stored) \<Rightarrow>
     ret = -1 \<and> errno > 0 \<or>
     ret = int (length (dgram k fd)) \<and> length (dgram k fd) < 2 ^ 16 \<and> stored = take (unat n) (dgram k fd) \<and> alen \<le> 128)"

lemma so_recv_cases:
  assumes "kernel_recvs K dgram" and "unat mtu < 2 ^ 63"
  obtains (failed) k' errno where "so_recv K k f mtu = (k', f, Inl (System_Error ''recvfrom'' errno))"
  | (oversized) k' where "length (dgram k (fw_fd f)) > unat mtu"
      "so_recv K k f mtu = (k', f, Inl (Runtime_Error ''recvfrom (oversized datagram)''))"
  | (got) k' a where "length (dgram k (fw_fd f)) \<le> unat mtu"
      "so_recv K k f mtu = (k', fd_register_read f, Inr (a, dgram k (fw_fd f)))"
proof -
  let ?d = "dgram k (fw_fd f)"
  obtain k' ret errno a alen stored where r: "sys_recvfrom K k (fw_fd f) mtu = (k', (ret, errno), (a, alen), stored)"
    by (metis surj_pair)
  from assms(1) [unfolded kernel_recvs_def, THEN spec, of k, THEN spec, of "fw_fd f", THEN spec, of mtu]
  consider "ret = -1" "errno > 0"
    | "ret = int (length ?d)" "length ?d < 2 ^ 16" "stored = take (unat mtu) ?d" "alen \<le> 128"
    unfolding r by auto
  then show thesis
  proof cases
    case 1
    then show thesis using r by (intro failed) (simp add: so_recv_def SystemCall_failed)
  next
    case 2
    have sc: "SystemCall ''recvfrom'' (ret, errno) 0 = Inr ret" using 2(1,2) by (intro SystemCall_returned) simp_all
    have m: "sint mtu = int (unat mtu)" by (rule sint_u64_small) (rule assms(2))
    show thesis
    proof (cases "length ?d \<le> unat mtu")
      case False
      then have "ret > sint mtu" using 2(1) unfolding m by (simp only: of_nat_less_iff not_le)
      then show thesis using r sc False by (intro oversized) (simp_all add: so_recv_def)
    next
      case True
      then have "\<not> ret > sint mtu" using 2(1) unfolding m by (simp only: of_nat_less_iff not_less)
      moreover have "unat (ucast alen :: u64) \<le> 128"
        using 2(4) by (simp add: word_le_nat_alt unat_ucast_mod)
      then have "\<exists>x. Address_raw a (ucast alen) = Inr x"
        by (simp add: Address_raw_def word_le_nat_alt word_less_nat_alt SIZEOF_SOCKADDR_STORAGE_def)
      then obtain x where "Address_raw a (ucast alen) = Inr x" by blast
      moreover have "str_ok ?d" using 2(2) by (simp add: str_ok_def)
      then have "str_resize ?d (of_nat (length ?d)) = ?d" by (rule str_resize_all)
      ultimately show thesis using r sc True 2(1,3) by (intro got [of k' x]) (simp_all add: so_recv_def Let_def)
    qed
  qed
qed

text \<open>
  \<open>UDPSocket::recv\<close> never hands over a truncated datagram: it returns the whole next datagram when it
  fits the given size, and throws when it does not (or when the system call fails).
\<close>

theorem so_recv_whole:
  assumes "kernel_recvs K dgram" and "unat mtu < 2 ^ 63"
  shows "case so_recv K k f mtu of (k', f', r) \<Rightarrow>
    (case r of
       Inr (a, payload) \<Rightarrow> payload = dgram k (fw_fd f) \<and> length payload \<le> unat mtu \<and> f' = fd_register_read f
     | Inl e \<Rightarrow> f' = f \<and> ((\<exists>errno. e = System_Error ''recvfrom'' errno) \<or>
         e = Runtime_Error ''recvfrom (oversized datagram)'' \<and> length (dgram k (fw_fd f)) > unat mtu))"
  using assms by (cases rule: so_recv_cases [where k = k and f = f]) auto

definition script_dgram :: "script \<Rightarrow> int \<Rightarrow> bytes" where
  "script_dgram k fd = (case sc_reads k of [] \<Rightarrow> [] | d # _ \<Rightarrow> take 100 d)"

definition script_recvs :: "script kernel" where
  "script_recvs = script_kernel\<lparr>sys_recvfrom := \<lambda>k fd n.
     (case sc_reads k of
        [] \<Rightarrow> (k, (-1, 11), ([], 0), [])
      | _ # ds \<Rightarrow> (k\<lparr>sc_reads := ds\<rparr>, (int (length (script_dgram k fd)), 0), ([], 0), take (unat n) (script_dgram k fd)))\<rparr>"

lemma script_kernel_recvs: "kernel_recvs script_recvs script_dgram"
  by (auto simp: kernel_recvs_def script_recvs_def script_dgram_def split: list.split)

theorem so_recv_whole_witness:
  "case so_recv script_recvs (script_empty\<lparr>sc_reads := [[1, 2, 3]]\<rparr>) (fd_example 5) 16 of (k', f', r) \<Rightarrow>
     (\<exists>a. r = Inr (a, [1, 2, 3]))"
proof -
  let ?k = "script_empty\<lparr>sc_reads := [[1, 2, 3]]\<rparr>"
  have "\<not> isl (snd (snd (so_recv script_recvs ?k (fd_example 5) 16)))" by code_simp
  moreover have "script_dgram ?k (fw_fd (fd_example 5)) = [1, 2, 3]" by (simp add: script_dgram_def)
  ultimately show ?thesis
    using so_recv_whole [OF script_kernel_recvs, where k = ?k and f = "fd_example 5" and mtu = 16]
    by (auto split: sum.splits)
qed

end
