(* ===== verification/Event_Loop.thy ===== *)
theory Event_Loop imports File_Descriptor "HOL-Library.Sublist"
begin

text \<open>
  \<open>EventLoop\<close> of \<open>util/eventloop.cc\<close>. The callbacks of a rule act on a state \<open>'w\<close>, which holds the file
  descriptors, the kernel and whatever the callbacks capture; \<open>poll\<close> is a function on it. An exception thrown
  by a callback leaves \<open>wait_next_event\<close> with the state and the rules as they are at that point. No
  callback adds a rule to the loop that runs it, which holds of every caller in the sources.
\<close>

section \<open>Rules\<close>

definition POLLIN :: u16 where "POLLIN = 1"
definition POLLOUT :: u16 where "POLLOUT = 4"
definition POLLERR :: u16 where "POLLERR = 8"
definition POLLHUP :: u16 where "POLLHUP = 16"
definition POLLNVAL :: u16 where "POLLNVAL = 32"
definition EINTR :: int where "EINTR = 4"

datatype direction = Dir_In | Dir_Out

fun direction_events :: "direction \<Rightarrow> u16" where
  "direction_events Dir_In = POLLIN"
| "direction_events Dir_Out = POLLOUT"

record 'w rule =
  ru_fd :: "'w \<Rightarrow> fd_wrapper"
  ru_direction :: direction
  ru_callback :: "'w \<Rightarrow> 'w \<times> (exn + unit)"
  ru_interest :: "'w \<Rightarrow> bool"
  ru_cancel :: "'w \<Rightarrow> 'w \<times> (exn + unit)"

datatype el_result = Result_Success | Result_Timeout | Result_Exit

definition ru_service_count :: "'w rule \<Rightarrow> 'w \<Rightarrow> u32" where
  "ru_service_count r w =
    (if ru_direction r = Dir_In then fw_read_count (ru_fd r w) else fw_write_count (ru_fd r w))"

definition el_add_rule :: "'w rule list \<Rightarrow> 'w rule \<Rightarrow> 'w rule list" where
  "el_add_rule rules r = rules @ [r]"

section \<open>One round\<close>

text \<open>
  The set-up loop: cancels the rules whose descriptor has reached its end or is closed; of the others, the
  descriptors and the events to poll for (none for a rule that is not interested), and whether any is interested.
\<close>

fun el_setup :: "'w rule list \<Rightarrow> 'w \<Rightarrow> 'w \<times> 'w rule list \<times> (int \<times> u16) list \<times> bool \<times> (exn + unit)" where
  "el_setup [] w = (w, [], [], False, Inr ())"
| "el_setup (r # rs) w =
    (if ru_direction r = Dir_In \<and> fw_eof (ru_fd r w) \<or> fw_closed (ru_fd r w)
     then case ru_cancel r w of
            (w, Inl e) \<Rightarrow> (w, r # rs, [], False, Inl e)
          | (w, Inr _) \<Rightarrow> el_setup rs w
     else
       let interested = ru_interest r w;
           pollfd = (fw_fd (ru_fd r w), if interested then direction_events (ru_direction r) else 0);
           (w, rules, pollfds, something_to_poll, res) = el_setup rs w
       in (w, r # rules, pollfd # pollfds, interested \<or> something_to_poll, res))"

definition el_busy_wait :: exn where
  "el_busy_wait =
    Runtime_Error ''EventLoop: busy wait detected: callback did not read/write fd and is still interested''"

definition el_poll_error :: exn where
  "el_poll_error = Runtime_Error ''EventLoop: error on polled file descriptor''"

text \<open>A ready rule: its callback, and the check that it has made progress.\<close>

definition el_service :: "'w rule \<Rightarrow> 'w \<Rightarrow> 'w \<times> (exn + unit)" where
  "el_service r w =
    (let count_before = ru_service_count r w
     in case ru_callback r w of
          (w, Inl e) \<Rightarrow> (w, Inl e)
        | (w, Inr _) \<Rightarrow>
            if count_before = ru_service_count r w \<and> ru_interest r w then (w, Inl el_busy_wait) else (w, Inr ()))"

text \<open>
  The loop over the results; a polled descriptor is the pair of its requested and its returned events. The
  second equation is an index past the end of \<open>pollfds\<close>, which \<open>wait_next_event\<close> never reaches.
\<close>

fun el_results :: "'w rule list \<Rightarrow> (u16 \<times> u16) list \<Rightarrow> 'w \<Rightarrow> 'w \<times> 'w rule list \<times> (exn + unit)" where
  "el_results [] ps w = (w, [], Inr ())"
| "el_results (r # rs) [] w = (w, r # rs, Inl (Undefined_Behaviour ''pollfds[idx]''))"
| "el_results (r # rs) ((events, revents) # ps) w =
    (let poll_error = revents AND (POLLERR OR POLLNVAL) \<noteq> 0;
         poll_ready = revents AND events \<noteq> 0;
         poll_hup = revents AND POLLHUP \<noteq> 0
     in if poll_error then (w, r # rs, Inl el_poll_error)
        else if poll_hup \<and> events \<noteq> 0 \<and> \<not> poll_ready
        then case ru_cancel r w of
               (w, Inl e) \<Rightarrow> (w, r # rs, Inl e)
             | (w, Inr _) \<Rightarrow> el_results rs ps w
        else
          case (if poll_ready then el_service r w else (w, Inr ())) of
            (w, Inl e) \<Rightarrow> (w, r # rs, Inl e)
          | (w, Inr _) \<Rightarrow> let (w, rules, res) = el_results rs ps w in (w, r # rules, res))"

type_synonym 'w poller = "'w \<Rightarrow> (int \<times> u16) list \<Rightarrow> int \<Rightarrow> 'w \<times> sysret \<times> u16 list"

text \<open>\<open>poll\<close> fills in the events of each descriptor, which are zero before.\<close>

definition el_polled :: "(int \<times> u16) list \<Rightarrow> u16 list \<Rightarrow> (u16 \<times> u16) list" where
  "el_polled pollfds revents = zip (map snd pollfds) (revents @ replicate (length pollfds) 0)"

definition wait_next_event ::
    "'w poller \<Rightarrow> 'w rule list \<Rightarrow> 'w \<Rightarrow> int \<Rightarrow> 'w \<times> 'w rule list \<times> (exn + el_result)" where
  "wait_next_event poll rules w timeout_ms =
    (let (w, rules, pollfds, something_to_poll, res) = el_setup rules w
     in case res of
          Inl e \<Rightarrow> (w, rules, Inl e)
        | Inr _ \<Rightarrow>
            if \<not> something_to_poll then (w, rules, Inr Result_Exit)
            else
              let (w, ret, revents) = poll w pollfds timeout_ms;
                  go_on = (let (w, rules, res) = el_results rules (el_polled pollfds revents) w
                           in (w, rules, case res of Inl e \<Rightarrow> Inl e | Inr _ \<Rightarrow> Inr Result_Success))
              in case SystemCall ''poll'' ret 0 of
                   Inl e \<Rightarrow> if snd ret = EINTR then (w, rules, Inr Result_Exit) else go_on
                 | Inr n \<Rightarrow> if n = 0 then (w, rules, Inr Result_Timeout) else go_on)"

section \<open>The shape of a round\<close>

lemma subseq_set_le: "subseq xs ys \<Longrightarrow> set xs \<subseteq> set ys"
  by (induction rule: list_emb.induct) auto

lemma el_setup_shape:
  assumes "el_setup rules w = (w', rules', pollfds, something, res)"
  shows "subseq rules' rules" and "res = Inr () \<Longrightarrow> length pollfds = length rules'"
  using assms by (induction rules arbitrary: w w' rules' pollfds something res)
    (auto simp: Let_def split: if_splits sum.splits prod.splits)

lemma el_results_shape:
  "el_results rules ps w = (w', rules', res) \<Longrightarrow> subseq rules' rules"
  by (induction rules ps arbitrary: w w' rules' res rule: list_induct2')
    (auto simp: Let_def split: if_splits sum.splits prod.splits, blast intro: list_emb_Cons)

lemma el_polled_length: "length (el_polled pollfds revents) = length pollfds"
  by (simp add: el_polled_def)

lemma wait_next_event_shape:
  assumes "wait_next_event poll rules w t = (w', rules', res)"
  shows "subseq rules' rules"
proof -
  obtain w1 rules1 pollfds something r where s: "el_setup rules w = (w1, rules1, pollfds, something, r)"
    by (metis surj_pair)
  obtain w2 ret revents where p: "poll w1 pollfds t = (w2, ret, revents)" by (metis surj_pair)
  obtain w3 rules3 r3 where d: "el_results rules1 (el_polled pollfds revents) w2 = (w3, rules3, r3)"
    by (metis surj_pair)
  have "rules' = rules1 \<or> rules' = rules3"
    using assms by (auto simp: wait_next_event_def Let_def s p d split: sum.splits if_splits)
  then show ?thesis
    using el_setup_shape(1) [OF s] el_results_shape [OF d] subseq_order.trans by blast
qed

text \<open>When nobody is interested and nobody has to be cancelled, the loop is over at once.\<close>

lemma el_setup_idle:
  assumes "\<forall>r\<in>set rules. \<not> (ru_direction r = Dir_In \<and> fw_eof (ru_fd r w)) \<and> \<not> fw_closed (ru_fd r w)"
  shows "el_setup rules w =
    (w, rules, map (\<lambda>r. (fw_fd (ru_fd r w), if ru_interest r w then direction_events (ru_direction r) else 0)) rules,
     \<exists>r\<in>set rules. ru_interest r w, Inr ())"
  using assms by (induction rules) (auto simp: Let_def)

lemma wait_next_event_exit:
  assumes "\<forall>r\<in>set rules. \<not> (ru_direction r = Dir_In \<and> fw_eof (ru_fd r w)) \<and> \<not> fw_closed (ru_fd r w)"
    and "\<forall>r\<in>set rules. \<not> ru_interest r w"
  shows "wait_next_event poll rules w t = (w, rules, Inr Result_Exit)"
  using assms(2) by (auto simp: wait_next_event_def el_setup_idle [OF assms(1)])

lemma el_results_quiet:
  "length ps = length rules \<Longrightarrow> \<forall>p\<in>set ps. snd p = 0 \<Longrightarrow> el_results rules ps w = (w, rules, Inr ())"
  by (induction rules ps rule: list_induct2') auto

lemma el_polled_zero: "\<forall>e\<in>set revents. e = 0 \<Longrightarrow> \<forall>p\<in>set (el_polled pollfds revents). snd p = 0"
  by (auto simp: el_polled_def dest!: set_zip_rightD)

section \<open>The contract of the callbacks\<close>

text \<open>
  What the loop asks of its rules: each callback and each cancellation keeps an invariant \<open>I\<close> of the state and
  throws only exceptions in \<open>Q\<close>, and a callback that returns has read or written its descriptor, or is not
  interested any more. Then every round keeps the invariant, and throws, besides those, only on an
  error of a polled descriptor: the check for a busy wait never fires.
\<close>

locale event_handlers =
  fixes rules :: "'w rule list" and I :: "'w \<Rightarrow> bool" and Q :: "exn \<Rightarrow> bool" and poll :: "'w poller"
  assumes callback_keeps: "\<And>r w w' res. r \<in> set rules \<Longrightarrow> I w \<Longrightarrow> ru_callback r w = (w', res) \<Longrightarrow> I w'"
    and callback_throws: "\<And>r w w' e. r \<in> set rules \<Longrightarrow> I w \<Longrightarrow> ru_callback r w = (w', Inl e) \<Longrightarrow> Q e"
    and callback_serves: "\<And>r w w'. r \<in> set rules \<Longrightarrow> I w \<Longrightarrow> ru_callback r w = (w', Inr ()) \<Longrightarrow>
      ru_service_count r w \<noteq> ru_service_count r w' \<or> \<not> ru_interest r w'"
    and cancel_keeps: "\<And>r w w' res. r \<in> set rules \<Longrightarrow> I w \<Longrightarrow> ru_cancel r w = (w', res) \<Longrightarrow> I w'"
    and cancel_throws: "\<And>r w w' e. r \<in> set rules \<Longrightarrow> I w \<Longrightarrow> ru_cancel r w = (w', Inl e) \<Longrightarrow> Q e"
    and poll_keeps: "\<And>w fds t w' ret revents. I w \<Longrightarrow> poll w fds t = (w', ret, revents) \<Longrightarrow> I w'"
begin

lemma service_keeps:
  assumes "r \<in> set rules" and "I w" and "el_service r w = (w', res)"
  shows "I w'" and "res = Inl e \<Longrightarrow> Q e"
proof -
  obtain w1 r1 where c: "ru_callback r w = (w1, r1)" by (metis surj_pair)
  have keep: "I w1" by (rule callback_keeps [OF assms(1,2) c])
  then show "I w'" using assms(3) c by (auto simp: el_service_def split: sum.splits if_splits)
  show "Q e" if "res = Inl e"
  proof (cases r1)
    case (Inl x)
    then show ?thesis
      using that assms(3) c callback_throws [OF assms(1,2), of w1 x] by (simp add: el_service_def)
  next
    case (Inr u)
    then show ?thesis
      using that assms(3) c callback_serves [OF assms(1,2), of w1]
      by (auto simp: el_service_def split: if_splits)
  qed
qed

lemma setup_keeps:
  assumes "set rs \<subseteq> set rules" and "I w" and "el_setup rs w = (w', rs', fds, something, res)"
  shows "I w' \<and> (\<forall>e. res = Inl e \<longrightarrow> Q e)"
  using assms
proof (induction rs arbitrary: w w' rs' fds something res)
  case (Cons r rs)
  have r: "r \<in> set rules" "set rs \<subseteq> set rules" using Cons.prems(1) by auto
  show ?case
  proof (cases "ru_direction r = Dir_In \<and> fw_eof (ru_fd r w) \<or> fw_closed (ru_fd r w)")
    case True
    obtain w1 r1 where c: "ru_cancel r w = (w1, r1)" by (metis surj_pair)
    have "I w1" by (rule cancel_keeps [OF r(1) Cons.prems(2) c])
    then show ?thesis
      using Cons.prems(3) True c cancel_throws [OF r(1) Cons.prems(2)] Cons.IH [OF r(2), of w1]
      by (cases r1) auto
  next
    case False
    obtain w1 rs1 fds1 s1 r1 where s: "el_setup rs w = (w1, rs1, fds1, s1, r1)" by (metis surj_pair)
    show ?thesis using Cons.prems(3) False Cons.IH [OF r(2) Cons.prems(2) s] s by (auto simp: Let_def)
  qed
qed simp

lemma results_keep:
  assumes "set rs \<subseteq> set rules" and "I w" and "length ps = length rs" and "el_results rs ps w = (w', rs', res)"
  shows "I w' \<and> (\<forall>e. res = Inl e \<longrightarrow> Q e \<or> e = el_poll_error)"
  using assms
proof (induction rs ps arbitrary: w w' rs' res rule: list_induct2')
  case (4 r rs p ps)
  obtain events revents where p: "p = (events, revents)" by (cases p)
  have r: "r \<in> set rules" "set rs \<subseteq> set rules" "length ps = length rs" using "4.prems"(1,3) by auto
  note rest = "4.IH" [OF r(2) _ r(3)]
  obtain w1 r1 where c: "ru_cancel r w = (w1, r1)" by (metis surj_pair)
  obtain w2 r2 where v: "(if revents AND events \<noteq> 0 then el_service r w else (w, Inr ())) = (w2, r2)"
    by (metis surj_pair)
  have c1: "I w1" "\<And>e. r1 = Inl e \<Longrightarrow> Q e"
    using cancel_keeps [OF r(1) "4.prems"(2) c] cancel_throws [OF r(1) "4.prems"(2)] c by auto
  have v2: "I w2" "\<And>e. r2 = Inl e \<Longrightarrow> Q e"
    using service_keeps [OF r(1) "4.prems"(2)] "4.prems"(2) v by (auto split: if_splits)
  consider "revents AND (POLLERR OR POLLNVAL) \<noteq> 0"
    | "revents AND (POLLERR OR POLLNVAL) = 0" "revents AND POLLHUP \<noteq> 0 \<and> events \<noteq> 0 \<and> revents AND events = 0"
    | "revents AND (POLLERR OR POLLNVAL) = 0" "\<not> (revents AND POLLHUP \<noteq> 0 \<and> events \<noteq> 0 \<and> revents AND events = 0)"
    by blast
  then show ?case
  proof cases
    case 1
    then show ?thesis using "4.prems"(2,4) p by (auto simp: Let_def)
  next
    case 2
    then show ?thesis using "4.prems"(4) c c1 rest [OF c1(1)] p by (cases r1) (auto simp: Let_def)
  next
    case 3
    obtain w3 rs3 r3 where e: "el_results rs ps w2 = (w3, rs3, r3)" by (metis surj_pair)
    have "el_results (r # rs) ((events, revents) # ps) w =
      (case r2 of Inl x \<Rightarrow> (w2, r # rs, Inl x) | Inr _ \<Rightarrow> (w3, r # rs3, r3))"
      using 3 v e by (auto simp: Let_def split: sum.split)
    then show ?thesis using "4.prems"(4) v2 rest [OF v2(1) e] p by (cases r2) auto
  qed
qed auto

lemma wait_keeps:
  assumes "set rs \<subseteq> set rules" and "I w" and "wait_next_event poll rs w t = (w', rs', res)"
  shows "I w'" and "set rs' \<subseteq> set rules" and "res = Inl e \<Longrightarrow> Q e \<or> e = el_poll_error"
proof -
  obtain w1 rs1 fds something r where s: "el_setup rs w = (w1, rs1, fds, something, r)" by (metis surj_pair)
  obtain w2 ret revents where p: "poll w1 fds t = (w2, ret, revents)" by (metis surj_pair)
  obtain w3 rs3 r3 where d: "el_results rs1 (el_polled fds revents) w2 = (w3, rs3, r3)" by (metis surj_pair)
  have 1: "I w1 \<and> (\<forall>e. r = Inl e \<longrightarrow> Q e)" by (rule setup_keeps [OF assms(1,2) s])
  then have 2: "I w2" using p poll_keeps by blast
  have "set rs1 \<subseteq> set rules" using el_setup_shape(1) [OF s] assms(1) by (meson subset_trans subseq_set_le)
  then have 3: "I w3 \<and> (\<forall>e. r3 = Inl e \<longrightarrow> Q e \<or> e = el_poll_error)" if "r = Inr ()"
    using results_keep [OF _ 2 _ d] el_setup_shape(2) [OF s that] by (simp add: el_polled_length)
  show "I w'" "res = Inl e \<Longrightarrow> Q e \<or> e = el_poll_error"
    using assms(3) 1 2 3 by (auto simp: wait_next_event_def Let_def s p d split: sum.splits if_splits)
  show "set rs' \<subseteq> set rules"
    using wait_next_event_shape [OF assms(3)] assms(1) by (meson subset_trans subseq_set_le)
qed

end

section \<open>Properties\<close>

text \<open>
  An error of \<open>poll\<close> other than an interrupt goes unnoticed: the round runs no callback and reports success,
  so the caller's loop polls again at once. (The comment of \<open>wait_next_event\<close> says that it throws.)
\<close>

theorem poll_error_reported_as_success:
  assumes "\<forall>r\<in>set rules. \<not> (ru_direction r = Dir_In \<and> fw_eof (ru_fd r w)) \<and> \<not> fw_closed (ru_fd r w)"
    and "\<exists>r\<in>set rules. ru_interest r w"
    and "\<forall>fds. poll w fds t = (w', (-1, errno), map (\<lambda>_. 0) fds)" and "errno > 0" and "errno \<noteq> EINTR"
  shows "wait_next_event poll rules w t = (w', rules, Inr Result_Success)"
proof -
  let ?fds = "map (\<lambda>r. (fw_fd (ru_fd r w), if ru_interest r w then direction_events (ru_direction r) else 0)) rules"
  have "el_results rules (el_polled ?fds (map (\<lambda>_. 0) ?fds)) w' = (w', rules, Inr ())"
    by (rule el_results_quiet) (simp add: el_polled_length, rule el_polled_zero, simp)
  then show ?thesis
    using assms(2-5) by (simp add: wait_next_event_def el_setup_idle [OF assms(1)] SystemCall_failed Let_def)
qed

definition rule_example :: "fd_wrapper rule" where
  "rule_example = \<lparr>ru_fd = \<lambda>w. w, ru_direction = Dir_In, ru_callback = \<lambda>w. (w, Inr ()),
     ru_interest = \<lambda>_. True, ru_cancel = \<lambda>w. (w, Inr ())\<rparr>"

theorem poll_error_reported_as_success_witness:
  "wait_next_event (\<lambda>w fds t. (w, (-1, 22), map (\<lambda>_. 0) fds)) [rule_example] (fd_example 1) 10 =
    (fd_example 1, [rule_example], Inr Result_Success)"
  using poll_error_reported_as_success [of "[rule_example]" "fd_example 1"
      "\<lambda>w fds t. (w, (-1, 22), map (\<lambda>_. 0) fds)" 10 "fd_example 1" 22]
  by (simp add: rule_example_def fd_example_def EINTR_def)

text \<open>A callback that does not touch its descriptor and stays interested is caught as a busy wait.\<close>

lemma busy_wait_caught:
  assumes "ru_callback r w = (w', Inr ())" and "ru_service_count r w' = ru_service_count r w" and "ru_interest r w'"
  shows "el_service r w = (w', Inl el_busy_wait)"
  using assms by (simp add: el_service_def)

end
