(* ===== verification/Kernel_Frames.thy ===== *)
theory Kernel_Frames
  imports Byte_Stream Socket Event_Loop
begin

text \<open>
  What the callbacks of an event loop do to a descriptor and to the kernel: which calls they make, what
  the kernel has accepted after them, and that the exceptions they throw are not the one for a busy wait.
  The two event loops of the program, \<open>Sponge_Socket\<close> and \<open>Stream_Copy\<close>, share these facts.
\<close>

section \<open>Descriptors and kernel\<close>

lemma fd_read_frame:
  assumes "fd_read K k f n = (k', f', r)"
  shows "fw_fd f' = fw_fd f" and "k' = fst (sys_read K k (fw_fd f) (min READ_BUFFER_SIZE n))"
    and "r = Inr d \<Longrightarrow> fw_read_count f' = fw_read_count f + 1" and "r = Inl e \<Longrightarrow> e \<noteq> el_busy_wait"
  using assms by (auto simp: fd_read_def Let_def el_busy_wait_def SystemCall_def split: sum.splits prod.splits if_splits)

lemma fd_write_once:
  assumes "kernel_writes K acc" and "str_ok s"
  obtains (failed) k' errno where "acc k' = acc k" "fd_write K k f [s] False = (k', f, Inl (System_Error ''writev'' errno))"
  | (wrote) k' m where "m \<le> length s" "acc k' = (acc k)(fw_fd f := acc k (fw_fd f) @ take m s)"
      "fd_write K k f [s] False = (k', fd_register_write f, Inr (of_nat m))"
proof -
  obtain k' ret errno where r: "sys_writev K k (fw_fd f) (bvl_as_iovecs [s]) = (k', ret, errno)" by (metis surj_pair)
  have d: "concat (map fst (bvl_as_iovecs [s])) = s" by (simp add: bvl_as_iovecs_def)
  from kernel_writesD [OF assms(1) r] show thesis
  proof
    assume "ret = -1 \<and> errno > 0 \<and> acc k' = acc k"
    then show thesis
      using r by (intro failed [of k' errno]) (simp_all add: fd_write_def fd_write_loop.simps SystemCall_failed)
  next
    assume w: "0 \<le> ret \<and> ret \<le> 2147479552 \<and> ret \<le> int (length (concat (map fst (bvl_as_iovecs [s])))) \<and>
      (concat (map fst (bvl_as_iovecs [s])) \<noteq> [] \<longrightarrow> ret > 0) \<and>
      acc k' = (acc k)(fw_fd f := acc k (fw_fd f) @ take (nat ret) (concat (map fst (bvl_as_iovecs [s]))))"
    have "bvl_ok [s]" using assms(2) by (simp add: bvl_ok_def)
    from fd_write_loop_step [OF this r, of False 0] w d
    have "fd_write K k f [s] False = (k', fd_register_write f, Inr (of_int ret))" by (auto simp: fd_write_def)
    then show thesis using w d by (intro wrote [of "nat ret" k']) (simp_all add: nat_le_iff)
  qed
qed

lemma so_shutdown_frame:
  assumes "so_shutdown K k f how = (k', f', r)"
  shows "fw_fd f' = fw_fd f" and "k' = fst (sys_shutdown K k (fw_fd f) how)"
    and "how = SHUT_WR \<Longrightarrow> r = Inr u \<Longrightarrow> f' = fd_register_write f" and "r = Inl e \<Longrightarrow> e \<noteq> el_busy_wait"
  using assms by (auto simp: so_shutdown_def checked_def el_busy_wait_def SystemCall_def SHUT_RD_def SHUT_WR_def SHUT_RDWR_def Let_def
    split: sum.splits prod.splits if_splits)

text \<open>
  Documented behaviour of the kernel: besides \<open>kernel_writes\<close>, the other calls of the loop accept no data
  on a descriptor.
\<close>

definition kernel_accounts :: "'k kernel \<Rightarrow> ('k \<Rightarrow> int \<Rightarrow> bytes) \<Rightarrow> bool" where
  "kernel_accounts K acc \<longleftrightarrow> kernel_writes K acc \<and>
    (\<forall>k fd n. acc (fst (sys_read K k fd n)) = acc k) \<and> (\<forall>k fd how. acc (fst (sys_shutdown K k fd how)) = acc k) \<and>
    (\<forall>k fds t. acc (fst (sys_poll K k fds t)) = acc k) \<and> (\<forall>k. acc (fst (sys_clock K k)) = acc k)"

lemma kernel_accountsD:
  assumes "kernel_accounts K acc"
  shows "kernel_writes K acc" "acc (fst (sys_read K k fd n)) = acc k" "acc (fst (sys_shutdown K k fd how)) = acc k"
    "acc (fst (sys_poll K k fds t)) = acc k" "acc (fst (sys_clock K k)) = acc k"
  using assms by (simp_all add: kernel_accounts_def)

lemma script_kernel_accounts: "kernel_accounts script_kernel sc_out"
  using script_kernel_writes by (simp add: kernel_accounts_def) (simp add: script_kernel_def split: list.split)

section \<open>Looking into a stream\<close>

lemma peek_bound: "length (bs_peek_output s (min 65536 n)) \<le> 65536"
proof -
  have "unat (bs_clip s (min 65536 n)) \<le> unat (65536 :: u64)"
    unfolding word_le_nat_alt [symmetric] by (auto simp: bs_clip_def min_def not_less)
  then show ?thesis by (simp add: bs_peek_output_def)
qed

lemma peek_take:
  assumes "m \<le> length (bs_peek_output s (min 65536 n))"
  shows "take m (bs_peek_output s (min 65536 n)) = bs_peek_output s (of_nat m)"
proof -
  let ?l = "bs_clip s (min 65536 n)"
  have m: "m \<le> unat ?l" using assms by (simp add: bs_peek_output_def)
  then have "unat (of_nat m :: u64) = m" using unsigned_less [of ?l, where ?'a = nat] by (simp add: unat_of_nat take_bit_nat_eq_self)
  moreover have "?l \<le> str_size (bs_buffer s)" by (auto simp: bs_clip_def not_less min_le_iff_disj)
  ultimately have "bs_clip s (of_nat m) = of_nat m"
    using m unfolding bs_clip_def word_le_nat_alt word_less_nat_alt by simp
  then show ?thesis using m \<open>unat (of_nat m :: u64) = m\<close> by (simp add: bs_peek_output_def min_absorb1)
qed

end
