(* ===== verification/Sponge_Socket.thy ===== *)
theory Sponge_Socket imports End_To_End Adapters Kernel_Frames
begin

text \<open>
  \<open>TCPSpongeSocket\<close> of \<open>tcp_helpers/tcp_sponge_socket.cc\<close>: the thread that drives a \<open>TCPConnection\<close> between a datagram
  adapter and the stream socket shared with the owner, by an event loop of four rules.

  The template parameter \<open>AdaptT\<close> is a record of the adapter's operations, given here for the UDP and the
  TUN adapter over the kernel. The owner's thread acts through the kernel's state only: the other
  end of the stream socket, and the flag \<open>_abort\<close>, which is read off that state. Debugging output
  is modelled as far as it can throw: it asks for the name of the peer's address.
\<close>

section \<open>Adapters over the kernel\<close>

record ('k, 'a) adapter_ops =
  at_fd :: "'a \<Rightarrow> fd_wrapper"
  at_config :: "'a \<Rightarrow> fd_adapter_config"
  at_set_config :: "'a \<Rightarrow> fd_adapter_config \<Rightarrow> 'a"
  at_set_listening :: "'a \<Rightarrow> bool \<Rightarrow> 'a"
  at_read :: "'k \<Rightarrow> 'a \<Rightarrow> 'k \<times> 'a \<times> (exn + tcp_segment option)"
  at_write :: "'k \<Rightarrow> 'a \<Rightarrow> tcp_segment \<Rightarrow> 'k \<times> 'a \<times> tcp_segment \<times> (exn + unit)"
  at_tick :: "'k \<Rightarrow> 'a \<Rightarrow> u64 \<Rightarrow> 'k \<times> 'a \<times> (exn + unit)"

record sock_adapter =
  sa_base :: fd_adapter
  sa_fd :: fd_wrapper

definition sa_read_udp :: "'k kernel \<Rightarrow> 'k \<Rightarrow> sock_adapter \<Rightarrow> 'k \<times> sock_adapter \<times> (exn + tcp_segment option)" where
  "sa_read_udp K k a =
    (case so_recv K k (sa_fd a) 65536 of
       (k, f, Inl e) \<Rightarrow> (k, a\<lparr>sa_fd := f\<rparr>, Inl e)
     | (k, f, Inr (source_address, payload)) \<Rightarrow>
         let (fa, seg) = udp_read (sa_base a) source_address payload
         in (k, a\<lparr>sa_fd := f, sa_base := fa\<rparr>, Inr seg))"

definition sa_write_udp ::
    "'k kernel \<Rightarrow> net_db \<Rightarrow> 'k \<Rightarrow> sock_adapter \<Rightarrow> tcp_segment \<Rightarrow> 'k \<times> sock_adapter \<times> tcp_segment \<times> (exn + unit)" where
  "sa_write_udp K db k a seg =
    (case udp_write db (sa_base a) seg of
       (seg, Inl e) \<Rightarrow> (k, a, seg, Inl e)
     | (seg, Inr (destination, bl)) \<Rightarrow>
         let (k, f, r) = so_sendto K k (sa_fd a) destination (bvl_of_list bl)
         in (k, a\<lparr>sa_fd := f\<rparr>, seg, r))"

text \<open>\<open>read()\<close> without a limit asks for as much as possible; \<open>write\<close> writes all.\<close>

definition sa_read_tun ::
    "'k kernel \<Rightarrow> net_db \<Rightarrow> 'k \<Rightarrow> sock_adapter \<Rightarrow> 'k \<times> sock_adapter \<times> (exn + tcp_segment option)" where
  "sa_read_tun K db k a =
    (case fd_read K k (sa_fd a) (- 1) of
       (k, f, Inl e) \<Rightarrow> (k, a\<lparr>sa_fd := f\<rparr>, Inl e)
     | (k, f, Inr data) \<Rightarrow>
         let (fa, r) = tun_read db (sa_base a) data in (k, a\<lparr>sa_fd := f, sa_base := fa\<rparr>, r))"

definition sa_write_tun ::
    "'k kernel \<Rightarrow> net_db \<Rightarrow> 'k \<Rightarrow> sock_adapter \<Rightarrow> tcp_segment \<Rightarrow> 'k \<times> sock_adapter \<times> tcp_segment \<times> (exn + unit)" where
  "sa_write_tun K db k a seg =
    (case tun_write db (sa_base a) seg of
       (seg, Inl e) \<Rightarrow> (k, a, seg, Inl e)
     | (seg, Inr bl) \<Rightarrow>
         let (k, f, r) = fd_write K k (sa_fd a) (bvl_of_list bl) True
         in (k, a\<lparr>sa_fd := f\<rparr>, seg, case r of Inl e \<Rightarrow> Inl e | Inr _ \<Rightarrow> Inr ()))"

definition sock_adapter_ops ::
    "('k \<Rightarrow> sock_adapter \<Rightarrow> 'k \<times> sock_adapter \<times> (exn + tcp_segment option)) \<Rightarrow>
     ('k \<Rightarrow> sock_adapter \<Rightarrow> tcp_segment \<Rightarrow> 'k \<times> sock_adapter \<times> tcp_segment \<times> (exn + unit)) \<Rightarrow> ('k, sock_adapter) adapter_ops" where
  "sock_adapter_ops rd wr =
    \<lparr>at_fd = sa_fd, at_config = \<lambda>a. fa_cfg (sa_base a),
     at_set_config = \<lambda>a cfg. a\<lparr>sa_base := (sa_base a)\<lparr>fa_cfg := cfg\<rparr>\<rparr>,
     at_set_listening = \<lambda>a l. a\<lparr>sa_base := fa_set_listening (sa_base a) l\<rparr>,
     at_read = rd, at_write = wr, at_tick = \<lambda>k a ms. (k, a, Inr ())\<rparr>"

definition udp_ops :: "'k kernel \<Rightarrow> net_db \<Rightarrow> ('k, sock_adapter) adapter_ops" where
  "udp_ops K db = sock_adapter_ops (sa_read_udp K) (sa_write_udp K db)"

definition tun_ops :: "'k kernel \<Rightarrow> net_db \<Rightarrow> ('k, sock_adapter) adapter_ops" where
  "tun_ops K db = sock_adapter_ops (sa_read_tun K db) (sa_write_tun K db)"

section \<open>The socket\<close>

record ('k, 'a) sponge =
  ss_kernel :: 'k
  ss_fd :: fd_wrapper
  ss_thread_data :: fd_wrapper
  ss_adapter :: 'a
  ss_tcp :: "tcp_connection option"
  ss_inbound_shutdown :: bool
  ss_outbound_shutdown :: bool
  ss_fully_acked :: bool

text \<open>The constructor, from the two ends of the socket pair; each becomes a checked \<open>LocalStreamSocket\<close>.\<close>

definition socket_pair_helper :: "'k kernel \<Rightarrow> 'k \<Rightarrow> int \<Rightarrow> 'k \<times> (exn + fd_wrapper \<times> fd_wrapper)" where
  "socket_pair_helper K k type =
    (let (k, ret, fd0, fd1) = sys_socketpair K k AF_UNIX type
     in case SystemCall ''socketpair'' ret 0 of
          Inl e \<Rightarrow> (k, Inl e)
        | Inr _ \<Rightarrow>
            (case FDWrapper fd0 of
               Inl e \<Rightarrow> (k, Inl e)
             | Inr f0 \<Rightarrow>
                 (case FDWrapper fd1 of
                    Inl e \<Rightarrow> (fst (fd_destroy K k f0), Inl e)
                  | Inr f1 \<Rightarrow> (k, Inr (f0, f1)))))"

definition TCPSpongeSocket ::
    "'k kernel \<Rightarrow> ('k, 'a) adapter_ops \<Rightarrow> 'k \<Rightarrow> fd_wrapper \<times> fd_wrapper \<Rightarrow> 'a \<Rightarrow> 'k \<times> (exn + ('k, 'a) sponge)" where
  "TCPSpongeSocket K A k data_socket_pair datagram_interface =
    (let (f0, f1) = data_socket_pair
     in case so_of_fd K k f0 AF_UNIX SOCK_STREAM of
          (k, Inl e) \<Rightarrow> (fst (fd_destroy K k f1), Inl e)
        | (k, Inr f0) \<Rightarrow>
            (case so_of_fd K k f1 AF_UNIX SOCK_STREAM of
               (k, Inl e) \<Rightarrow> (fst (fd_destroy K k f0), Inl e)
             | (k, Inr f1) \<Rightarrow>
                 (case fd_set_blocking K k f1 False of
                    (k, Inl e) \<Rightarrow>
                      let k = fst (fd_destroy K k (at_fd A datagram_interface))
                      in (fst (fd_destroy K (fst (fd_destroy K k f1)) f0), Inl e)
                  | (k, Inr _) \<Rightarrow>
                      (k, Inr \<lparr>ss_kernel = k, ss_fd = f0, ss_thread_data = f1, ss_adapter = datagram_interface,
                               ss_tcp = None, ss_inbound_shutdown = False, ss_outbound_shutdown = False,
                               ss_fully_acked = False\<rparr>))))"

section \<open>The four rules\<close>

text \<open>\<open>_tcp\<close> holds a connection whenever a rule runs; the access to an empty \<open>optional\<close> is spelled out.\<close>

definition ss_with ::
    "('k, 'a) sponge \<Rightarrow> (tcp_connection \<Rightarrow> ('k, 'a) sponge \<times> (exn + 'b)) \<Rightarrow> ('k, 'a) sponge \<times> (exn + 'b)" where
  "ss_with w f =
    (case ss_tcp w of None \<Rightarrow> (w, Inl (Undefined_Behaviour ''_tcp is empty'')) | Some c \<Rightarrow> f c)"

definition ss_if :: "('k, 'a) sponge \<Rightarrow> (tcp_connection \<Rightarrow> bool) \<Rightarrow> bool" where
  "ss_if w p = (case ss_tcp w of None \<Rightarrow> False | Some c \<Rightarrow> p c)"

text \<open>Naming the peer in the debugging output.\<close>

definition ss_name_peer :: "net_db \<Rightarrow> ('k, 'a) adapter_ops \<Rightarrow> ('k, 'a) sponge \<Rightarrow> exn + unit" where
  "ss_name_peer db A w =
    (case ad_to_string db (fc_destination (at_config A (ss_adapter w))) of Inl e \<Rightarrow> Inl e | Inr _ \<Rightarrow> Inr ())"

text \<open>Rule 1: a segment from the adapter to the connection.\<close>

definition ss_note_acked :: "net_db \<Rightarrow> ('k, 'a) adapter_ops \<Rightarrow> ('k, 'a) sponge \<Rightarrow> ('k, 'a) sponge \<times> (exn + unit)" where
  "ss_note_acked db A w =
    ss_with w (\<lambda>c.
      if fw_eof (ss_thread_data w) \<and> cn_bytes_in_flight c = 0 \<and> \<not> ss_fully_acked w
      then case ss_name_peer db A w of Inl e \<Rightarrow> (w, Inl e) | Inr _ \<Rightarrow> (w\<lparr>ss_fully_acked := True\<rparr>, Inr ())
      else (w, Inr ()))"

definition ss_rule1 :: "net_db \<Rightarrow> ('k, 'a) adapter_ops \<Rightarrow> ('k, 'a) sponge \<Rightarrow> ('k, 'a) sponge \<times> (exn + unit)" where
  "ss_rule1 db A w =
    (let (k, a, r) = at_read A (ss_kernel w) (ss_adapter w);
         w = w\<lparr>ss_kernel := k, ss_adapter := a\<rparr>
     in case r of
          Inl e \<Rightarrow> (w, Inl e)
        | Inr None \<Rightarrow> ss_note_acked db A w
        | Inr (Some seg) \<Rightarrow>
            ss_with w (\<lambda>c. ss_note_acked db A (w\<lparr>ss_tcp := Some (cn_segment_received c seg)\<rparr>)))"

text \<open>Rule 2: bytes from the owner to the connection.\<close>

definition ss_short_write :: exn where
  "ss_short_write = Runtime_Error ''TCPConnection::write() accepted less than advertised length''"

definition ss_rule2 ::
    "'k kernel \<Rightarrow> net_db \<Rightarrow> ('k, 'a) adapter_ops \<Rightarrow> ('k, 'a) sponge \<Rightarrow> ('k, 'a) sponge \<times> (exn + unit)" where
  "ss_rule2 K db A w =
    ss_with w (\<lambda>c.
      let (k, f, r) = fd_read K (ss_kernel w) (ss_thread_data w) (cn_remaining_outbound_capacity c);
          w = w\<lparr>ss_kernel := k, ss_thread_data := f\<rparr>
      in case r of
           Inl e \<Rightarrow> (w, Inl e)
         | Inr data \<Rightarrow>
             let (amount_written, c) = cn_write c data; w = w\<lparr>ss_tcp := Some c\<rparr>
             in if amount_written \<noteq> str_size data then (w, Inl ss_short_write)
                else if fw_eof f
                then let w = w\<lparr>ss_tcp := Some (cn_end_input_stream c), ss_outbound_shutdown := True\<rparr>
                     in (w, ss_name_peer db A w)
                else (w, Inr ()))"

definition ss_cancel2 :: "('k, 'a) sponge \<Rightarrow> ('k, 'a) sponge \<times> (exn + unit)" where
  "ss_cancel2 w =
    ss_with w (\<lambda>c. (w\<lparr>ss_tcp := Some (cn_end_input_stream c), ss_outbound_shutdown := True\<rparr>, Inr ()))"

text \<open>Rule 3: reassembled bytes to the owner; only what was written is taken off the stream.\<close>

definition cn_inbound_pop :: "tcp_connection \<Rightarrow> u64 \<Rightarrow> tcp_connection" where
  "cn_inbound_pop c n =
    (let r = cn_receiver c; ra = rx_reassembler r
     in c\<lparr>cn_receiver := r\<lparr>rx_reassembler := ra\<lparr>sr_output := bs_pop_output (sr_output ra) n\<rparr>\<rparr>\<rparr>)"

definition ss_rule3 ::
    "'k kernel \<Rightarrow> net_db \<Rightarrow> ('k, 'a) adapter_ops \<Rightarrow> ('k, 'a) sponge \<Rightarrow> ('k, 'a) sponge \<times> (exn + unit)" where
  "ss_rule3 K db A w =
    ss_with w (\<lambda>c.
      let inbound = cn_inbound_stream c;
          amount_to_write = min 65536 (bs_buffer_size inbound);
          buffer = bs_peek_output inbound amount_to_write;
          (k, f, r) = fd_write K (ss_kernel w) (ss_thread_data w) (BufferViewList buffer) False;
          w = w\<lparr>ss_kernel := k, ss_thread_data := f\<rparr>
      in case r of
           Inl e \<Rightarrow> (w, Inl e)
         | Inr bytes_written \<Rightarrow>
             let c = cn_inbound_pop c bytes_written; w = w\<lparr>ss_tcp := Some c\<rparr>
             in if bs_eof (cn_inbound_stream c) \<or> bs_error (cn_inbound_stream c)
                then case so_shutdown K k f SHUT_WR of
                       (k, f, Inl e) \<Rightarrow> (w\<lparr>ss_kernel := k, ss_thread_data := f\<rparr>, Inl e)
                     | (k, f, Inr _) \<Rightarrow>
                         let w = w\<lparr>ss_kernel := k, ss_thread_data := f, ss_inbound_shutdown := True\<rparr>
                         in (w, ss_name_peer db A w)
                else (w, Inr ()))"

text \<open>Rule 4: segments from the connection to the adapter, which may write into the segment at the front.\<close>

fun ss_send_queue ::
    "('k, 'a) adapter_ops \<Rightarrow> ('k, 'a) sponge \<Rightarrow> tcp_connection \<Rightarrow> tcp_segment list \<Rightarrow> ('k, 'a) sponge \<times> (exn + unit)" where
  "ss_send_queue A w c [] = (w\<lparr>ss_tcp := Some (c\<lparr>cn_segments_out := []\<rparr>)\<rparr>, Inr ())"
| "ss_send_queue A w c (seg # segs) =
    (case at_write A (ss_kernel w) (ss_adapter w) seg of
       (k, a, seg, Inl e) \<Rightarrow>
         (w\<lparr>ss_kernel := k, ss_adapter := a, ss_tcp := Some (c\<lparr>cn_segments_out := seg # segs\<rparr>)\<rparr>, Inl e)
     | (k, a, seg, Inr _) \<Rightarrow> ss_send_queue A (w\<lparr>ss_kernel := k, ss_adapter := a\<rparr>) c segs)"

definition ss_rule4 :: "('k, 'a) adapter_ops \<Rightarrow> ('k, 'a) sponge \<Rightarrow> ('k, 'a) sponge \<times> (exn + unit)" where
  "ss_rule4 A w = ss_with w (\<lambda>c. ss_send_queue A w c (cn_segments_out c))"

text \<open>\<open>_initialize_TCP\<close>: the connection (with its random initial sequence number) and the rules.\<close>

definition no_cancel :: "'w \<Rightarrow> 'w \<times> (exn + unit)" where
  "no_cancel w = (w, Inr ())"

definition ss_rules :: "'k kernel \<Rightarrow> net_db \<Rightarrow> ('k, 'a) adapter_ops \<Rightarrow> ('k, 'a) sponge rule list" where
  "ss_rules K db A =
    [\<lparr>ru_fd = \<lambda>w. at_fd A (ss_adapter w), ru_direction = Dir_In, ru_callback = ss_rule1 db A,
      ru_interest = \<lambda>w. ss_if w cn_active, ru_cancel = no_cancel\<rparr>,
     \<lparr>ru_fd = ss_thread_data, ru_direction = Dir_In, ru_callback = ss_rule2 K db A,
      ru_interest = \<lambda>w. ss_if w (\<lambda>c. cn_active c \<and> \<not> ss_outbound_shutdown w \<and> cn_remaining_outbound_capacity c > 0),
      ru_cancel = ss_cancel2\<rparr>,
     \<lparr>ru_fd = ss_thread_data, ru_direction = Dir_Out, ru_callback = ss_rule3 K db A,
      ru_interest = \<lambda>w. ss_if w (\<lambda>c. \<not> bs_buffer_empty (cn_inbound_stream c) \<or>
        (bs_eof (cn_inbound_stream c) \<or> bs_error (cn_inbound_stream c)) \<and> \<not> ss_inbound_shutdown w),
      ru_cancel = no_cancel\<rparr>,
     \<lparr>ru_fd = \<lambda>w. at_fd A (ss_adapter w), ru_direction = Dir_Out, ru_callback = ss_rule4 A,
      ru_interest = \<lambda>w. ss_if w (\<lambda>c. cn_segments_out c \<noteq> []), ru_cancel = no_cancel\<rparr>]"

definition ss_initialize_TCP ::
    "'k kernel \<Rightarrow> net_db \<Rightarrow> ('k, 'a) adapter_ops \<Rightarrow> ('k, 'a) sponge \<Rightarrow> ('k, 'a) sponge rule list \<Rightarrow> tcp_config \<Rightarrow> u32 \<Rightarrow>
     ('k, 'a) sponge \<times> ('k, 'a) sponge rule list" where
  "ss_initialize_TCP K db A w rules config random =
    (w\<lparr>ss_tcp := Some (TCPConnection config random)\<rparr>, fold (\<lambda>r rules. el_add_rule rules r) (ss_rules K db A) rules)"

section \<open>The loop\<close>

definition TCP_TICK_MS :: int where "TCP_TICK_MS = 10"

definition ss_poll :: "'k kernel \<Rightarrow> ('k, 'a) sponge poller" where
  "ss_poll K w fds t = (let (k, ret, revents) = sys_poll K (ss_kernel w) fds t in (w\<lparr>ss_kernel := k\<rparr>, ret, revents))"

text \<open>The time that has passed goes to the connection and to the adapter.\<close>

definition ss_tick ::
    "'k kernel \<Rightarrow> ('k, 'a) adapter_ops \<Rightarrow> u64 \<Rightarrow> ('k, 'a) sponge \<Rightarrow> ('k, 'a) sponge \<times> (exn + u64)" where
  "ss_tick K A base_time w =
    ss_with w (\<lambda>c.
      if \<not> cn_active c then (w, Inr base_time)
      else
        let (k, next_time) = sys_clock K (ss_kernel w); w = w\<lparr>ss_kernel := k\<rparr>
        in case cn_tick c (next_time - base_time) of
             Inl e \<Rightarrow> (w, Inl e)
           | Inr c \<Rightarrow>
               let w = w\<lparr>ss_tcp := Some c\<rparr>;
                   (k, a, r) = at_tick A (ss_kernel w) (ss_adapter w) (next_time - base_time)
               in (w\<lparr>ss_kernel := k, ss_adapter := a\<rparr>, case r of Inl e \<Rightarrow> Inl e | Inr _ \<Rightarrow> Inr next_time))"

text \<open>One iteration: \<open>Inr None\<close> leaves the loop, \<open>Inr (Some t)\<close> goes on with the new \<open>base_time\<close>.\<close>

definition ss_iteration ::
    "'k kernel \<Rightarrow> ('k, 'a) adapter_ops \<Rightarrow> ('k \<Rightarrow> bool) \<Rightarrow> u64 \<Rightarrow> ('k, 'a) sponge \<Rightarrow> ('k, 'a) sponge rule list \<Rightarrow>
     ('k, 'a) sponge \<times> ('k, 'a) sponge rule list \<times> (exn + u64 option)" where
  "ss_iteration K A abort base_time w rules =
    (case wait_next_event (ss_poll K) rules w TCP_TICK_MS of
       (w, rules, Inl e) \<Rightarrow> (w, rules, Inl e)
     | (w, rules, Inr ret) \<Rightarrow>
         if ret = Result_Exit \<or> abort (ss_kernel w) then (w, rules, Inr None)
         else case ss_tick K A base_time w of
                (w, Inl e) \<Rightarrow> (w, rules, Inl e)
              | (w, Inr t) \<Rightarrow> (w, rules, Inr (Some t)))"

text \<open>The loop may run forever, for which the value is \<open>None\<close>.\<close>

partial_function (option) ss_loop ::
    "'k kernel \<Rightarrow> ('k, 'a) adapter_ops \<Rightarrow> ('k \<Rightarrow> bool) \<Rightarrow> (('k, 'a) sponge \<Rightarrow> bool) \<Rightarrow> u64 \<Rightarrow> ('k, 'a) sponge \<Rightarrow>
     ('k, 'a) sponge rule list \<Rightarrow> (('k, 'a) sponge \<times> ('k, 'a) sponge rule list \<times> (exn + unit)) option" where
  "ss_loop K A abort condition base_time w rules =
    (if \<not> condition w then Some (w, rules, Inr ())
     else case ss_iteration K A abort base_time w rules of
            (w, rules, Inl e) \<Rightarrow> Some (w, rules, Inl e)
          | (w, rules, Inr None) \<Rightarrow> Some (w, rules, Inr ())
          | (w, rules, Inr (Some t)) \<Rightarrow> ss_loop K A abort condition t w rules)"

definition ss_tcp_loop ::
    "'k kernel \<Rightarrow> ('k, 'a) adapter_ops \<Rightarrow> ('k \<Rightarrow> bool) \<Rightarrow> (('k, 'a) sponge \<Rightarrow> bool) \<Rightarrow> ('k, 'a) sponge \<Rightarrow>
     ('k, 'a) sponge rule list \<Rightarrow> (('k, 'a) sponge \<times> ('k, 'a) sponge rule list \<times> (exn + unit)) option" where
  "ss_tcp_loop K A abort condition w rules =
    (let (k, base_time) = sys_clock K (ss_kernel w)
     in ss_loop K A abort condition base_time (w\<lparr>ss_kernel := k\<rparr>) rules)"

section \<open>Connecting, and the thread\<close>

definition ss_in_state :: "('k, 'a) sponge \<Rightarrow> tcp_official_state \<Rightarrow> bool" where
  "ss_in_state w s = ss_if w (\<lambda>c. ts_equal (cn_state c) (ts_of_official s))"

text \<open>
  Both calls end, when they return normally, with the start of the thread that runs \<open>_tcp_main\<close>.
\<close>

definition ss_connect ::
    "'k kernel \<Rightarrow> net_db \<Rightarrow> ('k, 'a) adapter_ops \<Rightarrow> ('k \<Rightarrow> bool) \<Rightarrow> ('k, 'a) sponge \<Rightarrow> ('k, 'a) sponge rule list \<Rightarrow>
     tcp_config \<Rightarrow> fd_adapter_config \<Rightarrow> u32 \<Rightarrow> (('k, 'a) sponge \<times> ('k, 'a) sponge rule list \<times> (exn + unit)) option" where
  "ss_connect K db A abort w rules c_tcp c_ad random =
    (if ss_tcp w \<noteq> None
     then Some (w, rules, Inl (Runtime_Error ''connect() with TCPConnection already initialized''))
     else
       let (w, rules) = ss_initialize_TCP K db A w rules c_tcp random;
           w = w\<lparr>ss_adapter := at_set_config A (ss_adapter w) c_ad\<rparr>
       in case ad_to_string db (fc_destination c_ad) of
            Inl e \<Rightarrow> Some (w, rules, Inl e)
          | Inr _ \<Rightarrow>
              let c = cn_connect (TCPConnection c_tcp random); w = w\<lparr>ss_tcp := Some c\<rparr>
              in if \<not> ss_in_state w SYN_SENT
                 then Some (w, rules, Inl (Runtime_Error (''After TCPConnection::connect(), state was '' @
                        ts_name (cn_state c) @ '' but expected '' @ ts_name (ts_of_official SYN_SENT))))
                 else case ss_tcp_loop K A abort (\<lambda>w. ss_in_state w SYN_SENT) w rules of
                        None \<Rightarrow> None
                      | Some (w, rules, Inl e) \<Rightarrow> Some (w, rules, Inl e)
                      | Some (w, rules, Inr _) \<Rightarrow>
                          (case ad_to_string db (fc_destination c_ad) of
                             Inl e \<Rightarrow> Some (w, rules, Inl e)
                           | Inr _ \<Rightarrow> Some (w, rules, Inr ())))"

definition ss_listen_and_accept ::
    "'k kernel \<Rightarrow> net_db \<Rightarrow> ('k, 'a) adapter_ops \<Rightarrow> ('k \<Rightarrow> bool) \<Rightarrow> ('k, 'a) sponge \<Rightarrow> ('k, 'a) sponge rule list \<Rightarrow>
     tcp_config \<Rightarrow> fd_adapter_config \<Rightarrow> u32 \<Rightarrow> (('k, 'a) sponge \<times> ('k, 'a) sponge rule list \<times> (exn + unit)) option" where
  "ss_listen_and_accept K db A abort w rules c_tcp c_ad random =
    (if ss_tcp w \<noteq> None
     then Some (w, rules, Inl (Runtime_Error ''listen_and_accept() with TCPConnection already initialized''))
     else
       let (w, rules) = ss_initialize_TCP K db A w rules c_tcp random;
           w = w\<lparr>ss_adapter := at_set_listening A (at_set_config A (ss_adapter w) c_ad) True\<rparr>
       in case ss_tcp_loop K A abort
                 (\<lambda>w. ss_in_state w LISTEN \<or> ss_in_state w SYN_RCVD \<or> ss_in_state w SYN_SENT) w rules of
            None \<Rightarrow> None
          | Some (w, rules, Inl e) \<Rightarrow> Some (w, rules, Inl e)
          | Some (w, rules, Inr _) \<Rightarrow> Some (w, rules, ss_name_peer db A w))"

text \<open>
  \<open>_tcp.reset()\<close> runs the destructor of the connection and drops it; the second component is the
  connection as the destructor leaves it, with whatever is still queued in it.
\<close>

definition ss_reset :: "('k, 'a) sponge \<Rightarrow> ('k, 'a) sponge \<times> tcp_connection option" where
  "ss_reset w = (w\<lparr>ss_tcp := None\<rparr>, map_option cn_destroy (ss_tcp w))"

text \<open>An exception of \<open>_tcp_main\<close> ends the process.\<close>

definition ss_tcp_main ::
    "'k kernel \<Rightarrow> ('k, 'a) adapter_ops \<Rightarrow> ('k \<Rightarrow> bool) \<Rightarrow> ('k, 'a) sponge \<Rightarrow> ('k, 'a) sponge rule list \<Rightarrow>
     (('k, 'a) sponge \<times> ('k, 'a) sponge rule list \<times> (exn + unit)) option" where
  "ss_tcp_main K A abort w rules =
    (if ss_tcp w = None then Some (w, rules, Inl (Runtime_Error ''no TCP''))
     else case ss_tcp_loop K A abort (\<lambda>_. True) w rules of
            None \<Rightarrow> None
          | Some (w, rules, Inl e) \<Rightarrow> Some (w, rules, Inl e)
          | Some (w, rules, Inr _) \<Rightarrow>
              (case so_shutdown K (ss_kernel w) (ss_fd w) SHUT_RDWR of
                 (k, f, Inl e) \<Rightarrow> Some (w\<lparr>ss_kernel := k, ss_fd := f\<rparr>, rules, Inl e)
               | (k, f, Inr _) \<Rightarrow> Some (fst (ss_reset (w\<lparr>ss_kernel := k, ss_fd := f\<rparr>)), rules, Inr ())))"

section \<open>CS144TCPSocket and FullStackSocket\<close>

definition private_config :: "net_db \<Rightarrow> string \<Rightarrow> u32 \<Rightarrow> address \<Rightarrow> exn + fd_adapter_config" where
  "private_config db local_ip random address =
    (case FdAdapterConfig db of
       Inl e \<Rightarrow> Inl e
     | Inr cfg \<Rightarrow>
         (case Address_host db local_ip (dec_string (unat (ucast random :: u16))) of
            Inl e \<Rightarrow> Inl e
          | Inr source \<Rightarrow> Inr (cfg\<lparr>fc_source := source, fc_destination := address\<rparr>)))"

definition LOCAL_TUN_IP_ADDRESS :: string where "LOCAL_TUN_IP_ADDRESS = ''169.254.144.9''"
definition LOCAL_TAP_IP_ADDRESS :: string where "LOCAL_TAP_IP_ADDRESS = ''169.254.10.9''"
definition LOCAL_TAP_NEXT_HOP_ADDRESS :: string where "LOCAL_TAP_NEXT_HOP_ADDRESS = ''169.254.10.1''"

text \<open>
  \<open>connect\<close> of both classes differs in the local address; \<open>port\<close> and \<open>isn\<close> are the random values drawn.
\<close>

definition ss_connect_from ::
    "string \<Rightarrow> 'k kernel \<Rightarrow> net_db \<Rightarrow> ('k, 'a) adapter_ops \<Rightarrow> ('k \<Rightarrow> bool) \<Rightarrow> ('k, 'a) sponge \<Rightarrow> ('k, 'a) sponge rule list \<Rightarrow>
     address \<Rightarrow> u32 \<Rightarrow> u32 \<Rightarrow> (('k, 'a) sponge \<times> ('k, 'a) sponge rule list \<times> (exn + unit)) option" where
  "ss_connect_from local_ip K db A abort w rules address port isn =
    (case private_config db local_ip port address of
       Inl e \<Rightarrow> Some (w, rules, Inl e)
     | Inr multiplexer_config \<Rightarrow>
         ss_connect K db A abort w rules (TCPConfig\<lparr>cfg_rt_timeout := 100\<rparr>) multiplexer_config isn)"

definition cs144_connect ::
    "'k kernel \<Rightarrow> net_db \<Rightarrow> ('k \<Rightarrow> bool) \<Rightarrow> ('k, sock_adapter) sponge \<Rightarrow> ('k, sock_adapter) sponge rule list \<Rightarrow> address \<Rightarrow>
     u32 \<Rightarrow> u32 \<Rightarrow> (('k, sock_adapter) sponge \<times> ('k, sock_adapter) sponge rule list \<times> (exn + unit)) option" where
  "cs144_connect K db = ss_connect_from LOCAL_TUN_IP_ADDRESS K db (tun_ops K db)"

definition full_stack_connect ::
    "'k kernel \<Rightarrow> net_db \<Rightarrow> ('k, 'a) adapter_ops \<Rightarrow> ('k \<Rightarrow> bool) \<Rightarrow> ('k, 'a) sponge \<Rightarrow> ('k, 'a) sponge rule list \<Rightarrow> address \<Rightarrow>
     u32 \<Rightarrow> u32 \<Rightarrow> (('k, 'a) sponge \<times> ('k, 'a) sponge rule list \<times> (exn + unit)) option" where
  "full_stack_connect = ss_connect_from LOCAL_TAP_IP_ADDRESS"

fun random_bytes :: "'k kernel \<Rightarrow> 'k \<Rightarrow> nat \<Rightarrow> 'k \<times> u8 list" where
  "random_bytes K k 0 = (k, [])"
| "random_bytes K k (Suc n) =
    (let (k, r) = sys_random K k; (k, bs) = random_bytes K k n in (k, ucast r # bs))"

definition random_private_ethernet_address :: "'k kernel \<Rightarrow> 'k \<Rightarrow> 'k \<times> u8 list" where
  "random_private_ethernet_address K k =
    (let (k, addr) = random_bytes K k 6;
         addr = addr[0 := addr ! 0 OR 0x02];
         addr = addr[0 := addr ! 0 AND 0xfe]
     in (k, addr))"

lemma ss_name_peer_throws: "ss_name_peer db A w \<noteq> Inl el_busy_wait"
  by (auto simp: ss_name_peer_def ad_to_string_def ad_ip_port_def stoi_def el_busy_wait_def Let_def
    split: sum.split prod.split if_split)

section \<open>The contract of an adapter\<close>

text \<open>
  A successful read is counted on the descriptor; nothing but the adapter's own descriptor is written;
  a segment that is written changes in its ports at most.
\<close>

locale segment_adapter =
  fixes A :: "('k, 'a) adapter_ops" and acc :: "'k \<Rightarrow> int \<Rightarrow> bytes"
  assumes read_serves: "at_read A k a = (k', a', Inr r) \<Longrightarrow>
      fw_read_count (at_fd A a') \<noteq> fw_read_count (at_fd A a)"
    and read_frame: "at_read A k a = (k', a', res) \<Longrightarrow>
      fw_fd (at_fd A a') = fw_fd (at_fd A a) \<and> (\<forall>fd. fd \<noteq> fw_fd (at_fd A a) \<longrightarrow> acc k' fd = acc k fd) \<and> res \<noteq> Inl el_busy_wait"
    and write_frame: "at_write A k a seg = (k', a', seg', res') \<Longrightarrow>
      fw_fd (at_fd A a') = fw_fd (at_fd A a) \<and> (\<forall>fd. fd \<noteq> fw_fd (at_fd A a) \<longrightarrow> acc k' fd = acc k fd) \<and> res' \<noteq> Inl el_busy_wait"
    and write_seg: "at_write A k a seg = (k', a', seg', res') \<Longrightarrow> \<exists>s d. seg' = seg_ports seg s d"
    and tick_frame: "at_tick A k a ms = (k', a', res') \<Longrightarrow>
      fw_fd (at_fd A a') = fw_fd (at_fd A a) \<and> (\<forall>fd. fd \<noteq> fw_fd (at_fd A a) \<longrightarrow> acc k' fd = acc k fd) \<and> res' \<noteq> Inl el_busy_wait"

text \<open>The UDP and the TUN adapter keep it.\<close>

definition kernel_datagrams :: "'k kernel \<Rightarrow> ('k \<Rightarrow> int \<Rightarrow> bytes) \<Rightarrow> bool" where
  "kernel_datagrams K acc \<longleftrightarrow> (\<forall>k fd n. acc (fst (sys_recvfrom K k fd n)) = acc k) \<and>
    (\<forall>k fd to iov fd'. fd' \<noteq> fd \<longrightarrow> acc (fst (sys_sendmsg K k fd to iov)) fd' = acc k fd')"

lemma kernel_datagramsD:
  assumes "kernel_datagrams K acc"
  shows "acc (fst (sys_recvfrom K k fd n)) = acc k" "fd' \<noteq> fd \<Longrightarrow> acc (fst (sys_sendmsg K k fd to iov)) fd' = acc k fd'"
  using assms by (simp_all add: kernel_datagrams_def)

lemma script_kernel_datagrams: "kernel_datagrams script_kernel sc_out"
  by (simp add: kernel_datagrams_def script_kernel_def split: list.split)

lemma so_recv_frame:
  assumes "so_recv K k f mtu = (k', f', r)"
  shows "fw_fd f' = fw_fd f" and "k' = fst (sys_recvfrom K k (fw_fd f) mtu)"
    and "r = Inr d \<Longrightarrow> fw_read_count f' = fw_read_count f + 1" and "r \<noteq> Inl el_busy_wait"
  using assms by (auto simp: so_recv_def Let_def el_busy_wait_def SystemCall_def Address_raw_def
    split: sum.splits prod.splits if_splits)

lemma so_sendto_frame:
  assumes "so_sendto K k f a payload = (k', f', r)"
  shows "fw_fd f' = fw_fd f" and "k' = fst (sys_sendmsg K k (fw_fd f) (Some (ad_storage a, ad_size a)) (bvl_as_iovecs payload))"
    and "r \<noteq> Inl el_busy_wait"
  using assms by (auto simp: so_sendto_def sendmsg_helper_def Let_def el_busy_wait_def SystemCall_def
    split: sum.splits prod.splits if_splits)

lemma fa_set_ports_frame:
  assumes "fa_set_ports db fa seg = (seg', r)"
  shows "\<exists>s d. seg' = seg_ports seg s d" and "r \<noteq> Inl el_busy_wait"
proof -
  have "seg = seg_ports seg (th_sport (seg_header seg)) (th_dport (seg_header seg))"
    "seg\<lparr>seg_header := (seg_header seg)\<lparr>th_sport := p\<rparr>\<rparr> = seg_ports seg p (th_dport (seg_header seg))" for p
    by (simp_all add: seg_ports_def)
  then show "\<exists>s d. seg' = seg_ports seg s d"
    using assms by (auto simp: fa_set_ports_def Let_def split: sum.splits) (auto simp: seg_ports_def)
  show "r \<noteq> Inl el_busy_wait"
    using assms by (auto simp: fa_set_ports_def ad_port_def ad_ip_port_def stoi_def el_busy_wait_def Let_def
      split: sum.splits prod.splits if_splits)
qed

lemma seg_serialize_throws: "seg_serialize seg x \<noteq> Inl el_busy_wait"
  by (auto simp: seg_serialize_def th_serialize_def el_busy_wait_def Let_def split: sum.split if_split)

lemma dg_serialize_throws: "dg_serialize d \<noteq> Inl el_busy_wait"
  by (auto simp: dg_serialize_def ih_serialize_def el_busy_wait_def Let_def split: sum.split if_split)

lemma ad_ipv4_numeric_throws: "ad_ipv4_numeric a \<noteq> Inl el_busy_wait"
  by (auto simp: ad_ipv4_numeric_def el_busy_wait_def Let_def split: if_split)

lemma udp_write_frame:
  assumes "udp_write db fa seg = (seg', r)"
  shows "\<exists>s d. seg' = seg_ports seg s d" and "r \<noteq> Inl el_busy_wait"
proof -
  obtain seg1 r1 where p: "fa_set_ports db fa seg = (seg1, r1)" by (metis surj_pair)
  have "seg' = seg1" using assms by (auto simp: udp_write_def p split: sum.splits)
  then show "\<exists>s d. seg' = seg_ports seg s d" using fa_set_ports_frame(1) [OF p] by simp
  show "r \<noteq> Inl el_busy_wait"
    using assms fa_set_ports_frame(2) [OF p] seg_serialize_throws [of seg1 0]
    by (auto simp: udp_write_def p split: sum.splits)
qed

lemma tun_write_frame:
  assumes "tun_write db fa seg = (seg', r)"
  shows "\<exists>s d. seg' = seg_ports seg s d" and "r \<noteq> Inl el_busy_wait"
proof -
  obtain seg1 r1 where p: "fa_set_ports db fa seg = (seg1, r1)" by (metis surj_pair)
  obtain r2 where w: "fa_wrap_tcp_in_ip db fa seg = (seg1, r2)" "r2 \<noteq> Inl el_busy_wait"
  proof -
    obtain seg2 r2 where w: "fa_wrap_tcp_in_ip db fa seg = (seg2, r2)" by (metis surj_pair)
    then have "seg2 = seg1" by (auto simp: fa_wrap_tcp_in_ip_def p Let_def split: sum.splits)
    moreover have "r2 \<noteq> Inl el_busy_wait"
      using w fa_set_ports_frame(2) [OF p] seg_serialize_throws ad_ipv4_numeric_throws
      by (auto simp: fa_wrap_tcp_in_ip_def p Let_def split: sum.splits)
    ultimately show thesis using that w by blast
  qed
  have "seg' = seg1" using assms by (auto simp: tun_write_def w split: sum.splits)
  then show "\<exists>s d. seg' = seg_ports seg s d" using fa_set_ports_frame(1) [OF p] by simp
  show "r \<noteq> Inl el_busy_wait"
    using assms w(2) dg_serialize_throws by (auto simp: tun_write_def w split: sum.splits)
qed

lemma udp_segment_adapter:
  assumes "kernel_datagrams K acc"
  shows "segment_adapter (udp_ops K db) acc"
proof
  fix k a k' a' r
  assume "at_read (udp_ops K db) k a = (k', a', Inr r)"
  then have "sa_read_udp K k a = (k', a', Inr r)" by (simp add: udp_ops_def sock_adapter_ops_def)
  then show "fw_read_count (at_fd (udp_ops K db) a') \<noteq> fw_read_count (at_fd (udp_ops K db) a)"
    by (auto simp: sa_read_udp_def udp_ops_def sock_adapter_ops_def split: prod.splits sum.splits dest!: so_recv_frame(3))
next
  fix k a k' a' res
  assume "at_read (udp_ops K db) k a = (k', a', res)"
  then have r: "sa_read_udp K k a = (k', a', res)" by (simp add: udp_ops_def sock_adapter_ops_def)
  obtain k1 f1 r1 where c: "so_recv K k (sa_fd a) 65536 = (k1, f1, r1)" by (metis surj_pair)
  have "k' = k1" "sa_fd a' = f1" "res \<noteq> Inl el_busy_wait"
    using r c so_recv_frame(4) [OF c] by (auto simp: sa_read_udp_def split: sum.splits prod.splits)
  then show "fw_fd (at_fd (udp_ops K db) a') = fw_fd (at_fd (udp_ops K db) a) \<and>
    (\<forall>fd. fd \<noteq> fw_fd (at_fd (udp_ops K db) a) \<longrightarrow> acc k' fd = acc k fd) \<and> res \<noteq> Inl el_busy_wait"
    using so_recv_frame(1,2) [OF c] kernel_datagramsD(1) [OF assms] by (simp add: udp_ops_def sock_adapter_ops_def)
next
  fix k a seg k' a' seg' res
  assume "at_write (udp_ops K db) k a seg = (k', a', seg', res)"
  then have w: "sa_write_udp K db k a seg = (k', a', seg', res)" by (simp add: udp_ops_def sock_adapter_ops_def)
  obtain seg1 r2 where u: "udp_write db (sa_base a) seg = (seg1, r2)" by (metis surj_pair)
  show "\<exists>s d. seg' = seg_ports seg s d"
    using w udp_write_frame(1) [OF u] by (auto simp: sa_write_udp_def u split: sum.splits prod.splits)
  show "fw_fd (at_fd (udp_ops K db) a') = fw_fd (at_fd (udp_ops K db) a) \<and>
    (\<forall>fd. fd \<noteq> fw_fd (at_fd (udp_ops K db) a) \<longrightarrow> acc k' fd = acc k fd) \<and> res \<noteq> Inl el_busy_wait"
  proof (cases r2)
    case (Inl e)
    then show ?thesis
      using w u udp_write_frame(2) [OF u] by (auto simp: sa_write_udp_def udp_ops_def sock_adapter_ops_def)
  next
    case (Inr x)
    obtain dst bl where x: "x = (dst, bl)" by (cases x)
    obtain k2 f2 r3 where s: "so_sendto K k (sa_fd a) dst (bvl_of_list bl) = (k2, f2, r3)" by (metis surj_pair)
    have "k' = k2" "sa_fd a' = f2" "res = r3" using w u Inr x s by (auto simp: sa_write_udp_def)
    then show ?thesis
      using so_sendto_frame [OF s] kernel_datagramsD(2) [OF assms] by (simp add: udp_ops_def sock_adapter_ops_def)
  qed
qed (simp add: udp_ops_def sock_adapter_ops_def)

lemma bvl_remove_prefix_error: "snd (bvl_remove_prefix vl n) \<noteq> Inl el_busy_wait"
  by (induction vl n rule: bvl_remove_prefix.induct) (auto simp: el_busy_wait_def)

lemma fd_write_loop_frame:
  assumes "kernel_writes K acc" and "fd_write_loop K k f buffer wa tot = (k', f', r)"
  shows "fw_fd f' = fw_fd f \<and> (\<forall>fd. fd \<noteq> fw_fd f \<longrightarrow> acc k' fd = acc k fd) \<and> r \<noteq> Inl el_busy_wait"
  using assms
proof (induction K k f buffer wa tot arbitrary: k' f' r rule: fd_write_loop.induct)
  case (1 K k f buffer wa tot)
  obtain k1 ret errno where c: "sys_writev K k (fw_fd f) (bvl_as_iovecs buffer) = (k1, ret, errno)" by (metis surj_pair)
  have fr: "\<forall>fd. fd \<noteq> fw_fd f \<longrightarrow> acc k1 fd = acc k fd" using kernel_writesD [OF "1.prems"(1) c] by auto
  have sc: "SystemCall ''writev'' (ret, errno) 0 \<noteq> Inl el_busy_wait" by (simp add: SystemCall_def el_busy_wait_def Let_def)
  obtain b1 r1 where b: "\<And>n. SystemCall ''writev'' (ret, errno) 0 = Inr n \<Longrightarrow> bvl_remove_prefix buffer (of_int n) = (b1, r1)"
    by (metis Inr_inject surj_pair)
  note eq = "1.prems"(2) [unfolded fd_write_loop.simps [of K k f buffer wa tot] c]
  show ?case
  proof (cases "SystemCall ''writev'' (ret, errno) 0")
    case (Inl e)
    then show ?thesis using eq fr sc by auto
  next
    case (Inr n)
    note b = b [OF Inr]
    have bt: "r1 \<noteq> Inl el_busy_wait" using bvl_remove_prefix_error [of buffer "of_int n"] b by simp
    consider "n = 0 \<and> bvl_size buffer \<noteq> 0 \<or> n > sint (bvl_size buffer)"
      | e where "\<not> (n = 0 \<and> bvl_size buffer \<noteq> 0)" "\<not> n > sint (bvl_size buffer)" "r1 = Inl e"
      | "\<not> (n = 0 \<and> bvl_size buffer \<noteq> 0)" "\<not> n > sint (bvl_size buffer)" "r1 = Inr ()"
      by (cases r1) auto
    then show ?thesis
    proof cases
      case 1
      then show ?thesis using eq Inr fr by (auto simp: el_busy_wait_def split: if_splits)
    next
      case (2 e)
      then have "(k', f', r) = (k1, fd_register_write f, Inl e)" using eq Inr b by (auto simp: Let_def split: if_splits)
      then show ?thesis using 2 fr bt by simp
    next
      case 3
      have IH: "fd_write_loop K k1 (fd_register_write f) b1 wa (tot + of_int n) = (k', f', r) \<Longrightarrow> wa \<and> bvl_size b1 \<noteq> 0 \<Longrightarrow> ?thesis"
        using "1.IH" [OF c [symmetric] refl Inr 3(1,2) refl _ refl refl _ "1.prems"(1)] b 3(3) fr by simp
      show ?thesis
      proof (cases "wa \<and> bvl_size b1 \<noteq> 0")
        case True
        then show ?thesis using IH eq Inr b 3 by (simp add: Let_def)
      next
        case False
        then have "(k', f', r) = (k1, fd_register_write f, Inr (tot + of_int n))"
          using eq Inr b 3 by (auto simp: Let_def)
        then show ?thesis using fr by simp
      qed
    qed
  qed
qed

lemma tun_read_throws:
  assumes "tun_read db fa data = (fa', r)"
  shows "r \<noteq> Inl el_busy_wait"
proof -
  have port: "ad_port db a \<noteq> Inl el_busy_wait" for a
    by (auto simp: ad_port_def ad_ip_port_def stoi_def el_busy_wait_def Let_def split: sum.split prod.split if_split)
  have ip: "Address_ip db s p \<noteq> Inl el_busy_wait" for s p
    by (auto simp: Address_ip_def Address_node_def Address_raw_def el_busy_wait_def Let_def split: sum.split list.split prod.split if_split)
  have acc: "snd (fa_accept db fa h seg) \<noteq> Inl el_busy_wait" for fa h seg
    using port ip by (auto simp: fa_accept_def Let_def split: sum.split)
  have buf: "bl_to_buffer bl \<noteq> Inl el_busy_wait" for bl
    by (auto simp: bl_to_buffer_def el_busy_wait_def split: if_split list.split)
  have oth: "fa_other_host fa n a \<noteq> Inl el_busy_wait" for fa n a
    using ad_ipv4_numeric_throws by (auto simp: fa_other_host_def split: sum.split)
  have "snd (fa_unwrap_tcp_in_ip db fa d) \<noteq> Inl el_busy_wait" for d
    using port oth buf acc by (auto simp: fa_unwrap_tcp_in_ip_def Let_def split: sum.split prod.split bool.split)
  then show ?thesis using assms by (auto simp: tun_read_def split: prod.splits if_splits) (metis snd_conv)
qed

lemma tun_segment_adapter:
  assumes "kernel_accounts K acc"
  shows "segment_adapter (tun_ops K db) acc"
proof
  fix k a k' a' r
  assume "at_read (tun_ops K db) k a = (k', a', Inr r)"
  then have "sa_read_tun K db k a = (k', a', Inr r)" by (simp add: tun_ops_def sock_adapter_ops_def)
  then show "fw_read_count (at_fd (tun_ops K db) a') \<noteq> fw_read_count (at_fd (tun_ops K db) a)"
    by (auto simp: sa_read_tun_def tun_ops_def sock_adapter_ops_def split: prod.splits sum.splits dest!: fd_read_frame(3))
next
  fix k a k' a' res
  assume "at_read (tun_ops K db) k a = (k', a', res)"
  then have r: "sa_read_tun K db k a = (k', a', res)" by (simp add: tun_ops_def sock_adapter_ops_def)
  obtain k1 f1 r1 where c: "fd_read K k (sa_fd a) (- 1) = (k1, f1, r1)" by (metis surj_pair)
  have "k' = k1" "sa_fd a' = f1" "res \<noteq> Inl el_busy_wait"
    using r c fd_read_frame(4) [OF c] tun_read_throws by (auto simp: sa_read_tun_def split: sum.splits prod.splits)
  then show "fw_fd (at_fd (tun_ops K db) a') = fw_fd (at_fd (tun_ops K db) a) \<and>
    (\<forall>fd. fd \<noteq> fw_fd (at_fd (tun_ops K db) a) \<longrightarrow> acc k' fd = acc k fd) \<and> res \<noteq> Inl el_busy_wait"
    using fd_read_frame(1,2) [OF c] kernel_accountsD(2) [OF assms] by (simp add: tun_ops_def sock_adapter_ops_def)
next
  fix k a seg k' a' seg' res
  assume "at_write (tun_ops K db) k a seg = (k', a', seg', res)"
  then have w: "sa_write_tun K db k a seg = (k', a', seg', res)" by (simp add: tun_ops_def sock_adapter_ops_def)
  obtain seg1 r2 where u: "tun_write db (sa_base a) seg = (seg1, r2)" by (metis surj_pair)
  show "\<exists>s d. seg' = seg_ports seg s d"
    using w tun_write_frame(1) [OF u] by (auto simp: sa_write_tun_def u split: sum.splits prod.splits)
  show "fw_fd (at_fd (tun_ops K db) a') = fw_fd (at_fd (tun_ops K db) a) \<and>
    (\<forall>fd. fd \<noteq> fw_fd (at_fd (tun_ops K db) a) \<longrightarrow> acc k' fd = acc k fd) \<and> res \<noteq> Inl el_busy_wait"
  proof (cases r2)
    case (Inl e)
    then show ?thesis
      using w u tun_write_frame(2) [OF u] by (auto simp: sa_write_tun_def tun_ops_def sock_adapter_ops_def)
  next
    case (Inr bl)
    obtain k2 f2 r3 where s: "fd_write K k (sa_fd a) (bvl_of_list bl) True = (k2, f2, r3)" by (metis surj_pair)
    have "k' = k2" "sa_fd a' = f2" "res = Inl e \<longrightarrow> r3 = Inl e" for e
      using w u Inr s by (auto simp: sa_write_tun_def split: sum.splits)
    then show ?thesis
      using fd_write_loop_frame [OF kernel_accountsD(1) [OF assms] s [unfolded fd_write_def]]
      by (auto simp: tun_ops_def sock_adapter_ops_def)
  qed
qed (simp add: tun_ops_def sock_adapter_ops_def)

interpretation udp_adapter: segment_adapter "udp_ops script_kernel numeric_db" sc_out
  by (rule udp_segment_adapter [OF script_kernel_datagrams])

interpretation tun_adapter: segment_adapter "tun_ops script_kernel numeric_db" sc_out
  by (rule tun_segment_adapter [OF script_kernel_accounts])

section \<open>The connection under the rules\<close>

text \<open>
  The runs of a connection that starts as \<open>c0\<close>: calls of its public operations, where \<open>W\<close> is what it has
  accepted to send and \<open>R\<close> what has been taken off its inbound stream.
\<close>

inductive ss_run :: "tcp_connection \<Rightarrow> bytes \<Rightarrow> bytes \<Rightarrow> tcp_connection \<Rightarrow> bool" for c0 where
  start: "ss_run c0 [] [] c0"
| acting: "ss_run c0 W R c \<Longrightarrow> cn_local W c W' c' out \<Longrightarrow> ss_run c0 W' (R @ out) c'"
| receiving: "ss_run c0 W R c \<Longrightarrow> ss_run c0 W R (cn_segment_received c seg)"
| taking: "ss_run c0 W R c \<Longrightarrow> ss_run c0 W (R @ bs_peek_output (cn_inbound_stream c) n) (cn_inbound_pop c n)"
| sending: "ss_run c0 W R c \<Longrightarrow> cn_segments_out c = segs @ segs' \<Longrightarrow> ss_run c0 W R (c\<lparr>cn_segments_out := segs'\<rparr>)"
| addressing: "ss_run c0 W R c \<Longrightarrow> cn_segments_out c = seg # segs \<Longrightarrow>
    ss_run c0 W R (c\<lparr>cn_segments_out := seg_ports seg s d # segs\<rparr>)"

text \<open>
  The invariant of the socket: its connection is the result of such a run, and what the kernel has accepted
  for the owner (after \<open>R0\<close>) is exactly what was taken off the inbound stream.
\<close>

definition ss_inv ::
    "('k, 'a) adapter_ops \<Rightarrow> ('k \<Rightarrow> int \<Rightarrow> bytes) \<Rightarrow> tcp_connection \<Rightarrow> bytes \<Rightarrow> ('k, 'a) sponge \<Rightarrow> bool" where
  "ss_inv A acc c0 R0 w \<longleftrightarrow> (\<exists>c W R. ss_tcp w = Some c \<and> ss_run c0 W R c \<and>
     acc (ss_kernel w) (fw_fd (ss_thread_data w)) = R0 @ R \<and> fw_fd (at_fd A (ss_adapter w)) \<noteq> fw_fd (ss_thread_data w))"

lemma ss_invE:
  assumes "ss_inv A acc c0 R0 w"
  obtains c W R where "ss_tcp w = Some c" "ss_run c0 W R c" "acc (ss_kernel w) (fw_fd (ss_thread_data w)) = R0 @ R"
    "fw_fd (at_fd A (ss_adapter w)) \<noteq> fw_fd (ss_thread_data w)"
  using assms by (auto simp: ss_inv_def)

lemma ss_runs:
  assumes "ss_run c0 W R c"
  shows "cn_write c data = (n, c') \<Longrightarrow> ss_run c0 (W @ take (unat n) data) R c'"
    and "ss_run c0 W R (cn_end_input_stream c)" and "cn_tick c ms = Inr c' \<Longrightarrow> ss_run c0 W R c'"
  using ss_run.acting [OF assms cn_local.writing] ss_run.acting [OF assms cn_local.ending]
    ss_run.acting [OF assms cn_local.ticking] by simp_all

lemma ss_rule2_read:
  assumes "ss_tcp w = Some c" and "cn_write c data = (n, c')"
    and "fd_read K (ss_kernel w) (ss_thread_data w) (cn_remaining_outbound_capacity c) = (k, f, Inr data)"
  defines "w1 \<equiv> w\<lparr>ss_kernel := k, ss_thread_data := f, ss_tcp := Some c'\<rparr>"
    and "w2 \<equiv> w\<lparr>ss_kernel := k, ss_thread_data := f, ss_tcp := Some (cn_end_input_stream c'), ss_outbound_shutdown := True\<rparr>"
  shows "ss_rule2 K db A w = (if n \<noteq> str_size data then (w1, Inl ss_short_write)
    else if fw_eof f then (w2, ss_name_peer db A w2) else (w1, Inr ()))"
  using assms(1-3) by (simp add: ss_rule2_def ss_with_def Let_def w1_def w2_def)

context segment_adapter
begin

lemma note_acked_keeps:
  assumes "ss_inv A acc c0 R0 w" and "ss_note_acked db A w = (w', r)"
  shows "ss_inv A acc c0 R0 w'" and "r \<noteq> Inl el_busy_wait" and "ss_adapter w' = ss_adapter w"
  using assms ss_name_peer_throws [of db A w]
  by (auto simp: ss_note_acked_def ss_with_def ss_inv_def split: sum.splits if_splits)

lemma rule1_keeps:
  assumes "ss_inv A acc c0 R0 w" and "ss_rule1 db A w = (w', r)"
  shows "ss_inv A acc c0 R0 w'" and "r \<noteq> Inl el_busy_wait"
    and "r = Inr () \<Longrightarrow> fw_read_count (at_fd A (ss_adapter w')) \<noteq> fw_read_count (at_fd A (ss_adapter w))"
proof -
  obtain c W R where i: "ss_tcp w = Some c" "ss_run c0 W R c" "acc (ss_kernel w) (fw_fd (ss_thread_data w)) = R0 @ R"
    "fw_fd (at_fd A (ss_adapter w)) \<noteq> fw_fd (ss_thread_data w)" using assms(1) by (rule ss_invE)
  obtain k a s where d: "at_read A (ss_kernel w) (ss_adapter w) = (k, a, s)" by (metis surj_pair)
  let ?w = "w\<lparr>ss_kernel := k, ss_adapter := a\<rparr>"
  have inv: "ss_inv A acc c0 R0 ?w" "ss_inv A acc c0 R0 (?w\<lparr>ss_tcp := Some (cn_segment_received c seg)\<rparr>)" for seg
    using i read_frame [OF d] ss_run.receiving [OF i(2)] by (fastforce simp: ss_inv_def)+
  have "ss_inv A acc c0 R0 w' \<and> r \<noteq> Inl el_busy_wait \<and>
    (r = Inr () \<longrightarrow> fw_read_count (at_fd A (ss_adapter w')) \<noteq> fw_read_count (at_fd A (ss_adapter w)))"
  proof (cases s)
    case (Inl e)
    then have "(w', r) = (?w, Inl e)" using assms(2) d by (simp add: ss_rule1_def Let_def)
    then show ?thesis using inv(1) read_frame [OF d] Inl by auto
  next
    case (Inr x)
    obtain w1 where w1: "ss_inv A acc c0 R0 w1" "ss_adapter w1 = a" "ss_note_acked db A w1 = (w', r)"
    proof (cases x)
      case None
      then show thesis using that [of ?w] inv(1) assms(2) d Inr by (simp add: ss_rule1_def Let_def)
    next
      case (Some seg)
      then show thesis
        using that [of "?w\<lparr>ss_tcp := Some (cn_segment_received c seg)\<rparr>"] inv(2) assms(2) d Inr i(1)
        by (simp add: ss_rule1_def ss_with_def Let_def)
    qed
    show ?thesis using note_acked_keeps [OF w1(1,3)] w1(2) read_serves d Inr by auto
  qed
  then show "ss_inv A acc c0 R0 w'" "r \<noteq> Inl el_busy_wait"
    "r = Inr () \<Longrightarrow> fw_read_count (at_fd A (ss_adapter w')) \<noteq> fw_read_count (at_fd A (ss_adapter w))" by simp_all
qed

lemma rule2_keeps:
  assumes "kernel_accounts K acc" and "ss_inv A acc c0 R0 w" and "ss_rule2 K db A w = (w', r)"
  shows "ss_inv A acc c0 R0 w'" and "r \<noteq> Inl el_busy_wait"
    and "r = Inr () \<Longrightarrow> fw_read_count (ss_thread_data w') \<noteq> fw_read_count (ss_thread_data w)"
proof -
  obtain c W R where i: "ss_tcp w = Some c" "ss_run c0 W R c" "acc (ss_kernel w) (fw_fd (ss_thread_data w)) = R0 @ R"
    "fw_fd (at_fd A (ss_adapter w)) \<noteq> fw_fd (ss_thread_data w)" using assms(2) by (rule ss_invE)
  obtain k f s where d: "fd_read K (ss_kernel w) (ss_thread_data w) (cn_remaining_outbound_capacity c) = (k, f, s)"
    by (metis surj_pair)
  let ?w = "w\<lparr>ss_kernel := k, ss_thread_data := f\<rparr>"
  have inv: "ss_run c0 W' R c' \<Longrightarrow> ss_inv A acc c0 R0 (?w\<lparr>ss_tcp := Some c'\<rparr>)"
    "ss_run c0 W' R c' \<Longrightarrow> ss_inv A acc c0 R0 (?w\<lparr>ss_tcp := Some c', ss_outbound_shutdown := True\<rparr>)" for W' c'
    using i(3,4) fd_read_frame(1,2) [OF d] kernel_accountsD(2) [OF assms(1)] by (auto simp: ss_inv_def)
  have "?w\<lparr>ss_tcp := Some c\<rparr> = ?w" using i(1) by simp
  then have inv0: "ss_inv A acc c0 R0 ?w" using inv(1) [OF i(2)] by simp
  have "ss_inv A acc c0 R0 w' \<and> r \<noteq> Inl el_busy_wait \<and>
    (r = Inr () \<longrightarrow> fw_read_count (ss_thread_data w') \<noteq> fw_read_count (ss_thread_data w))"
  proof (cases s)
    case (Inl e)
    then have "(w', r) = (?w, Inl e)" using assms(3) d i(1) by (simp add: ss_rule2_def ss_with_def Let_def)
    then show ?thesis using inv0 fd_read_frame(4) [OF d] Inl by auto
  next
    case (Inr data)
    obtain n c1 where wr: "cn_write c data = (n, c1)" by (metis surj_pair)
    have run: "ss_run c0 (W @ take (unat n) data) R c1" by (rule ss_runs(1) [OF i(2) wr])
    let ?w1 = "?w\<lparr>ss_tcp := Some c1\<rparr>"
    let ?w2 = "?w\<lparr>ss_tcp := Some (cn_end_input_stream c1), ss_outbound_shutdown := True\<rparr>"
    have "(w', r) = (if n \<noteq> str_size data then (?w1, Inl ss_short_write)
        else if fw_eof f then (?w2, ss_name_peer db A ?w2) else (?w1, Inr ()))"
      unfolding assms(3) [symmetric] by (rule ss_rule2_read [OF i(1) wr d [unfolded Inr]])
    moreover have "ss_short_write \<noteq> el_busy_wait" by (simp add: ss_short_write_def el_busy_wait_def)
    ultimately show ?thesis
      using inv(1) [OF run] inv(2) [OF ss_runs(2) [OF run]] ss_name_peer_throws [of db A ?w2] fd_read_frame(3) [OF d] Inr
      by (auto split: if_splits)
  qed
  then show "ss_inv A acc c0 R0 w'" "r \<noteq> Inl el_busy_wait"
    "r = Inr () \<Longrightarrow> fw_read_count (ss_thread_data w') \<noteq> fw_read_count (ss_thread_data w)" by simp_all
qed

lemma cancel2_keeps:
  assumes "ss_inv A acc c0 R0 w" and "ss_cancel2 w = (w', r)"
  shows "ss_inv A acc c0 R0 w'" and "r = Inr ()"
  using assms ss_runs(2) by (fastforce simp: ss_inv_def ss_cancel2_def ss_with_def)+

lemma rule3_keeps:
  assumes "kernel_accounts K acc" and "ss_inv A acc c0 R0 w" and "ss_rule3 K db A w = (w', r)"
  shows "ss_inv A acc c0 R0 w'" and "r \<noteq> Inl el_busy_wait"
    and "r = Inr () \<Longrightarrow> fw_write_count (ss_thread_data w') \<noteq> fw_write_count (ss_thread_data w)"
proof -
  obtain c W R where i: "ss_tcp w = Some c" "ss_run c0 W R c" "acc (ss_kernel w) (fw_fd (ss_thread_data w)) = R0 @ R"
    "fw_fd (at_fd A (ss_adapter w)) \<noteq> fw_fd (ss_thread_data w)" using assms(2) by (rule ss_invE)
  let ?b = "bs_peek_output (cn_inbound_stream c) (min 65536 (bs_buffer_size (cn_inbound_stream c)))"
  let ?td = "ss_thread_data w"
  have len: "length ?b \<le> 65536" by (rule peek_bound)
  then have ok: "str_ok ?b" by (simp add: str_ok_def)
  have "ss_inv A acc c0 R0 w' \<and> r \<noteq> Inl el_busy_wait \<and>
    (r = Inr () \<longrightarrow> fw_write_count (ss_thread_data w') \<noteq> fw_write_count ?td)"
  proof (cases rule: fd_write_once [OF kernel_accountsD(1) [OF assms(1)] ok, where k = "ss_kernel w" and f = ?td, case_names failed wrote])
    case (failed k errno)
    then have "(w', r) = (w\<lparr>ss_kernel := k\<rparr>, Inl (System_Error ''writev'' errno))"
      using assms(3) i(1) by (simp add: ss_rule3_def ss_with_def BufferViewList_def Let_def)
    then show ?thesis using i failed(1) by (auto simp: ss_inv_def el_busy_wait_def)
  next
    case (wrote k m)
    let ?c = "cn_inbound_pop c (of_nat m)" and ?f = "fd_register_write ?td"
    let ?w1 = "w\<lparr>ss_kernel := k, ss_thread_data := ?f, ss_tcp := Some ?c\<rparr>"
    have "take m ?b = bs_peek_output (cn_inbound_stream c) (of_nat m)" by (rule peek_take [OF wrote(1)])
    then have run: "ss_run c0 W (R @ take m ?b) ?c" using ss_run.taking [OF i(2), of "of_nat m"] by simp
    obtain k2 f2 r2 where s: "so_shutdown K k ?f SHUT_WR = (k2, f2, r2)" by (metis surj_pair)
    let ?w2 = "?w1\<lparr>ss_kernel := k2, ss_thread_data := f2\<rparr>"
    let ?w3 = "?w2\<lparr>ss_inbound_shutdown := True\<rparr>"
    have "(w', r) = (if bs_eof (cn_inbound_stream ?c) \<or> bs_error (cn_inbound_stream ?c)
        then case r2 of Inl e \<Rightarrow> (?w2, Inl e) | Inr _ \<Rightarrow> (?w3, ss_name_peer db A ?w3) else (?w1, Inr ()))"
      using assms(3) i(1) wrote(3) s by (auto simp: ss_rule3_def ss_with_def BufferViewList_def Let_def split: sum.split)
    moreover have "ss_inv A acc c0 R0 ?w1" "ss_inv A acc c0 R0 ?w2" "ss_inv A acc c0 R0 ?w3"
      using i(3,4) run wrote(2) so_shutdown_frame(1,2) [OF s] kernel_accountsD(3) [OF assms(1)]
      by (auto simp: ss_inv_def)
    moreover have "fw_write_count f2 = fw_write_count ?td + 2" if "r2 = Inr ()"
      using so_shutdown_frame(3) [OF s refl that] by simp
    ultimately show ?thesis
      using so_shutdown_frame(4) [OF s] ss_name_peer_throws [of db A ?w3] by (auto split: if_splits sum.splits)
  qed
  then show "ss_inv A acc c0 R0 w'" "r \<noteq> Inl el_busy_wait"
    "r = Inr () \<Longrightarrow> fw_write_count (ss_thread_data w') \<noteq> fw_write_count ?td" by simp_all
qed

lemma send_queue_keeps:
  assumes "ss_run c0 W R c" and "cn_segments_out c = pre @ segs" and "ss_send_queue A w c segs = (w', r)"
    and "acc (ss_kernel w) (fw_fd (ss_thread_data w)) = R0 @ R" and "fw_fd (at_fd A (ss_adapter w)) \<noteq> fw_fd (ss_thread_data w)"
  shows "ss_inv A acc c0 R0 w' \<and> r \<noteq> Inl el_busy_wait \<and> (r = Inr () \<longrightarrow> ss_tcp w' = Some (c\<lparr>cn_segments_out := []\<rparr>))"
  using assms(2-5)
proof (induction segs arbitrary: w pre)
  case Nil
  then show ?case using ss_run.sending [OF assms(1), of pre "[]"] by (auto simp: ss_inv_def)
next
  case (Cons seg segs)
  obtain k a seg' s where d: "at_write A (ss_kernel w) (ss_adapter w) seg = (k, a, seg', s)" by (metis surj_pair)
  note fr = write_frame [OF d]
  show ?case
  proof (cases s)
    case (Inl e)
    obtain p q where seg': "seg' = seg_ports seg p q" using write_seg [OF d] by blast
    have "ss_run c0 W R (c\<lparr>cn_segments_out := seg # segs\<rparr>)" by (rule ss_run.sending [OF assms(1) Cons.prems(1)])
    then have "ss_run c0 W R (c\<lparr>cn_segments_out := seg # segs\<rparr>\<lparr>cn_segments_out := seg' # segs\<rparr>)"
      unfolding seg' by (rule ss_run.addressing) simp
    then show ?thesis using Cons.prems(2-4) d Inl fr by (auto simp: ss_inv_def)
  next
    case (Inr u)
    then show ?thesis
      using Cons.IH [of "pre @ [seg]" "w\<lparr>ss_kernel := k, ss_adapter := a\<rparr>"] Cons.prems d fr by simp
  qed
qed

lemma rule4_keeps:
  assumes "ss_inv A acc c0 R0 w" and "ss_rule4 A w = (w', r)"
  shows "ss_inv A acc c0 R0 w'" and "r \<noteq> Inl el_busy_wait"
    and "r = Inr () \<Longrightarrow> \<not> ss_if w' (\<lambda>c. cn_segments_out c \<noteq> [])"
proof -
  obtain c W R where i: "ss_tcp w = Some c" "ss_run c0 W R c" "acc (ss_kernel w) (fw_fd (ss_thread_data w)) = R0 @ R"
    "fw_fd (at_fd A (ss_adapter w)) \<noteq> fw_fd (ss_thread_data w)" using assms(1) by (rule ss_invE)
  have "ss_send_queue A w c (cn_segments_out c) = (w', r)" using assms(2) i(1) by (simp add: ss_rule4_def ss_with_def)
  from send_queue_keeps [OF i(2) _ this i(3,4), of "[]"]
  show "ss_inv A acc c0 R0 w'" "r \<noteq> Inl el_busy_wait" "r = Inr () \<Longrightarrow> \<not> ss_if w' (\<lambda>c. cn_segments_out c \<noteq> [])"
    by (auto simp: ss_if_def)
qed

end

section \<open>Whole rounds\<close>

locale sponge_host = segment_adapter A acc
  for A :: "('k, 'a) adapter_ops" and acc :: "'k \<Rightarrow> int \<Rightarrow> bytes" +
  fixes K :: "'k kernel" and db :: net_db and c0 :: tcp_connection and R0 :: bytes
  assumes kernel: "kernel_accounts K acc"

text \<open>The four rules keep the contract of the event loop.\<close>

sublocale sponge_host \<subseteq> rounds: event_handlers
  "ss_rules K db A" "ss_inv A acc c0 R0" "\<lambda>e. e \<noteq> el_busy_wait" "ss_poll K"
proof
  fix r :: "('k, 'a) sponge rule" and w w' res
  assume r: "r \<in> set (ss_rules K db A)" and i: "ss_inv A acc c0 R0 w" and c: "ru_callback r w = (w', res)"
  show "ss_inv A acc c0 R0 w'"
    using r c rule1_keeps(1) [OF i] rule2_keeps(1) [OF kernel i] rule3_keeps(1) [OF kernel i] rule4_keeps(1) [OF i]
    by (auto simp: ss_rules_def)
next
  fix r :: "('k, 'a) sponge rule" and w w' e
  assume r: "r \<in> set (ss_rules K db A)" and i: "ss_inv A acc c0 R0 w" and c: "ru_callback r w = (w', Inl e)"
  show "e \<noteq> el_busy_wait"
    using r c rule1_keeps(2) [OF i, of db w' "Inl e"] rule2_keeps(2) [OF kernel i, of db w' "Inl e"]
      rule3_keeps(2) [OF kernel i, of db w' "Inl e"] rule4_keeps(2) [OF i, of w' "Inl e"]
    by (auto simp: ss_rules_def)
next
  fix r :: "('k, 'a) sponge rule" and w w'
  assume r: "r \<in> set (ss_rules K db A)" and i: "ss_inv A acc c0 R0 w" and c: "ru_callback r w = (w', Inr ())"
  show "ru_service_count r w \<noteq> ru_service_count r w' \<or> \<not> ru_interest r w'"
    using r c rule1_keeps(3) [OF i, of db w' "Inr ()"] rule2_keeps(3) [OF kernel i, of db w' "Inr ()"]
      rule3_keeps(3) [OF kernel i, of db w' "Inr ()"] rule4_keeps(3) [OF i, of w' "Inr ()"]
    by (auto simp: ss_rules_def ru_service_count_def)
next
  fix r :: "('k, 'a) sponge rule" and w w' res
  assume "r \<in> set (ss_rules K db A)" and "ss_inv A acc c0 R0 w" and "ru_cancel r w = (w', res)"
  then show "ss_inv A acc c0 R0 w'" using cancel2_keeps(1) by (auto simp: ss_rules_def no_cancel_def)
next
  fix r :: "('k, 'a) sponge rule" and w w' e
  assume "r \<in> set (ss_rules K db A)" and "ss_inv A acc c0 R0 w" and "ru_cancel r w = (w', Inl e)"
  then show "e \<noteq> el_busy_wait" using cancel2_keeps(2) by (fastforce simp: ss_rules_def no_cancel_def)
next
  fix w w' :: "('k, 'a) sponge" and fds t ret revents
  assume "ss_inv A acc c0 R0 w" and "ss_poll K w fds t = (w', ret, revents)"
  then show "ss_inv A acc c0 R0 w'"
    using kernel_accountsD(4) [OF kernel, of "ss_kernel w" fds t] by (auto simp: ss_inv_def ss_poll_def split: prod.splits)
qed

lemma cn_tick_throws: "cn_tick c ms \<noteq> Inl el_busy_wait"
  by (auto simp: cn_tick_def tx_tick_def el_busy_wait_def Let_def split: sum.split list.split if_split)

context sponge_host
begin

lemma tick_keeps:
  assumes "ss_inv A acc c0 R0 w" and "ss_tick K A t w = (w', r)"
  shows "ss_inv A acc c0 R0 w' \<and> r \<noteq> Inl el_busy_wait"
proof -
  obtain c W R where i: "ss_tcp w = Some c" "ss_run c0 W R c" "acc (ss_kernel w) (fw_fd (ss_thread_data w)) = R0 @ R"
    "fw_fd (at_fd A (ss_adapter w)) \<noteq> fw_fd (ss_thread_data w)" using assms(1) by (rule ss_invE)
  obtain k now where k: "sys_clock K (ss_kernel w) = (k, now)" by (metis surj_pair)
  have acc: "acc k = acc (ss_kernel w)" using kernel_accountsD(5) [OF kernel, of "ss_kernel w"] k by simp
  consider "\<not> cn_active c" | e where "cn_active c" "cn_tick c (now - t) = Inl e" | c' where "cn_active c" "cn_tick c (now - t) = Inr c'"
    by (cases "cn_tick c (now - t)") auto
  then show ?thesis
  proof cases
    case 1
    then show ?thesis using assms i(1) by (auto simp: ss_tick_def ss_with_def)
  next
    case 2
    then have "(w', r) = (w\<lparr>ss_kernel := k\<rparr>, Inl e)" using assms(2) i(1) k by (simp add: ss_tick_def ss_with_def Let_def)
    then show ?thesis using i acc 2(2) cn_tick_throws by (auto simp: ss_inv_def)
  next
    case (3 c')
    obtain k' a r' where d: "at_tick A k (ss_adapter w) (now - t) = (k', a, r')" by (metis surj_pair)
    have "(w', r) = (w\<lparr>ss_tcp := Some c', ss_kernel := k', ss_adapter := a\<rparr>, case r' of Inl e \<Rightarrow> Inl e | Inr _ \<Rightarrow> Inr now)"
      using assms(2) i(1) k 3 d by (simp add: ss_tick_def ss_with_def Let_def)
    then show ?thesis
      using i acc ss_runs(3) [OF i(2) 3(2)] tick_frame [OF d] by (auto simp: ss_inv_def split: sum.splits)
  qed
qed

lemma iteration_keeps:
  assumes "set rules \<subseteq> set (ss_rules K db A)" and "ss_inv A acc c0 R0 w"
    and "ss_iteration K A abort t w rules = (w', rules', r)"
  shows "ss_inv A acc c0 R0 w' \<and> set rules' \<subseteq> set (ss_rules K db A) \<and> r \<noteq> Inl el_busy_wait"
proof -
  obtain w1 rules1 r1 where e: "wait_next_event (ss_poll K) rules w TCP_TICK_MS = (w1, rules1, r1)" by (metis surj_pair)
  note k = rounds.wait_keeps [OF assms(1,2) e]
  obtain w2 r2 where tk: "ss_tick K A t w1 = (w2, r2)" by (metis surj_pair)
  note k2 = tick_keeps [OF k(1) tk]
  have "el_poll_error \<noteq> el_busy_wait" by (simp add: el_poll_error_def el_busy_wait_def)
  then have "r1 \<noteq> Inl el_busy_wait" using k(3) [of el_busy_wait] by auto
  then show ?thesis
    using assms(3) e k(1,2) k2 tk by (auto simp: ss_iteration_def split: sum.splits if_splits)
qed

lemma loop_keeps:
  assumes "ss_loop K A abort condition t w rules = Some (w', rules', r)"
    and "set rules \<subseteq> set (ss_rules K db A)" and "ss_inv A acc c0 R0 w"
  shows "ss_inv A acc c0 R0 w' \<and> r \<noteq> Inl el_busy_wait"
proof -
  have "sponge_host A acc K \<longrightarrow> set rules \<subseteq> set (ss_rules K db A) \<longrightarrow> ss_inv A acc c0 R0 w \<longrightarrow>
    ss_inv A acc c0 R0 (fst (w', rules', r)) \<and> snd (snd (w', rules', r)) \<noteq> Inl el_busy_wait"
  proof (rule ss_loop.raw_induct [where P = "\<lambda>K A abort condition t w rules x.
      sponge_host A acc K \<longrightarrow> set rules \<subseteq> set (ss_rules K db A) \<longrightarrow> ss_inv A acc c0 R0 w \<longrightarrow>
      ss_inv A acc c0 R0 (fst x) \<and> snd (snd x) \<noteq> Inl el_busy_wait", OF _ assms(1)])
    fix f K A abort condition t w rules x
    assume IH: "\<And>K A abort condition t w rules x. f K A abort condition t w rules = Some x \<Longrightarrow>
        sponge_host A acc K \<longrightarrow> set rules \<subseteq> set (ss_rules K db A) \<longrightarrow> ss_inv A acc c0 R0 w \<longrightarrow>
        ss_inv A acc c0 R0 (fst x) \<and> snd (snd x) \<noteq> Inl el_busy_wait"
      and eq: "(if \<not> condition w then Some (w, rules, Inr ())
        else case ss_iteration K A abort t w rules of
               (w, rules, Inl e) \<Rightarrow> Some (w, rules, Inl e)
             | (w, rules, Inr None) \<Rightarrow> Some (w, rules, Inr ())
             | (w, rules, Inr (Some t)) \<Rightarrow> f K A abort condition t w rules) = Some x"
    show "sponge_host A acc K \<longrightarrow> set rules \<subseteq> set (ss_rules K db A) \<longrightarrow> ss_inv A acc c0 R0 w \<longrightarrow>
        ss_inv A acc c0 R0 (fst x) \<and> snd (snd x) \<noteq> Inl el_busy_wait"
    proof (intro impI)
      assume h: "sponge_host A acc K" "set rules \<subseteq> set (ss_rules K db A)" "ss_inv A acc c0 R0 w"
      obtain w1 rules1 r1 where s: "ss_iteration K A abort t w rules = (w1, rules1, r1)" by (metis surj_pair)
      from sponge_host.iteration_keeps [OF h s] show "ss_inv A acc c0 R0 (fst x) \<and> snd (snd x) \<noteq> Inl el_busy_wait"
        using eq IH h(1,3) s by (auto split: if_splits sum.splits option.splits)
    qed
  qed
  then show ?thesis using assms(2,3) sponge_host_axioms by simp
qed

end

interpretation udp_host: sponge_host "udp_ops script_kernel numeric_db" sc_out script_kernel numeric_db c0 R0 for c0 R0
  by unfold_locales (rule script_kernel_accounts)

interpretation tun_host: sponge_host "tun_ops script_kernel numeric_db" sc_out script_kernel numeric_db c0 R0 for c0 R0
  by unfold_locales (rule script_kernel_accounts)

section \<open>Properties\<close>

text \<open>
  C3. One iteration of \<open>_tcp_loop\<close>, whatever the kernel, the owner and the network do: the connection moves by a
  run of its public operations, the bytes the kernel has accepted for the owner are exactly those taken off
  the connection's inbound stream, in order, and the event loop does not detect a busy wait.
\<close>

theorem ss_iteration_refines:
  assumes "kernel_accounts K acc" and "segment_adapter A acc" and "set rules \<subseteq> set (ss_rules K db A)"
    and "ss_inv A acc c0 R0 w"
  shows "case ss_iteration K A abort t w rules of (w', rules', r) \<Rightarrow>
    ss_inv A acc c0 R0 w' \<and> set rules' \<subseteq> set (ss_rules K db A) \<and> r \<noteq> Inl el_busy_wait"
proof -
  obtain w' rules' r where e: "ss_iteration K A abort t w rules = (w', rules', r)" by (metis surj_pair)
  have "sponge_host A acc K" using assms(1,2) by (simp add: sponge_host_def sponge_host_axioms_def)
  from sponge_host.iteration_keeps [OF this assms(3,4) e] show ?thesis by (simp add: e)
qed

definition sock_adapter_example :: sock_adapter where
  "sock_adapter_example = \<lparr>sa_base = fa_example_a, sa_fd = fd_example 4\<rparr>"

definition ss_example :: "tcp_connection \<Rightarrow> script \<Rightarrow> (script, sock_adapter) sponge" where
  "ss_example c k =
    \<lparr>ss_kernel = k, ss_fd = fd_example 2, ss_thread_data = fd_example 3, ss_adapter = sock_adapter_example, ss_tcp = Some c,
     ss_inbound_shutdown = False, ss_outbound_shutdown = False, ss_fully_acked = False\<rparr>"

lemma ss_example_inv: "ss_inv (udp_ops K db) sc_out c [] (ss_example c script_empty)"
  by (auto simp: ss_inv_def ss_example_def script_empty_def sock_adapter_example_def udp_ops_def sock_adapter_ops_def
    fd_example_def intro: ss_run.start)

theorem ss_iteration_refines_witness:
  "\<exists>w' rules' r. ss_iteration script_kernel (udp_ops script_kernel numeric_db) (\<lambda>_. False) 0 (ss_example cn_example script_empty)
      (ss_rules script_kernel numeric_db (udp_ops script_kernel numeric_db)) = (w', rules', r) \<and>
    ss_inv (udp_ops script_kernel numeric_db) sc_out cn_example [] w' \<and> r \<noteq> Inl el_busy_wait"
proof -
  let ?A = "udp_ops script_kernel numeric_db" and ?w = "ss_example cn_example script_empty"
  obtain w' rules' r where e: "ss_iteration script_kernel ?A (\<lambda>_. False) 0 ?w (ss_rules script_kernel numeric_db ?A) = (w', rules', r)"
    by (metis surj_pair)
  have i: "ss_inv ?A sc_out cn_example [] ?w" by (rule ss_example_inv)
  have a: "segment_adapter ?A sc_out" by (rule udp_segment_adapter [OF script_kernel_datagrams])
  from ss_iteration_refines [OF script_kernel_accounts a subset_refl i, where db = numeric_db and abort = "\<lambda>_. False" and t = 0]
  show ?thesis by (simp add: e)
qed

lemma random_bytes_length: "length (snd (random_bytes K k n)) = n"
  by (induction n arbitrary: k) (simp_all add: split_beta Let_def)

text \<open>
  C34. The private Ethernet addresses are well formed for every value of the random device: six bytes, locally
  administered and not a group address.
\<close>

theorem random_private_ethernet_address_valid:
  "case random_private_ethernet_address K k of (k', addr) \<Rightarrow>
     length addr = 6 \<and> bit (addr ! 0) 1 \<and> \<not> bit (addr ! 0) 0"
proof -
  obtain k' addr where r: "random_bytes K k 6 = (k', addr)" by (metis surj_pair)
  have "length addr = 6" using random_bytes_length [of K k 6] r by simp
  then show ?thesis by (simp add: random_private_ethernet_address_def r) (simp add: bit_simps)
qed

text \<open>
  As long as the outbound stream is neither ended nor in the error state, rule 2 never reads more from the owner
  than the connection takes: every byte read is accepted.
\<close>

theorem ss_rule2_accepts:
  assumes "kernel_reads K" and "ss_tcp w = Some c" and "bs_inv (tx_stream (cn_sender c))"
    and "\<not> bs_closed (tx_stream (cn_sender c))"
  shows "case ss_rule2 K db A w of (w', r) \<Rightarrow> r \<noteq> Inl ss_short_write \<and>
    (r = Inr () \<longrightarrow> (\<exists>k f data c'.
       fd_read K (ss_kernel w) (ss_thread_data w) (cn_remaining_outbound_capacity c) = (k, f, Inr data) \<and>
       cn_write c data = (of_nat (length data), c')))"
proof -
  let ?n = "cn_remaining_outbound_capacity c"
  show ?thesis
  proof (cases rule: fd_read_cases [OF assms(1), where k = "ss_kernel w" and f = "ss_thread_data w" and limit = ?n, case_names failed got])
    case (failed k' errno)
    then show ?thesis using assms(2) by (simp add: ss_rule2_def ss_with_def ss_short_write_def Let_def)
  next
    case (got k' data)
    obtain n c' where w: "cn_write c data = (n, c')" by (metis surj_pair)
    have "n = fst (bs_write (tx_stream (cn_sender c)) data)"
      using w by (auto simp: cn_write_def tx_stream_write_def Let_def split: prod.splits)
    moreover have "unat (str_size data) = length data" using got(2) by (intro unat_str_size_ok) (simp add: str_ok_def)
    moreover have "length data \<le> bs_room (tx_stream (cn_sender c))"
      using got(1) unat_bs_remaining_capacity [OF assms(3)] by (simp add: cn_remaining_outbound_capacity_def)
    ultimately have "unat n = unat (str_size data)" using bs_write_count_raw [OF assms(3), of data] assms(4) by simp
    then have n: "n = str_size data" by (rule unsigned_word_eqI)
    have "ss_name_peer db A w2 \<noteq> Inl ss_short_write" for w2 :: "('a, 'b) sponge"
      by (auto simp: ss_name_peer_def ad_to_string_def ad_ip_port_def stoi_def ss_short_write_def Let_def
        split: sum.split prod.split if_split)
    then show ?thesis using ss_rule2_read [OF assms(2) w got(3)] w got(3) n by (auto simp: str_size_def)
  qed
qed

theorem ss_rule2_accepts_witness:
  "snd (ss_rule2 script_kernel numeric_db (udp_ops script_kernel numeric_db)
     (ss_example cn_example (script_empty\<lparr>sc_reads := [[1, 2, 3]]\<rparr>))) \<noteq> Inl ss_short_write"
proof -
  let ?w = "ss_example cn_example (script_empty\<lparr>sc_reads := [[1, 2, 3]]\<rparr>)"
  have "bs_inv (tx_stream (cn_sender cn_example))" "\<not> bs_closed (tx_stream (cn_sender cn_example))"
    by code_simp+
  from ss_rule2_accepts [OF script_kernel_reads _ this, of ?w numeric_db "udp_ops script_kernel numeric_db"]
  show ?thesis by (auto simp: ss_example_def split: prod.splits)
qed

lemma cn_write_reset:
  assumes "bs_error (tx_stream (cn_sender c))"
  shows "fst (cn_write c data) = 0"
  using assms by (simp add: cn_write_def tx_stream_write_def bs_write_def Let_def split_beta)

text \<open>
  C39. A reset that arrives together with data of the owner ends the process: when one \<open>poll\<close> reports both the
  adapter and the owner's socket readable and the segment is a RST, rule 1 resets the connection, rule 2
  nevertheless reads the owner's data, the stream in the error state takes none of it, and rule 2 throws.
\<close>

theorem reset_with_data_throws:
  assumes "ss_tcp w = Some c" and "cn_active c" and "\<not> ss_outbound_shutdown w" and "cn_remaining_outbound_capacity c > 0"
    and "\<not> fw_eof (at_fd A (ss_adapter w))" and "\<not> fw_closed (at_fd A (ss_adapter w))"
    and "\<not> fw_eof (ss_thread_data w)" and "\<not> fw_closed (ss_thread_data w)"
    and "\<forall>fds. sys_poll K (ss_kernel w) fds t = (k1, (n, 0), [POLLIN, POLLIN, 0, 0])" and "0 < n" and "n < 2 ^ 31"
    and "at_read A k1 (ss_adapter w) = (k2, a2, Inr (Some seg))" and "th_rst (seg_header seg)"
    and "fw_read_count (at_fd A a2) \<noteq> fw_read_count (at_fd A (ss_adapter w))"
    and "fd_read K k2 (ss_thread_data w) (cn_remaining_outbound_capacity c) = (k3, f3, Inr data)" and "data \<noteq> []"
    and "length data < 2 ^ 63"
  shows "\<exists>w' rules'. wait_next_event (ss_poll K) (ss_rules K db A) w t = (w', rules', Inl ss_short_write)"
proof -
  let ?rs = "ss_rules K db A"
  let ?c1 = "cn_segment_received c seg"
  let ?v = "w\<lparr>ss_kernel := k1\<rparr>"
  let ?w1 = "w\<lparr>ss_kernel := k2, ss_adapter := a2, ss_tcp := Some ?c1\<rparr>"
  have c1: "?c1 = cn_unclean_shutdown (cn_receive c seg) False"
    using assms(2,13) by (simp add: cn_segment_received_def Let_def)
  then have err: "bs_error (tx_stream (cn_sender ?c1))" and cap: "cn_remaining_outbound_capacity ?c1 = cn_remaining_outbound_capacity c"
    by (simp_all add: cn_unclean_shutdown_def cn_receive_def cn_remaining_outbound_capacity_def bs_remaining_capacity_def
      bs_set_error_def Let_def)
  have 1: "ss_rule1 db A ?v = (?w1, Inr ())"
    using assms(1,7,12) by (simp add: ss_rule1_def ss_with_def ss_note_acked_def Let_def)
  obtain c2 where w: "cn_write ?c1 data = (0, c2)" using cn_write_reset [OF err, of data] by (metis fst_conv surj_pair)
  have "unat (str_size data) = length data" using assms(17) by (intro unat_str_size_ok) (simp add: str_ok_def)
  then have "str_size data \<noteq> 0" using assms(16) by auto
  then have "snd (ss_rule2 K db A ?w1) = Inl ss_short_write"
    using ss_rule2_read [of ?w1 ?c1 data 0 c2 K k3 f3 db A] w assms(15) cap by simp
  then obtain w2 where 2: "ss_rule2 K db A ?w1 = (w2, Inl ss_short_write)" by (metis prod.collapse)
  have "el_setup ?rs w = (w, ?rs, map (\<lambda>r. (fw_fd (ru_fd r w), if ru_interest r w then direction_events (ru_direction r) else 0)) ?rs,
      \<exists>r\<in>set ?rs. ru_interest r w, Inr ())"
    by (rule el_setup_idle) (use assms(5-8) in \<open>auto simp: ss_rules_def\<close>)
  moreover have "SystemCall ''poll'' (n, 0) 0 = Inr n" by (rule SystemCall_returned) (use assms(10,11) in simp_all)
  ultimately show ?thesis
    using assms(1-4,9,10,14) 1 2
    by (auto simp: wait_next_event_def ss_poll_def Let_def ss_rules_def ss_if_def el_polled_def el_service_def
      ru_service_count_def POLLIN_def POLLOUT_def POLLERR_def POLLNVAL_def POLLHUP_def)
qed

text \<open>A RST segment in a UDP datagram from the (empty) address the scripted kernel reports.\<close>

definition rst_datagram :: bytes where
  "rst_datagram = [0, 0, 0, 0, 0, 0, 0, 0, 0, 0, 0, 0, 0x50, 4, 0, 0, 0xaf, 0xfb, 0, 0]"

definition rst_adapter :: sock_adapter where
  "rst_adapter = \<lparr>sa_base = FdAdapterBase ((fa_cfg fa_example_a)\<lparr>fc_destination := \<lparr>ad_size = 0, ad_storage = replicate 128 0\<rparr>\<rparr>),
     sa_fd = fd_example 4\<rparr>"

definition rst_script :: script where
  "rst_script = script_empty\<lparr>sc_reads := [rst_datagram, [1, 2, 3]], sc_polls := [[POLLIN, POLLIN, 0, 0]]\<rparr>"

theorem reset_with_data_throws_witness:
  "\<exists>w' rules'. wait_next_event (ss_poll script_kernel) (ss_rules script_kernel numeric_db (udp_ops script_kernel numeric_db))
     ((ss_example cn_example rst_script)\<lparr>ss_adapter := rst_adapter\<rparr>) 10 = (w', rules', Inl ss_short_write)"
proof -
  let ?A = "udp_ops script_kernel numeric_db" and ?w = "(ss_example cn_example rst_script)\<lparr>ss_adapter := rst_adapter\<rparr>"
  let ?k1 = "rst_script\<lparr>sc_polls := []\<rparr>"
  let ?fd = "fd_example 4" and ?src = "\<lparr>ad_size = 0, ad_storage = replicate 128 0\<rparr> :: address"
  have sc: "SystemCall ''recvfrom'' (20, 0) 0 = Inr 20" by (rule SystemCall_returned) simp_all
  have src: "Address_raw [] 0 = Inr ?src" by (simp add: Address_raw_def)
  have r: "so_recv script_kernel ?k1 ?fd 65536 =
      (?k1\<lparr>sc_reads := [[1, 2, 3]]\<rparr>, fd_register_read ?fd, Inr (?src, rst_datagram))"
    by (simp add: so_recv_def script_kernel_def rst_script_def rst_datagram_def sc src str_resize_def Let_def)
  have u: "case udp_read (sa_base rst_adapter) ?src rst_datagram of (fa, Some seg) \<Rightarrow> th_rst (seg_header seg) | _ \<Rightarrow> False"
    by code_simp
  then obtain fa seg where seg: "udp_read (sa_base rst_adapter) ?src rst_datagram = (fa, Some seg)" "th_rst (seg_header seg)"
    by (auto split: prod.splits option.splits)
  let ?a2 = "rst_adapter\<lparr>sa_fd := fd_register_read ?fd, sa_base := fa\<rparr>" and ?k2 = "?k1\<lparr>sc_reads := [[1, 2, 3]]\<rparr>"
  have read: "at_read ?A ?k1 rst_adapter = (?k2, ?a2, Inr (Some seg))"
    using r seg(1) by (simp add: udp_ops_def sock_adapter_ops_def sa_read_udp_def rst_adapter_def)
  have c: "cn_active cn_example" "cn_remaining_outbound_capacity cn_example = 10" by code_simp+
  have "SystemCall ''read'' (3, 0) 0 = Inr 3" by (rule SystemCall_returned) simp_all
  then obtain k3 f3 where data: "fd_read script_kernel ?k2 (fd_example 3) 10 = (k3, f3, Inr [1, 2, 3])"
    by (simp add: fd_read_def READ_BUFFER_SIZE_def script_kernel_def str_resize_def Let_def)
  have p: "\<forall>fds. sys_poll script_kernel rst_script fds 10 = (?k1, (1, 0), [POLLIN, POLLIN, 0, 0])"
    by (simp add: script_kernel_def rst_script_def)
  have fds: "\<not> fw_eof (at_fd ?A rst_adapter)" "\<not> fw_closed (at_fd ?A rst_adapter)" "\<not> fw_eof (fd_example 3)"
    "\<not> fw_closed (fd_example 3)" "fw_read_count (at_fd ?A ?a2) \<noteq> fw_read_count (at_fd ?A rst_adapter)"
    by (simp_all add: udp_ops_def sock_adapter_ops_def rst_adapter_def fd_example_def)
  show ?thesis
    by (rule reset_with_data_throws [where c = cn_example and n = 1 and ?k1.0 = ?k1 and ?k2.0 = ?k2 and ?a2.0 = ?a2 and seg = seg
        and data = "[1, 2, 3]" and ?k3.0 = k3 and ?f3.0 = f3])
      (use c fds p read data seg(2) in \<open>simp_all add: ss_example_def\<close>)
qed



lemma cn_send_rst_queues: "\<exists>seg \<in> set (cn_segments_out (cn_send_rst c)). th_rst (seg_header seg)"
  by (cases "tx_segments_out (tx_fill_window (cn_sender c))")
    (auto simp: cn_send_rst_def Let_def tx_send_empty_segment_def)

text \<open>
  C40. An aborted connection sends no RST: when the owner's flag is set while the connection is active, the
  thread leaves the loop, shuts down its socket and drops the connection; the adapter is not called again,
  although the destructor of the connection has queued a segment with RST. (The documentation
  of the class says that the connection is terminated with a RST.)
\<close>

theorem abort_sends_no_rst:
  assumes "ss_tcp w = Some c" and "sys_clock K (ss_kernel w) = (k0, now)"
    and "wait_next_event (ss_poll K) rules (w\<lparr>ss_kernel := k0\<rparr>) TCP_TICK_MS = (w1, rules1, Inr ret)"
    and "abort (ss_kernel w1)" and "ss_tcp w1 = Some c1" and "cn_active c1"
    and "so_shutdown K (ss_kernel w1) (ss_fd w1) SHUT_RDWR = (k2, f2, Inr ())"
  shows "ss_tcp_main K A abort w rules =
      Some (w1\<lparr>ss_kernel := k2, ss_fd := f2, ss_tcp := None\<rparr>, rules1, Inr ()) \<and>
    (\<exists>d. snd (ss_reset w1) = Some d \<and> (\<exists>seg. seg \<in> set (cn_segments_out d) \<and> th_rst (seg_header seg)))"
proof
  have "ss_iteration K A abort now (w\<lparr>ss_kernel := k0\<rparr>) rules = (w1, rules1, Inr None)"
    using assms(3,4) by (simp add: ss_iteration_def)
  then have "ss_tcp_loop K A abort (\<lambda>_. True) w rules = Some (w1, rules1, Inr ())"
    using assms(2) by (simp add: ss_tcp_loop_def) (subst ss_loop.simps, simp)
  then show "ss_tcp_main K A abort w rules = Some (w1\<lparr>ss_kernel := k2, ss_fd := f2, ss_tcp := None\<rparr>, rules1, Inr ())"
    using assms(1,7) by (simp add: ss_tcp_main_def ss_reset_def)
  have "cn_segments_out (cn_destroy c1) = cn_segments_out (cn_send_rst c1)"
    using assms(6) by (simp add: cn_destroy_def cn_unclean_shutdown_def Let_def)
  then show "\<exists>d. snd (ss_reset w1) = Some d \<and> (\<exists>seg. seg \<in> set (cn_segments_out d) \<and> th_rst (seg_header seg))"
    using cn_send_rst_queues [of c1] assms(5) by (auto simp: ss_reset_def)
qed

theorem abort_sends_no_rst_witness:
  "\<exists>w'. ss_tcp_main script_kernel (udp_ops script_kernel numeric_db) (\<lambda>_. True) (ss_example cn_example script_empty)
     (ss_rules script_kernel numeric_db (udp_ops script_kernel numeric_db)) =
     Some (w', ss_rules script_kernel numeric_db (udp_ops script_kernel numeric_db), Inr ()) \<and> ss_tcp w' = None"
proof -
  let ?A = "udp_ops script_kernel numeric_db" and ?w = "ss_example cn_example script_empty"
  let ?rs = "ss_rules script_kernel numeric_db ?A" and ?v = "?w\<lparr>ss_kernel := script_empty\<lparr>sc_now := 1\<rparr>\<rparr>"
  have a: "cn_active cn_example" by code_simp
  have open_fds: "\<forall>r\<in>set ?rs. \<not> (ru_direction r = Dir_In \<and> fw_eof (ru_fd r ?v)) \<and> \<not> fw_closed (ru_fd r ?v)"
    by (simp add: ss_rules_def ss_example_def udp_ops_def sock_adapter_ops_def sock_adapter_example_def fd_example_def)
  have "\<exists>r\<in>set ?rs. ru_interest r ?v" using a by (simp add: ss_rules_def ss_if_def ss_example_def)
  then have wait: "wait_next_event (ss_poll script_kernel) ?rs ?v TCP_TICK_MS = (?v, ?rs, Inr Result_Timeout)"
    unfolding wait_next_event_def el_setup_idle [OF open_fds]
    by (simp add: ss_poll_def script_kernel_def script_empty_def ss_example_def SystemCall_returned)
  obtain k2 f2 where s: "so_shutdown script_kernel (ss_kernel ?v) (ss_fd ?v) SHUT_RDWR = (k2, f2, Inr ())"
    by (simp add: so_shutdown_def checked_def script_kernel_def SystemCall_returned SHUT_RD_def SHUT_WR_def SHUT_RDWR_def)
  show ?thesis
    using abort_sends_no_rst [where w = ?w and c = cn_example and ?k0.0 = "script_empty\<lparr>sc_now := 1\<rparr>"
      and now = 0 and abort = "\<lambda>_. True" and A = ?A, OF _ _ wait _ _ a s]
    by (simp add: ss_example_def script_kernel_def script_empty_def)
qed

text \<open>
  Connecting a fresh connection always leads to the state SYN_SENT, whatever the configuration and the initial
  sequence number, so \<open>connect\<close> never fails its check and enters its loop.
\<close>

theorem connect_reaches_syn_sent:
  "ts_equal (cn_state (cn_connect (TCPConnection cfg r))) (ts_of_official SYN_SENT)"
  using tx_first_segment [of "cfg_send_capacity cfg" "cfg_rt_timeout cfg" "cfg_fixed_isn cfg" r]
  by (simp add: ts_equal_def cn_state_def TCPState_def cn_connect_def TCPConnection_def ts_sender_summary_def
    ts_receiver_summary_def summary_defs tx_syn_out_def tx_bytes_in_flight_def)

end
