(* ===== verification/Benchmark.thy ===== *)
theory Benchmark
  imports End_To_End Strings
begin

text \<open>
  The throughput benchmark \<open>apps/tcp_benchmark.cc\<close>: two connections in one process that exchange their segments
  directly, in order or with the segments of one of them in reverse. The random bytes of the string to
  send, the initial sequence numbers and the configuration are arguments; timing and output are left
  out. The outer loops may run forever, for which the value is \<open>None\<close>.
\<close>

section \<open>The program\<close>

text \<open>The vector \<open>segments\<close> is passed by reference: it is the last component of the result, empty again.\<close>

definition move_segments :: "tcp_connection \<Rightarrow> tcp_connection \<Rightarrow> tcp_segment list \<Rightarrow> bool \<Rightarrow>
    tcp_connection \<times> tcp_connection \<times> tcp_segment list" where
  "move_segments x y segments reorder =
    (let segments = segments @ cn_segments_out x;
         x = x\<lparr>cn_segments_out := []\<rparr>;
         y = (if reorder then fold (\<lambda>seg y. cn_segment_received y seg) (rev segments) y
              else fold (\<lambda>seg y. cn_segment_received y seg) segments y)
     in (x, y, []))"

record bench =
  bm_x :: tcp_connection
  bm_y :: tcp_connection
  bm_bytes_to_send :: buffer
  bm_x_closed :: bool
  bm_received :: bytes

definition bm_start :: "tcp_config \<Rightarrow> bytes \<Rightarrow> u32 \<Rightarrow> u32 \<Rightarrow> bench" where
  "bm_start config string_to_send rx ry =
    \<lparr>bm_x = cn_connect (TCPConnection config rx), bm_y = cn_end_input_stream (TCPConnection config ry),
     bm_bytes_to_send = Buffer string_to_send, bm_x_closed = False, bm_received = []\<rparr>"

text \<open>The first part of \<open>loop\<close>: as much of the input as the connection takes.\<close>

definition bm_short :: "u64 \<Rightarrow> u64 \<Rightarrow> exn" where
  "bm_short want written =
    Runtime_Error (''want = '' @ dec_string (unat want) @ '', written = '' @ dec_string (unat written))"

partial_function (option) bm_feed ::
    "tcp_connection \<Rightarrow> buffer \<Rightarrow> (tcp_connection \<times> buffer \<times> (exn + unit)) option" where
  [code]: "bm_feed x bytes_to_send =
    (if buf_size bytes_to_send \<noteq> 0 \<and> cn_remaining_outbound_capacity x \<noteq> 0
     then
       let want = min (cn_remaining_outbound_capacity x) (buf_size bytes_to_send);
           (written, x) = cn_write x (substr (buf_str bytes_to_send) 0 want)
       in if want \<noteq> written then Some (x, bytes_to_send, Inl (bm_short want written))
          else case buf_remove_prefix bytes_to_send written of
                 (b, Inl e) \<Rightarrow> Some (x, b, Inl e)
               | (b, Inr _) \<Rightarrow> bm_feed x b
     else Some (x, bytes_to_send, Inr ()))"

definition bm_close :: "bench \<Rightarrow> bench" where
  "bm_close st =
    (if buf_size (bm_bytes_to_send st) = 0 \<and> \<not> bm_x_closed st
     then st\<lparr>bm_x := cn_end_input_stream (bm_x st), bm_x_closed := True\<rparr> else st)"

definition bm_exchange :: "bool \<Rightarrow> bench \<Rightarrow> bench" where
  "bm_exchange reorder st =
    (let (x, y, segments) = move_segments (bm_x st) (bm_y st) [] reorder;
         (y, x, segments) = move_segments y x segments False
     in st\<lparr>bm_x := x, bm_y := y\<rparr>)"

definition bm_read :: "bench \<Rightarrow> bench" where
  "bm_read st =
    (let available_output = bs_buffer_size (cn_inbound_stream (bm_y st))
     in if available_output > 0
        then let (out, y) = cn_inbound_read (bm_y st) available_output
             in st\<lparr>bm_y := y, bm_received := bm_received st @ out\<rparr>
        else st)"

definition bm_tick :: "bench \<Rightarrow> bench \<times> (exn + unit)" where
  "bm_tick st =
    (case cn_tick (bm_x st) 1000 of
       Inl e \<Rightarrow> (st, Inl e)
     | Inr x \<Rightarrow>
         let st = st\<lparr>bm_x := x\<rparr>
         in case cn_tick (bm_y st) 1000 of
              Inl e \<Rightarrow> (st, Inl e)
            | Inr y \<Rightarrow> (st\<lparr>bm_y := y\<rparr>, Inr ()))"

definition bm_loop :: "bool \<Rightarrow> bench \<Rightarrow> (bench \<times> (exn + unit)) option" where
  "bm_loop reorder st =
    (case bm_feed (bm_x st) (bm_bytes_to_send st) of
       None \<Rightarrow> None
     | Some (x, b, r) \<Rightarrow>
         let st = st\<lparr>bm_x := x, bm_bytes_to_send := b\<rparr>
         in case r of
              Inl e \<Rightarrow> Some (st, Inl e)
            | Inr _ \<Rightarrow> Some (bm_tick (bm_read (bm_exchange reorder (bm_close st)))))"

partial_function (option) bm_while :: "(bench \<Rightarrow> bool) \<Rightarrow> bool \<Rightarrow> bench \<Rightarrow> (bench \<times> (exn + unit)) option" where
  [code]: "bm_while condition reorder st =
    (if \<not> condition st then Some (st, Inr ())
     else case bm_loop reorder st of
            None \<Rightarrow> None
          | Some (st, Inl e) \<Rightarrow> Some (st, Inl e)
          | Some (st, Inr _) \<Rightarrow> bm_while condition reorder st)"

definition bm_mismatch :: exn where
  "bm_mismatch = Runtime_Error ''strings sent vs. received don't match''"

definition bm_main_loop :: "bool \<Rightarrow> tcp_config \<Rightarrow> bytes \<Rightarrow> u32 \<Rightarrow> u32 \<Rightarrow> (exn + unit) option" where
  "bm_main_loop reorder config string_to_send rx ry =
    (case bm_while (\<lambda>st. \<not> bs_eof (cn_inbound_stream (bm_y st))) reorder (bm_start config string_to_send rx ry) of
       None \<Rightarrow> None
     | Some (st, Inl e) \<Rightarrow> Some (Inl e)
     | Some (st, Inr _) \<Rightarrow>
         if bm_received st \<noteq> string_to_send then Some (Inl bm_mismatch)
         else case bm_while (\<lambda>st. cn_active (bm_x st) \<or> cn_active (bm_y st)) reorder st of
                None \<Rightarrow> None
              | Some (_, r) \<Rightarrow> Some r)"

text \<open>The first \<open>n\<close> rounds of the loop.\<close>

fun bm_iterate :: "nat \<Rightarrow> bool \<Rightarrow> bench \<Rightarrow> (bench \<times> (exn + unit)) option" where
  "bm_iterate 0 reorder st = Some (st, Inr ())"
| "bm_iterate (Suc n) reorder st =
    (case bm_loop reorder st of
       None \<Rightarrow> None
     | Some (st, Inl e) \<Rightarrow> Some (st, Inl e)
     | Some (st, Inr _) \<Rightarrow> bm_iterate n reorder st)"

section \<open>A run of the benchmark is a run of the two endpoints\<close>

lemma link_A_sends_all:
  "link_reach l0 l \<Longrightarrow> cn_segments_out (lk_A l) = segs \<Longrightarrow>
   link_reach l0 (l\<lparr>lk_A := (lk_A l)\<lparr>cn_segments_out := []\<rparr>, lk_AB := rev segs @ lk_AB l\<rparr>)"
proof (induction segs arbitrary: l)
  case Nil
  then have "l\<lparr>lk_A := (lk_A l)\<lparr>cn_segments_out := []\<rparr>, lk_AB := rev [] @ lk_AB l\<rparr> = l" by (cases l) simp
  then show ?case using Nil.prems(1) by simp
next
  case (Cons seg segs)
  from Cons.IH [OF link_reach.step [OF Cons.prems(1) link_step.A_sends [OF Cons.prems(2)]]] show ?case by simp
qed

lemma link_B_receives_all:
  "link_reach l0 l \<Longrightarrow> set segs \<subseteq> set (lk_AB l) \<Longrightarrow>
   link_reach l0 (l\<lparr>lk_B := fold (\<lambda>seg y. cn_segment_received y seg) segs (lk_B l)\<rparr>)"
proof (induction segs arbitrary: l)
  case (Cons seg segs)
  from Cons.prems(2) have "seg \<in> set (lk_AB l)" by simp
  from Cons.IH [OF link_reach.step [OF Cons.prems(1) link_step.B_receives [OF this]]] Cons.prems(2)
  show ?case by simp
qed simp

lemma link_B_sends_all:
  "link_reach l0 l \<Longrightarrow> cn_segments_out (lk_B l) = segs \<Longrightarrow>
   link_reach l0 (l\<lparr>lk_B := (lk_B l)\<lparr>cn_segments_out := []\<rparr>, lk_BA := lk_BA l @ segs\<rparr>)"
proof (induction segs arbitrary: l)
  case Nil
  then have "l\<lparr>lk_B := (lk_B l)\<lparr>cn_segments_out := []\<rparr>, lk_BA := lk_BA l @ []\<rparr> = l" by (cases l) simp
  then show ?case using Nil.prems(1) by simp
next
  case (Cons seg segs)
  from Cons.IH [OF link_reach.step [OF Cons.prems(1) link_step.B_sends [OF Cons.prems(2)]]] show ?case by simp
qed

lemma link_A_receives_all:
  "link_reach l0 l \<Longrightarrow> lk_BA l = segs \<Longrightarrow>
   link_reach l0 (l\<lparr>lk_A := fold (\<lambda>seg y. cn_segment_received y seg) segs (lk_A l), lk_BA := []\<rparr>)"
proof (induction segs arbitrary: l)
  case Nil
  then have "l\<lparr>lk_A := fold (\<lambda>seg y. cn_segment_received y seg) [] (lk_A l), lk_BA := []\<rparr> = l" by (cases l) simp
  then show ?case using Nil.prems(1) by simp
next
  case (Cons seg segs)
  from Cons.IH [OF link_reach.step [OF Cons.prems(1) link_step.A_receives [OF Cons.prems(2)]]] show ?case by simp
qed

lemma cn_segments_received_ended:
  "cn_out_ended (fold (\<lambda>seg y. cn_segment_received y seg) segs c) = cn_out_ended c"
  by (induction segs arbitrary: c) (simp_all add: cn_segment_received_ended)

text \<open>
  The state of the benchmark and a state of the two endpoints with nothing under way to \<open>x\<close>: the bytes
  written and the bytes still to be sent are the string \<open>S\<close>.
\<close>

definition bm_link :: "tcp_config \<Rightarrow> u32 \<Rightarrow> u32 \<Rightarrow> bytes \<Rightarrow> bench \<Rightarrow> link \<Rightarrow> bool" where
  "bm_link config rx ry S st l \<longleftrightarrow>
     link_reach (link_start (TCPConnection config rx) (TCPConnection config ry)) l \<and>
     lk_A l = bm_x st \<and> lk_B l = bm_y st \<and> lk_BA l = [] \<and> lk_answered l = [] \<and> lk_read l = bm_received st \<and>
     lk_written l @ buf_str (bm_bytes_to_send st) = S \<and> buf_ok (bm_bytes_to_send st) \<and>
     (cn_out_ended (bm_x st) \<longrightarrow> bm_x_closed st) \<and> (bm_x_closed st \<longrightarrow> buf_str (bm_bytes_to_send st) = [])"

definition bm_ok :: "tcp_config \<Rightarrow> u32 \<Rightarrow> u32 \<Rightarrow> bytes \<Rightarrow> bench \<Rightarrow> bool" where
  "bm_ok config rx ry S st \<longleftrightarrow> (\<exists>l. bm_link config rx ry S st l)"

text \<open>The string fits the sequence numbers, as the 100 MiB of the program do.\<close>

definition bm_fits :: "tcp_config \<Rightarrow> bytes \<Rightarrow> bool" where
  "bm_fits config S \<longleftrightarrow> length S + 2 < 2 ^ 31 \<and> unat (cfg_recv_capacity config) < 2 ^ 63"

lemma bm_link_inv:
  assumes "bm_link config rx ry S st l" and "bm_fits config S"
  shows "link_inv S [] (TCPConnection config rx) (TCPConnection config ry) l"
proof (rule link_reach_inv)
  show "link_fits S [] l" using assms(1) by (auto simp: bm_link_def link_fits_def)
qed (use assms in \<open>simp_all add: bm_link_def bm_fits_def\<close>)

lemma bm_ok_facts:
  assumes "bm_ok config rx ry S st" and "bm_fits config S"
  obtains "bs_inv (tx_stream (cn_sender (bm_x st)))" "rx_delivered S (bm_received st) (cn_receiver (bm_y st))"
    "\<exists>x. cn_tick (bm_x st) ms = Inr x" "\<exists>y. cn_tick (bm_y st) ms = Inr y"
proof -
  obtain l where l: "bm_link config rx ry S st l" using assms(1) by (auto simp: bm_ok_def)
  have i: "link_inv S [] (TCPConnection config rx) (TCPConnection config ry) l" by (rule bm_link_inv [OF l assms(2)])
  have small: "length S + 2 < 2 ^ 32" using assms(2) by (simp add: bm_fits_def)
  have x: "cn_inv S (lk_written l) (bm_x st)" and y: "cn_inv [] [] (bm_y st)"
    using i l cn_reach_inv [OF _ small, of config rx] cn_reach_inv [of "[]" config ry]
    by (auto simp: link_inv_def bm_link_def)
  then have "bs_inv (tx_stream (cn_sender (bm_x st)))"
    by (auto simp: cn_inv_def cn_sender_inv_def tx_inv_def tx_stream_inv_def)
  then show thesis
    using that cn_tick_inv [OF x] cn_tick_inv [OF y] i l by (auto simp: link_inv_def bm_link_def)
qed

lemma bm_write_count:
  assumes "bs_inv (tx_stream (cn_sender x))" and "\<not> bs_error (tx_stream (cn_sender x))" and "\<not> cn_out_ended x"
    and "n \<le> cn_remaining_outbound_capacity x" and "n \<noteq> 0" and "str_ok s" and "unat n \<le> length s"
  shows "fst (cn_write x (substr s 0 n)) = n"
proof -
  have d: "length (substr s 0 n) = unat n" "str_ok (substr s 0 n)"
    using assms(6,7) by (auto simp: substr_def str_ok_def)
  have "unat (fst (bs_write (tx_stream (cn_sender x)) (substr s 0 n))) = unat n"
    using assms(1-4) unat_bs_remaining_capacity [OF assms(1)] d
    by (simp add: bs_write_count_raw bs_closed_def cn_out_ended_def bs_input_ended_def word_le_nat_alt
        cn_remaining_outbound_capacity_def)
  then show ?thesis by (simp add: cn_write_def tx_stream_write_def case_prod_beta Let_def word_unat_eq_iff)
qed

lemma cn_write_error: "bs_error (tx_stream (cn_sender (snd (cn_write x d)))) = bs_error (tx_stream (cn_sender x))"
  by (simp add: cn_write_def tx_stream_write_def case_prod_beta Let_def bs_write_def)

lemma bm_ok_write:
  assumes "bm_ok config rx ry S st" and "cn_write (bm_x st) (substr (buf_str (bm_bytes_to_send st)) 0 n) = (w, x)"
    and "w = 0 \<or> w = n" and "unat n \<le> length (buf_str (bm_bytes_to_send st))"
    and "b = (if w = 0 then bm_bytes_to_send st else buf_drop (bm_bytes_to_send st) w)"
  shows "bm_ok config rx ry S (st\<lparr>bm_x := x, bm_bytes_to_send := b\<rparr>)"
proof -
  let ?b = "bm_bytes_to_send st" and ?d = "substr (buf_str (bm_bytes_to_send st)) 0 n"
  obtain l where l: "bm_link config rx ry S st l" using assms(1) by (auto simp: bm_ok_def)
  let ?l = "l\<lparr>lk_A := x, lk_written := lk_written l @ take (unat w) ?d\<rparr>"
  have step: "link_step l ?l"
    using l assms(2) by (intro link_step.A_local [OF cn_local.writing]) (simp add: bm_link_def)
  have e: "cn_out_ended x = cn_out_ended (bm_x st)" using cn_write_ended [of "bm_x st" ?d] assms(2) by simp
  have b: "buf_str b = drop (unat w) (buf_str ?b) \<and> buf_ok b"
    using assms(3-5) l buf_drop_spec [of ?b n] by (auto simp: bm_link_def)
  have "take (unat w) ?d @ buf_str b = buf_str ?b"
    using assms(3) b by (auto simp: substr_def)
  then have "bm_link config rx ry S (st\<lparr>bm_x := x, bm_bytes_to_send := b\<rparr>) ?l"
    using l link_reach.step [OF _ step] b e by (auto simp: bm_link_def)
  then show ?thesis by (auto simp: bm_ok_def)
qed

text \<open>A round throws nothing but the message of the first loop, and that only once the stream of \<open>x\<close> is in error.\<close>

definition bm_outcome :: "tcp_connection \<Rightarrow> (exn + unit) \<Rightarrow> bool" where
  "bm_outcome x r \<longleftrightarrow> r = Inr () \<or> (\<exists>want written. r = Inl (bm_short want written)) \<and> bs_error (tx_stream (cn_sender x))"

lemma bm_outcome_simps [simp]: "bm_outcome x (Inr u)" "\<not> bm_outcome x (Inl bm_mismatch)"
  by (simp_all add: bm_outcome_def bm_short_def bm_mismatch_def)

lemma bm_feed_spec:
  assumes "bm_ok config rx ry S st" and "bm_fits config S"
  shows "\<exists>x b r. bm_feed (bm_x st) (bm_bytes_to_send st) = Some (x, b, r) \<and>
    bm_ok config rx ry S (st\<lparr>bm_x := x, bm_bytes_to_send := b\<rparr>) \<and>
    bm_outcome x r"
  using assms(1)
proof (induction "length (buf_str (bm_bytes_to_send st))" arbitrary: st rule: less_induct)
  case less
  let ?x = "bm_x st" and ?b = "bm_bytes_to_send st"
  let ?n = "min (cn_remaining_outbound_capacity ?x) (buf_size ?b)"
  let ?d = "substr (buf_str ?b) 0 ?n"
  show ?case
  proof (cases "buf_size ?b \<noteq> 0 \<and> cn_remaining_outbound_capacity ?x \<noteq> 0")
    case False
    then have "bm_feed ?x ?b = Some (?x, ?b, Inr ())" by (subst bm_feed.simps) auto
    then show ?thesis using less.prems by simp
  next
    case True
    obtain w x where w: "cn_write ?x ?d = (w, x)" by fastforce
    have b: "buf_ok ?b" "\<not> cn_out_ended ?x"
      using less.prems True by (auto simp: bm_ok_def bm_link_def buf_size_def)
    then have n: "unat ?n \<le> length (buf_str ?b)" "?n \<noteq> 0"
      using True buf_size_nat [OF b(1)] by (auto simp: min_def word_le_nat_alt)
    have err: "bs_error (tx_stream (cn_sender x)) = bs_error (tx_stream (cn_sender ?x))"
      using cn_write_error [of ?x ?d] w by simp
    show ?thesis
    proof (cases "bs_error (tx_stream (cn_sender ?x))")
      case dead: True
      then have "w = 0" using w by (auto simp: cn_write_def tx_stream_write_def bs_write_def Let_def)
      then have "bm_feed ?x ?b = Some (x, ?b, Inl (bm_short ?n w))" using True w n(2) by (subst bm_feed.simps) simp
      moreover have "bm_ok config rx ry S (st\<lparr>bm_x := x, bm_bytes_to_send := ?b\<rparr>)"
        using bm_ok_write [OF less.prems w _ n(1), of ?b] \<open>w = 0\<close> by simp
      ultimately show ?thesis using err dead by (auto simp: bm_outcome_def)
    next
      case alive: False
      have "w = ?n"
        using bm_write_count [OF _ alive b(2), of ?n "buf_str ?b"] bm_ok_facts [OF less.prems assms(2)] w n
          buf_ok_str [OF b(1)] by (metis fst_conv min.cobounded1)
      let ?b' = "buf_drop ?b w" and ?st = "st\<lparr>bm_x := x, bm_bytes_to_send := buf_drop ?b w\<rparr>"
      have feed: "bm_feed ?x ?b = bm_feed x ?b'"
        using True w \<open>w = ?n\<close> by (subst bm_feed.simps) (simp add: buf_remove_prefix_def)
      have ok: "bm_ok config rx ry S ?st" using bm_ok_write [OF less.prems w _ n(1), of ?b'] \<open>w = ?n\<close> n(2) by simp
      have "length (buf_str ?b') < length (buf_str ?b)"
      proof -
        have "0 < unat w" "unat w \<le> length (buf_str ?b)" using n \<open>w = ?n\<close> by (metis unat_eq_0 gr0I, simp)
        then show ?thesis using buf_drop_spec [OF b(1), of w] by simp
      qed
      then show ?thesis using less.hyps [of ?st] ok feed by simp
    qed
  qed
qed

lemma bm_ok_close: "bm_ok config rx ry S st \<Longrightarrow> bm_ok config rx ry S (bm_close st)"
proof (cases "buf_size (bm_bytes_to_send st) = 0 \<and> \<not> bm_x_closed st")
  case True
  assume "bm_ok config rx ry S st"
  then obtain l where l: "bm_link config rx ry S st l" by (auto simp: bm_ok_def)
  have "length (buf_str (bm_bytes_to_send st)) = 0"
    using buf_size_nat [of "bm_bytes_to_send st"] l True by (simp add: bm_link_def)
  moreover have "link_step l (l\<lparr>lk_A := cn_end_input_stream (bm_x st), lk_written := lk_written l\<rparr>)"
    using l link_step.A_local [OF cn_local.ending, of l] by (simp add: bm_link_def)
  ultimately have "bm_link config rx ry S (bm_close st)
    (l\<lparr>lk_A := cn_end_input_stream (bm_x st), lk_written := lk_written l\<rparr>)"
    using l link_reach.step True by (auto simp: bm_link_def bm_close_def)
  then show ?thesis by (auto simp: bm_ok_def)
qed (auto simp: bm_close_def)

lemma bm_ok_exchange:
  assumes "bm_ok config rx ry S st"
  shows "bm_ok config rx ry S (bm_exchange reorder st)"
proof -
  let ?l0 = "link_start (TCPConnection config rx) (TCPConnection config ry)"
  let ?recv = "fold (\<lambda>seg y. cn_segment_received y seg)"
  obtain l where l: "bm_link config rx ry S st l" using assms by (auto simp: bm_ok_def)
  then have r: "link_reach ?l0 l" and x: "lk_A l = bm_x st" and y: "lk_B l = bm_y st" by (simp_all add: bm_link_def)
  let ?segs = "if reorder then rev (cn_segments_out (bm_x st)) else cn_segments_out (bm_x st)"
  let ?x = "(bm_x st)\<lparr>cn_segments_out := []\<rparr>" and ?y = "?recv ?segs (bm_y st)"
  let ?l1 = "l\<lparr>lk_A := ?x, lk_AB := rev (cn_segments_out (bm_x st)) @ lk_AB l, lk_B := ?y\<rparr>"
  have 1: "link_reach ?l0 ?l1"
    using link_B_receives_all [OF link_A_sends_all [OF r refl], of ?segs] x y by simp
  let ?l2 = "?l1\<lparr>lk_B := ?y\<lparr>cn_segments_out := []\<rparr>, lk_BA := cn_segments_out ?y\<rparr>"
  have 2: "link_reach ?l0 ?l2" using link_B_sends_all [OF 1 refl] l by (simp add: bm_link_def)
  let ?l3 = "?l2\<lparr>lk_A := ?recv (cn_segments_out ?y) ?x, lk_BA := []\<rparr>"
  have 3: "link_reach ?l0 ?l3" using link_A_receives_all [OF 2 refl] by simp
  have e: "bm_exchange reorder st = st\<lparr>bm_x := ?recv (cn_segments_out ?y) ?x, bm_y := ?y\<lparr>cn_segments_out := []\<rparr>\<rparr>"
    by (simp add: bm_exchange_def move_segments_def Let_def)
  have "bm_link config rx ry S (bm_exchange reorder st) ?l3"
    unfolding e using l 3 by (auto simp: bm_link_def cn_segments_received_ended) (auto simp: cn_out_ended_def)
  then show ?thesis by (auto simp: bm_ok_def)
qed

lemma bm_ok_read:
  assumes "bm_ok config rx ry S st"
  shows "bm_ok config rx ry S (bm_read st)"
proof -
  let ?n = "bs_buffer_size (cn_inbound_stream (bm_y st))"
  obtain out y where r: "cn_inbound_read (bm_y st) ?n = (out, y)" by fastforce
  obtain l where l: "bm_link config rx ry S st l" using assms by (auto simp: bm_ok_def)
  let ?l = "l\<lparr>lk_B := y, lk_read := lk_read l @ out\<rparr>"
  have "cn_inbound_read (lk_B l) ?n = (out, y)" using r l by (simp add: bm_link_def)
  from link_step.B_local [OF cn_local.reading [OF this]] have "link_step l ?l" by simp
  then have "bm_link config rx ry S (st\<lparr>bm_y := y, bm_received := bm_received st @ out\<rparr>) ?l"
    using l link_reach.step by (auto simp: bm_link_def)
  then show ?thesis using assms r by (auto simp: bm_ok_def bm_read_def Let_def)
qed

lemma bm_ok_tick:
  assumes "bm_ok config rx ry S st" and "bm_fits config S"
  obtains st' where "bm_tick st = (st', Inr ())" "bm_ok config rx ry S st'"
proof -
  obtain x where x: "cn_tick (bm_x st) 1000 = Inr x" using bm_ok_facts [OF assms] by blast
  obtain y where y: "cn_tick (bm_y st) 1000 = Inr y" using bm_ok_facts [OF assms] by blast
  obtain l where l: "bm_link config rx ry S st l" using assms by (auto simp: bm_ok_def)
  let ?l1 = "l\<lparr>lk_A := x\<rparr>" and ?l2 = "l\<lparr>lk_A := x, lk_B := y\<rparr>"
  have t: "cn_tick (lk_A l) 1000 = Inr x" "cn_tick (lk_B ?l1) 1000 = Inr y" using x y l by (simp_all add: bm_link_def)
  from link_step.A_local [OF cn_local.ticking [OF t(1)]] have 1: "link_step l ?l1" by simp
  from link_step.B_local [OF cn_local.ticking [OF t(2)]] have 2: "link_step ?l1 ?l2" by simp
  have "bm_link config rx ry S (st\<lparr>bm_x := x, bm_y := y\<rparr>) ?l2"
    using l link_reach.step [OF link_reach.step [OF _ 1] 2] cn_tick_ended [OF x] by (auto simp: bm_link_def)
  then show thesis using that [of "st\<lparr>bm_x := x, bm_y := y\<rparr>"] x y by (auto simp: bm_tick_def bm_ok_def)
qed

text \<open>One round returns and keeps the invariant; it throws only when the outbound stream of \<open>x\<close> is in error.\<close>

lemma bm_loop_spec:
  assumes "bm_ok config rx ry S st" and "bm_fits config S"
  shows "\<exists>st' r. bm_loop reorder st = Some (st', r) \<and> bm_ok config rx ry S st' \<and>
    bm_outcome (bm_x st') r"
proof -
  obtain x b r where f: "bm_feed (bm_x st) (bm_bytes_to_send st) = Some (x, b, r)"
    "bm_ok config rx ry S (st\<lparr>bm_x := x, bm_bytes_to_send := b\<rparr>)" "bm_outcome x r"
    using bm_feed_spec [OF assms] by blast
  let ?st = "bm_read (bm_exchange reorder (bm_close (st\<lparr>bm_x := x, bm_bytes_to_send := b\<rparr>)))"
  have "bm_ok config rx ry S ?st" by (intro bm_ok_read bm_ok_exchange bm_ok_close f(2))
  then obtain st' where "bm_tick ?st = (st', Inr ())" "bm_ok config rx ry S st'" using assms(2) by (rule bm_ok_tick)
  then show ?thesis using f by (cases r) (auto simp: bm_loop_def Let_def)
qed

lemma bm_iterate_spec:
  assumes "bm_ok config rx ry S st" and "bm_fits config S"
  shows "\<exists>st' r. bm_iterate n reorder st = Some (st', r) \<and> bm_ok config rx ry S st' \<and>
    bm_outcome (bm_x st') r"
  using assms(1)
proof (induction n arbitrary: st)
  case (Suc n)
  obtain st1 r1 where s: "bm_loop reorder st = Some (st1, r1)" "bm_ok config rx ry S st1"
    "bm_outcome (bm_x st1) r1"
    using bm_loop_spec [OF Suc.prems assms(2)] by blast
  then show ?case using Suc.IH [of st1] by (cases r1) auto
qed simp

lemma bm_while_spec:
  assumes "bm_while condition reorder st = Some (st', r)" and "bm_ok config rx ry S st" and "bm_fits config S"
  shows "bm_ok config rx ry S st' \<and>
    bm_outcome (bm_x st') r \<and> (r = Inr () \<longrightarrow> \<not> condition st')"
proof -
  have "bm_ok config rx ry S st \<longrightarrow> (case p of (st', r) \<Rightarrow> bm_ok config rx ry S st' \<and>
      bm_outcome (bm_x st') r \<and> (r = Inr () \<longrightarrow> \<not> condition st'))"
    if "bm_while condition reorder st = Some p" for p
    using that
  proof (induction rule: bm_while.raw_induct [rotated, consumes 1])
    case (1 w condition reorder st p)
    show ?case
    proof (intro impI)
      assume ok: "bm_ok config rx ry S st"
      obtain st1 r1 where s: "bm_loop reorder st = Some (st1, r1)" "bm_ok config rx ry S st1"
        "bm_outcome (bm_x st1) r1"
        using bm_loop_spec [OF ok assms(3)] by blast
      then show "case p of (st', r) \<Rightarrow> bm_ok config rx ry S st' \<and>
        bm_outcome (bm_x st') r \<and> (r = Inr () \<longrightarrow> \<not> condition st')"
        using 1 ok by (cases r1) (fastforce split: if_splits)+
    qed
  qed
  then show ?thesis using assms(1,2) by auto
qed

lemma bm_start_ok:
  assumes "bm_fits config S"
  shows "bm_ok config rx ry S (bm_start config S rx ry)"
proof -
  let ?l0 = "link_start (TCPConnection config rx) (TCPConnection config ry)"
  let ?l1 = "?l0\<lparr>lk_A := cn_connect (lk_A ?l0)\<rparr>"
  let ?l2 = "?l1\<lparr>lk_B := cn_end_input_stream (lk_B ?l1)\<rparr>"
  have "link_step ?l0 ?l1" using link_step.A_local [OF cn_local.connecting, of ?l0] by simp
  moreover have "link_step ?l1 ?l2" using link_step.B_local [OF cn_local.ending, of ?l1] by simp
  ultimately have "link_reach ?l0 ?l2" using link_reach.start link_reach.step by blast
  moreover have "\<not> cn_out_ended (cn_connect (TCPConnection config rx))"
    by (simp add: cn_out_ended_def cn_connect_def TCPConnection_def TCPSender_def ByteStream_def
        tx_fill_window_input_end)
  ultimately have "bm_link config rx ry S (bm_start config S rx ry) ?l2"
    using assms by (simp add: bm_link_def bm_start_def link_start_def bm_fits_def str_ok_def)
  then show ?thesis by (auto simp: bm_ok_def)
qed

lemma bm_ok_received:
  assumes "bm_ok config rx ry S st" and "bm_fits config S"
  shows "prefix (bm_received st) S" and "bs_eof (cn_inbound_stream (bm_y st)) \<Longrightarrow> bm_received st = S"
proof -
  have "rx_delivered S (bm_received st) (cn_receiver (bm_y st))" using bm_ok_facts [OF assms] by blast
  then show "prefix (bm_received st) S" "bs_eof (cn_inbound_stream (bm_y st)) \<Longrightarrow> bm_received st = S"
    by (auto simp: rx_delivered_def cn_inbound_stream_def bs_eof_def bs_input_ended_def bs_buffer_empty_def
        dest: append_prefixD)
qed

section \<open>Properties\<close>

text \<open>
  C17. The benchmark moves the string: for every string that fits the sequence numbers (the 100 MiB of the
  program do), both orders of delivery and all initial sequence numbers, every number of rounds is
  executed and returns; what was received is a prefix of the string, and the whole string once \<open>y\<close> sees
  the end of its stream; a round throws nothing but the message
  of a short write, and that only after \<open>x\<close> was reset. So the program
  never reports that the strings do not match.
\<close>

theorem bm_strings_match:
  assumes "length S + 2 < 2 ^ 31" and "unat (cfg_recv_capacity config) < 2 ^ 63"
  shows "(\<exists>st r. bm_iterate n reorder (bm_start config S rx ry) = Some (st, r) \<and> prefix (bm_received st) S \<and>
      (bs_eof (cn_inbound_stream (bm_y st)) \<longrightarrow> bm_received st = S) \<and>
      bm_outcome (bm_x st) r) \<and>
    bm_main_loop reorder config S rx ry \<noteq> Some (Inl bm_mismatch)"
proof -
  have fits: "bm_fits config S" using assms by (simp add: bm_fits_def)
  have ok: "bm_ok config rx ry S (bm_start config S rx ry)" by (rule bm_start_ok [OF fits])
  obtain st r where n: "bm_iterate n reorder (bm_start config S rx ry) = Some (st, r)" "bm_ok config rx ry S st"
    "bm_outcome (bm_x st) r"
    using bm_iterate_spec [OF ok fits] by blast
  have "bm_main_loop reorder config S rx ry \<noteq> Some (Inl bm_mismatch)"
  proof (cases "bm_while (\<lambda>st. \<not> bs_eof (cn_inbound_stream (bm_y st))) reorder (bm_start config S rx ry)")
    case (Some p)
    then obtain st1 r1 where w: "bm_while (\<lambda>st. \<not> bs_eof (cn_inbound_stream (bm_y st))) reorder (bm_start config S rx ry) =
      Some (st1, r1)" by (cases p) auto
    note w1 = bm_while_spec [OF w ok fits]
    have "bm_received st1 = S" if "r1 = Inr ()" using w1 that bm_ok_received(2) [OF _ fits] by blast
    moreover have "bm_while c reorder st1 \<noteq> Some (st2, Inl bm_mismatch)" for c st2
      using w1 bm_while_spec [OF _ _ fits, of c reorder st1 st2 "Inl bm_mismatch"] by auto
    ultimately show ?thesis using w w1 by (cases r1) (auto simp: bm_main_loop_def split: option.split)
  qed (simp add: bm_main_loop_def)
  with n bm_ok_received [OF n(2) fits] show ?thesis by blast
qed

text \<open>Two bytes, segments in reverse order: after three rounds the whole string has arrived.\<close>

definition bm_example_config :: tcp_config where
  "bm_example_config = TCPConfig\<lparr>cfg_recv_capacity := 10, cfg_send_capacity := 10\<rparr>"

theorem bm_strings_match_witness:
  "\<exists>st r. bm_iterate 3 True (bm_start bm_example_config [7, 8] 5 77) = Some (st, r) \<and> bm_received st = [7, 8]"
proof -
  have "unat (cfg_recv_capacity bm_example_config) < 2 ^ 63" by (simp add: bm_example_config_def)
  with bm_strings_match [of "[7, 8]" bm_example_config 3 True 5 77]
  obtain st r where st: "bm_iterate 3 True (bm_start bm_example_config [7, 8] 5 77) = Some (st, r)"
    "bs_eof (cn_inbound_stream (bm_y st)) \<longrightarrow> bm_received st = [7, 8]" by auto
  have "map_option (\<lambda>(st, r). bs_eof (cn_inbound_stream (bm_y st)))
    (bm_iterate 3 True (bm_start bm_example_config [7, 8] 5 77)) = Some True" by code_simp
  then have "bs_eof (cn_inbound_stream (bm_y st))" using st(1) by simp
  then show ?thesis using st by blast
qed

end
