(* ===== verification/Stream_Copy.thy ===== *)
theory Stream_Copy
  imports Kernel_Frames
begin

text \<open>
  \<open>apps/bidirectional_stream_copy.cc\<close>: the event loop that copies standard input to a socket and the socket to
  standard output, with a byte stream between the two descriptors of each direction. The destructors
  of the two standard descriptors, which close them when the function is left, follow on the state
  given here.
\<close>

section \<open>The program\<close>

definition max_copy_length :: u64 where "max_copy_length = 65536"
definition cp_buffer_size :: u64 where "cp_buffer_size = 1048576"
definition STDIN_FILENO :: int where "STDIN_FILENO = 0"
definition STDOUT_FILENO :: int where "STDOUT_FILENO = 1"

record 'k copy =
  cp_kernel :: 'k
  cp_socket :: fd_wrapper
  cp_input :: fd_wrapper
  cp_output :: fd_wrapper
  cp_outbound :: byte_stream
  cp_inbound :: byte_stream
  cp_outbound_shutdown :: bool
  cp_inbound_shutdown :: bool

text \<open>The local variables, then the three descriptors set not to block.\<close>

definition cp_start :: "'k kernel \<Rightarrow> 'k \<Rightarrow> fd_wrapper \<Rightarrow> 'k \<times> (exn + 'k copy)" where
  "cp_start K k socket =
    (case FDWrapper STDIN_FILENO of
       Inl e \<Rightarrow> (k, Inl e)
     | Inr input \<Rightarrow>
    (case FDWrapper STDOUT_FILENO of
       Inl e \<Rightarrow> (k, Inl e)
     | Inr output \<Rightarrow>
    (case fd_set_blocking K k socket False of
       (k, Inl e) \<Rightarrow> (k, Inl e)
     | (k, Inr _) \<Rightarrow>
    (case fd_set_blocking K k input False of
       (k, Inl e) \<Rightarrow> (k, Inl e)
     | (k, Inr _) \<Rightarrow>
    (case fd_set_blocking K k output False of
       (k, Inl e) \<Rightarrow> (k, Inl e)
     | (k, Inr _) \<Rightarrow>
         (k, Inr \<lparr>cp_kernel = k, cp_socket = socket, cp_input = input, cp_output = output,
                  cp_outbound = ByteStream cp_buffer_size, cp_inbound = ByteStream cp_buffer_size,
                  cp_outbound_shutdown = False, cp_inbound_shutdown = False\<rparr>))))))"

text \<open>Rule 1: from standard input into the outbound stream.\<close>

definition cp_rule1 :: "'k kernel \<Rightarrow> 'k copy \<Rightarrow> 'k copy \<times> (exn + unit)" where
  "cp_rule1 K w =
    (let (k, f, r) = fd_read K (cp_kernel w) (cp_input w) (bs_remaining_capacity (cp_outbound w));
         w = w\<lparr>cp_kernel := k, cp_input := f\<rparr>
     in case r of
          Inl e \<Rightarrow> (w, Inl e)
        | Inr data \<Rightarrow>
            let w = w\<lparr>cp_outbound := snd (bs_write (cp_outbound w) data)\<rparr>
            in (if fw_eof f then w\<lparr>cp_outbound := bs_end_input (cp_outbound w)\<rparr> else w, Inr ()))"

text \<open>Rule 2: from the outbound stream into the socket.\<close>

definition cp_rule2 :: "'k kernel \<Rightarrow> 'k copy \<Rightarrow> 'k copy \<times> (exn + unit)" where
  "cp_rule2 K w =
    (let bytes_to_write = min max_copy_length (bs_buffer_size (cp_outbound w));
         (k, f, r) = fd_write K (cp_kernel w) (cp_socket w)
                       (BufferViewList (bs_peek_output (cp_outbound w) bytes_to_write)) False;
         w = w\<lparr>cp_kernel := k, cp_socket := f\<rparr>
     in case r of
          Inl e \<Rightarrow> (w, Inl e)
        | Inr bytes_written \<Rightarrow>
            let w = w\<lparr>cp_outbound := bs_pop_output (cp_outbound w) bytes_written\<rparr>
            in if bs_eof (cp_outbound w)
               then case so_shutdown K k f SHUT_WR of
                      (k, f, Inl e) \<Rightarrow> (w\<lparr>cp_kernel := k, cp_socket := f\<rparr>, Inl e)
                    | (k, f, Inr _) \<Rightarrow> (w\<lparr>cp_kernel := k, cp_socket := f, cp_outbound_shutdown := True\<rparr>, Inr ())
               else (w, Inr ()))"

text \<open>Rule 3: from the socket into the inbound stream.\<close>

definition cp_rule3 :: "'k kernel \<Rightarrow> 'k copy \<Rightarrow> 'k copy \<times> (exn + unit)" where
  "cp_rule3 K w =
    (let (k, f, r) = fd_read K (cp_kernel w) (cp_socket w) (bs_remaining_capacity (cp_inbound w));
         w = w\<lparr>cp_kernel := k, cp_socket := f\<rparr>
     in case r of
          Inl e \<Rightarrow> (w, Inl e)
        | Inr data \<Rightarrow>
            let w = w\<lparr>cp_inbound := snd (bs_write (cp_inbound w) data)\<rparr>
            in (if fw_eof f then w\<lparr>cp_inbound := bs_end_input (cp_inbound w)\<rparr> else w, Inr ()))"

text \<open>Rule 4: from the inbound stream to standard output.\<close>

definition cp_rule4 :: "'k kernel \<Rightarrow> 'k copy \<Rightarrow> 'k copy \<times> (exn + unit)" where
  "cp_rule4 K w =
    (let bytes_to_write = min max_copy_length (bs_buffer_size (cp_inbound w));
         (k, f, r) = fd_write K (cp_kernel w) (cp_output w)
                       (BufferViewList (bs_peek_output (cp_inbound w) bytes_to_write)) False;
         w = w\<lparr>cp_kernel := k, cp_output := f\<rparr>
     in case r of
          Inl e \<Rightarrow> (w, Inl e)
        | Inr bytes_written \<Rightarrow>
            let w = w\<lparr>cp_inbound := bs_pop_output (cp_inbound w) bytes_written\<rparr>
            in if bs_eof (cp_inbound w)
               then case fd_close K k f of
                      (k, f, Inl e) \<Rightarrow> (w\<lparr>cp_kernel := k, cp_output := f\<rparr>, Inl e)
                    | (k, f, Inr _) \<Rightarrow> (w\<lparr>cp_kernel := k, cp_output := f, cp_inbound_shutdown := True\<rparr>, Inr ())
               else (w, Inr ()))"

definition cp_end_outbound :: "'k copy \<Rightarrow> 'k copy \<times> (exn + unit)" where
  "cp_end_outbound w = (w\<lparr>cp_outbound := bs_end_input (cp_outbound w)\<rparr>, Inr ())"

definition cp_end_inbound :: "'k copy \<Rightarrow> 'k copy \<times> (exn + unit)" where
  "cp_end_inbound w = (w\<lparr>cp_inbound := bs_end_input (cp_inbound w)\<rparr>, Inr ())"

definition cp_rules :: "'k kernel \<Rightarrow> 'k copy rule list" where
  "cp_rules K = fold (\<lambda>r rules. el_add_rule rules r)
    [\<lparr>ru_fd = cp_input, ru_direction = Dir_In, ru_callback = cp_rule1 K,
      ru_interest = \<lambda>w. \<not> bs_error (cp_outbound w) \<and> bs_remaining_capacity (cp_outbound w) > 0 \<and> \<not> bs_error (cp_inbound w),
      ru_cancel = cp_end_outbound\<rparr>,
     \<lparr>ru_fd = cp_socket, ru_direction = Dir_Out, ru_callback = cp_rule2 K,
      ru_interest = \<lambda>w. \<not> bs_buffer_empty (cp_outbound w) \<or> bs_eof (cp_outbound w) \<and> \<not> cp_outbound_shutdown w,
      ru_cancel = cp_end_outbound\<rparr>,
     \<lparr>ru_fd = cp_socket, ru_direction = Dir_In, ru_callback = cp_rule3 K,
      ru_interest = \<lambda>w. \<not> bs_error (cp_inbound w) \<and> bs_remaining_capacity (cp_inbound w) > 0 \<and> \<not> bs_error (cp_outbound w),
      ru_cancel = cp_end_inbound\<rparr>,
     \<lparr>ru_fd = cp_output, ru_direction = Dir_Out, ru_callback = cp_rule4 K,
      ru_interest = \<lambda>w. \<not> bs_buffer_empty (cp_inbound w) \<or> bs_eof (cp_inbound w) \<and> \<not> cp_inbound_shutdown w,
      ru_cancel = cp_end_inbound\<rparr>] []"

definition cp_poll :: "'k kernel \<Rightarrow> 'k copy poller" where
  "cp_poll K w fds t = (let (k, ret, revents) = sys_poll K (cp_kernel w) fds t in (w\<lparr>cp_kernel := k\<rparr>, ret, revents))"

text \<open>The loop may run forever, for which the value is \<open>None\<close>.\<close>

partial_function (option) cp_loop ::
    "'k kernel \<Rightarrow> 'k copy \<Rightarrow> 'k copy rule list \<Rightarrow> ('k copy \<times> 'k copy rule list \<times> (exn + unit)) option" where
  [code]: "cp_loop K w rules =
    (case wait_next_event (cp_poll K) rules w (-1) of
       (w, rules, Inl e) \<Rightarrow> Some (w, rules, Inl e)
     | (w, rules, Inr ret) \<Rightarrow> if ret = Result_Exit then Some (w, rules, Inr ()) else cp_loop K w rules)"

definition bidirectional_stream_copy :: "'k kernel \<Rightarrow> 'k \<Rightarrow> fd_wrapper \<Rightarrow> ('k \<times> fd_wrapper \<times> (exn + unit)) option" where
  "bidirectional_stream_copy K k socket =
    (case cp_start K k socket of
       (k, Inl e) \<Rightarrow> Some (k, socket, Inl e)
     | (_, Inr w) \<Rightarrow>
         (case cp_loop K w (cp_rules K) of
            None \<Rightarrow> None
          | Some (w, _, r) \<Rightarrow> Some (cp_kernel w, cp_socket w, r)))"

text \<open>The first \<open>n\<close> rounds of the loop; \<open>Inr True\<close> means that it was left.\<close>

fun cp_rounds :: "nat \<Rightarrow> 'k kernel \<Rightarrow> 'k copy \<Rightarrow> 'k copy rule list \<Rightarrow> 'k copy \<times> 'k copy rule list \<times> (exn + bool)" where
  "cp_rounds 0 K w rules = (w, rules, Inr False)"
| "cp_rounds (Suc n) K w rules =
    (case wait_next_event (cp_poll K) rules w (-1) of
       (w, rules, Inl e) \<Rightarrow> (w, rules, Inl e)
     | (w, rules, Inr ret) \<Rightarrow> if ret = Result_Exit then (w, rules, Inr True) else cp_rounds n K w rules)"

section \<open>What the program relies on\<close>

text \<open>
  Documented behaviour of the kernel: \<open>got k fd\<close> is what \<open>read\<close> has delivered from a descriptor, \<open>acc k fd\<close> what it
  has accepted on one. \<open>read\<close> fails with a positive \<open>errno\<close>, or delivers what it returns, at most as much as
  asked for; no other call of the loop delivers or (besides \<open>writev\<close>) accepts data.
\<close>

definition kernel_copies :: "'k kernel \<Rightarrow> ('k \<Rightarrow> int \<Rightarrow> bytes) \<Rightarrow> ('k \<Rightarrow> int \<Rightarrow> bytes) \<Rightarrow> bool" where
  "kernel_copies K acc got \<longleftrightarrow> kernel_accounts K acc \<and> kernel_reads K \<and>
    (\<forall>k fd n. case sys_read K k fd n of (k', (ret, errno), stored) \<Rightarrow>
       got k' = (if ret < 0 then got k else (got k)(fd := got k fd @ stored))) \<and>
    (\<forall>k fd iov. got (fst (sys_writev K k fd iov)) = got k) \<and> (\<forall>k fd how. got (fst (sys_shutdown K k fd how)) = got k) \<and>
    (\<forall>k fd. got (fst (sys_close K k fd)) = got k \<and> acc (fst (sys_close K k fd)) = acc k) \<and>
    (\<forall>k fds t. got (fst (sys_poll K k fds t)) = got k) \<and>
    (\<forall>k fd. got (fst (sys_getfl K k fd)) = got k \<and> acc (fst (sys_getfl K k fd)) = acc k) \<and>
    (\<forall>k fd n. got (fst (sys_setfl K k fd n)) = got k \<and> acc (fst (sys_setfl K k fd n)) = acc k)"

lemma script_kernel_copies: "kernel_copies script_kernel sc_out sc_in"
  unfolding kernel_copies_def
  by (intro conjI script_kernel_accounts script_kernel_reads) (auto simp: script_kernel_def Let_def split: list.split)

lemma kernel_copiesD:
  assumes "kernel_copies K acc got"
  shows "kernel_accounts K acc" "kernel_reads K" "got (fst (sys_writev K k fd iov)) = got k"
    "got (fst (sys_shutdown K k fd how)) = got k" "got (fst (sys_close K k fd)) = got k"
    "acc (fst (sys_close K k fd)) = acc k" "got (fst (sys_poll K k fds t)) = got k"
    "got (fst (sys_getfl K k fd)) = got k" "acc (fst (sys_getfl K k fd)) = acc k"
    "got (fst (sys_setfl K k fd n)) = got k" "acc (fst (sys_setfl K k fd n)) = acc k"
  using assms by (simp_all add: kernel_copies_def)

text \<open>A read delivers what it returns; a single write accepts what it reports and delivers nothing.\<close>

lemma fd_read_delivers:
  assumes "kernel_copies K acc got" and "fd_read K k f limit = (k', f', r)"
  shows "fw_fd f' = fw_fd f \<and> acc k' = acc k \<and>
    (case r of Inl e \<Rightarrow> got k' = got k \<and> e \<noteq> el_busy_wait
     | Inr data \<Rightarrow> length data \<le> unat limit \<and> got k' = (got k)(fw_fd f := got k (fw_fd f) @ data) \<and>
         fw_read_count f' = fw_read_count f + 1)"
proof -
  let ?n = "min READ_BUFFER_SIZE limit"
  obtain k1 ret errno stored where s: "sys_read K k (fw_fd f) ?n = (k1, (ret, errno), stored)" by (metis surj_pair)
  have n: "unat ?n \<le> 1048576" by (auto simp: min_def word_le_nat_alt READ_BUFFER_SIZE_def)
  have g: "got k1 = (if ret < 0 then got k else (got k)(fw_fd f := got k (fw_fd f) @ stored))"
    using assms(1) s unfolding kernel_copies_def by (metis (mono_tags, lifting) case_prod_conv)
  have acc: "acc k1 = acc k"
    using kernel_accountsD(2) [OF kernel_copiesD(1) [OF assms(1)], of k "fw_fd f" ?n] s by simp
  have "ret = -1 \<and> errno > 0 \<or> ret = int (length stored) \<and> length stored \<le> unat ?n"
    using kernel_copiesD(2) [OF assms(1)] s unfolding kernel_reads_def by (metis (mono_tags, lifting) case_prod_conv)
  then show ?thesis
  proof
    assume e: "ret = -1 \<and> errno > 0"
    then have "fd_read K k f limit = (k1, f, Inl (System_Error ''read'' errno))"
      by (simp add: fd_read_def s SystemCall_failed)
    then show ?thesis using assms(2) g e acc by (auto simp: el_busy_wait_def)
  next
    assume e: "ret = int (length stored) \<and> length stored \<le> unat ?n"
    have "SystemCall ''read'' (ret, errno) 0 = Inr ret" using e n by (intro SystemCall_returned) simp_all
    moreover have "sint ?n = int (unat ?n)" by (rule sint_u64_small) (rule le_less_trans [OF n], simp)
    then have "\<not> sint ?n < ret" using e by (simp only: not_less of_nat_le_iff)
    moreover have "str_resize stored (of_nat (length stored)) = stored"
      using e n by (intro str_resize_all) (simp add: str_ok_def)
    ultimately have "r = Inr stored" "k' = k1" "fw_fd f' = fw_fd f" "fw_read_count f' = fw_read_count f + 1"
      using assms(2) e by (auto simp: fd_read_def s Let_def split: if_splits)
    moreover have "unat ?n \<le> unat limit" by (simp add: min_def word_le_nat_alt)
    ultimately show ?thesis using g e acc by simp
  qed
qed

section \<open>One direction\<close>

text \<open>
  The state of one direction. Since the start, at which the log of the source was \<open>G\<close> and that of the
  destination \<open>A\<close>, the bytes \<open>g\<close> were delivered and the bytes \<open>a\<close> accepted: these and the bytes in the
  stream are a prefix of \<open>g\<close>, and all of \<open>g\<close> as long as the stream is open.
\<close>

definition cp_flow :: "byte_stream \<Rightarrow> bytes \<Rightarrow> bytes \<Rightarrow> bytes \<Rightarrow> bytes \<Rightarrow> bool" where
  "cp_flow s G A got acc \<longleftrightarrow> bs_inv s \<and> bs_capacity s = cp_buffer_size \<and>
    (\<exists>g a. got = G @ g \<and> acc = A @ a \<and> prefix (a @ bs_buffer s) g \<and>
       (bs_closed s \<or> a @ bs_buffer s = g))"

lemma cp_flow_start: "cp_flow (ByteStream cp_buffer_size) G A G A"
  by (simp add: cp_flow_def) (simp add: ByteStream_def)

lemma cp_flow_end: "cp_flow s G A got acc \<Longrightarrow> cp_flow (bs_end_input s) G A got acc"
  by (auto simp: cp_flow_def) (auto simp: bs_end_input_def bs_closed_def)

lemma cp_flow_write:
  assumes "cp_flow s G A got acc" and "length data \<le> unat (bs_remaining_capacity s)"
  shows "cp_flow (snd (bs_write s data)) G A (got @ data) acc"
proof -
  have i: "bs_inv s" using assms(1) by (simp add: cp_flow_def)
  have u: "unat (str_size data) = length data"
    using assms(2) unsigned_less [of "bs_remaining_capacity s", where ?'a = nat]
    by (simp add: unat_str_size)
  have n: "unat (fst (bs_write s data)) = (if bs_closed s then 0 else length data)"
    using assms(2) u by (simp add: bs_write_count_raw [OF i] unat_bs_remaining_capacity [OF i])
  then have "bs_buffer (snd (bs_write s data)) = bs_buffer s @ (if bs_closed s then [] else data)"
    by (subst bs_write_state) simp
  moreover obtain g a where "got = G @ g" "acc = A @ a" "prefix (a @ bs_buffer s) g" "bs_closed s \<or> a @ bs_buffer s = g"
    using assms(1) by (auto simp: cp_flow_def)
  ultimately show ?thesis
    using assms(1) bs_write_inv [OF i, of data]
    by (auto simp: cp_flow_def bs_closed_def intro!: exI [of _ "g @ data"] exI [of _ a])
qed

lemma cp_flow_pop:
  assumes "cp_flow s G A got acc" and "m \<le> length (bs_peek_output s (min 65536 n))"
  shows "cp_flow (bs_pop_output s (of_nat m)) G A got (acc @ take m (bs_peek_output s (min 65536 n)))"
proof -
  have "take m (bs_peek_output s (min 65536 n)) @ bs_buffer (bs_pop_output s (of_nat m)) = bs_buffer s"
    using bs_peek_pop peek_take [OF assms(2)] by simp
  moreover obtain g a where "got = G @ g" "acc = A @ a" "prefix (a @ bs_buffer s) g" "bs_closed s \<or> a @ bs_buffer s = g"
    using assms(1) by (auto simp: cp_flow_def)
  ultimately show ?thesis
    using assms(1) bs_pop_inv [of s "of_nat m"] unfolding cp_flow_def
    by (intro conjI exI [of _ g] exI [of _ "a @ take m (bs_peek_output s (min 65536 n))"])
      (auto simp: bs_closed_def bs_pop_output_def)
qed

lemma fd_write_accepts:
  assumes "kernel_copies K acc got" and "buf = bs_peek_output s (min max_copy_length n)"
    and "fd_write K k f (BufferViewList buf) False = (k', f', r)"
  shows "fw_fd f' = fw_fd f \<and> got k' = got k \<and>
    (case r of Inl e \<Rightarrow> acc k' = acc k \<and> e \<noteq> el_busy_wait
     | Inr b \<Rightarrow> \<exists>m \<le> length buf. b = of_nat m \<and> acc k' = (acc k)(fw_fd f := acc k (fw_fd f) @ take m buf) \<and>
         fw_write_count f' = fw_write_count f + 1)"
proof -
  have "length buf \<le> 65536" using assms(2) peek_bound by (simp add: max_copy_length_def)
  then have ok: "str_ok buf" by (simp add: str_ok_def)
  have "k' = fst (sys_writev K k (fw_fd f) (bvl_as_iovecs [buf]))"
    using assms(3) by (auto simp: fd_write_def fd_write_loop.simps BufferViewList_def Let_def
      split: sum.splits prod.splits if_splits)
  then have got: "got k' = got k" using kernel_copiesD(3) [OF assms(1)] by simp
  have w: "kernel_writes K acc" using kernel_accountsD(1) [OF kernel_copiesD(1) [OF assms(1)]] .
  from w ok show ?thesis
  proof (cases rule: fd_write_once [where k = k and f = f])
    case (failed k1 errno)
    then show ?thesis using assms(3) got by (auto simp: BufferViewList_def el_busy_wait_def)
  next
    case (wrote k1 m)
    then show ?thesis using assms(3) got by (auto simp: BufferViewList_def)
  qed
qed

section \<open>The rules keep both directions\<close>

definition cp_inv :: "('k \<Rightarrow> int \<Rightarrow> bytes) \<Rightarrow> ('k \<Rightarrow> int \<Rightarrow> bytes) \<Rightarrow> int \<Rightarrow> 'k \<Rightarrow> 'k copy \<Rightarrow> bool" where
  "cp_inv acc got s k0 w \<longleftrightarrow>
    fw_fd (cp_input w) = STDIN_FILENO \<and> fw_fd (cp_output w) = STDOUT_FILENO \<and> fw_fd (cp_socket w) = s \<and>
    cp_flow (cp_outbound w) (got k0 STDIN_FILENO) (acc k0 s) (got (cp_kernel w) STDIN_FILENO) (acc (cp_kernel w) s) \<and>
    cp_flow (cp_inbound w) (got k0 s) (acc k0 STDOUT_FILENO) (got (cp_kernel w) s) (acc (cp_kernel w) STDOUT_FILENO)"

locale copy_host =
  fixes K :: "'k kernel" and acc got :: "'k \<Rightarrow> int \<Rightarrow> bytes" and s :: int and k0 :: 'k
  assumes kernel: "kernel_copies K acc got" and not_stdin: "s \<noteq> STDIN_FILENO" and not_stdout: "s \<noteq> STDOUT_FILENO"
begin

lemma rule1_keeps:
  assumes i: "cp_inv acc got s k0 w" and c: "cp_rule1 K w = (w', r)"
  shows "cp_inv acc got s k0 w'" and "r \<noteq> Inl el_busy_wait"
    and "r = Inr () \<Longrightarrow> fw_read_count (cp_input w') = fw_read_count (cp_input w) + 1"
proof -
  obtain k f d where rd: "fd_read K (cp_kernel w) (cp_input w) (bs_remaining_capacity (cp_outbound w)) = (k, f, d)"
    by (metis surj_pair)
  note x = fd_read_delivers [OF kernel rd]
  have "cp_inv acc got s k0 w' \<and> r \<noteq> Inl el_busy_wait \<and>
    (r = Inr () \<longrightarrow> fw_read_count (cp_input w') = fw_read_count (cp_input w) + 1)"
    using i c x not_stdin
    by (cases d) (auto simp: cp_rule1_def rd cp_inv_def Let_def intro!: cp_flow_end cp_flow_write split: if_splits)
  then show "cp_inv acc got s k0 w'" "r \<noteq> Inl el_busy_wait"
    "r = Inr () \<Longrightarrow> fw_read_count (cp_input w') = fw_read_count (cp_input w) + 1" by simp_all
qed

lemma rule3_keeps:
  assumes i: "cp_inv acc got s k0 w" and c: "cp_rule3 K w = (w', r)"
  shows "cp_inv acc got s k0 w'" and "r \<noteq> Inl el_busy_wait"
    and "r = Inr () \<Longrightarrow> fw_read_count (cp_socket w') = fw_read_count (cp_socket w) + 1"
proof -
  obtain k f d where rd: "fd_read K (cp_kernel w) (cp_socket w) (bs_remaining_capacity (cp_inbound w)) = (k, f, d)"
    by (metis surj_pair)
  note x = fd_read_delivers [OF kernel rd]
  have "cp_inv acc got s k0 w' \<and> r \<noteq> Inl el_busy_wait \<and>
    (r = Inr () \<longrightarrow> fw_read_count (cp_socket w') = fw_read_count (cp_socket w) + 1)"
    using i c x not_stdin
    by (cases d) (auto simp: cp_rule3_def rd cp_inv_def Let_def intro!: cp_flow_end cp_flow_write split: if_splits)
  then show "cp_inv acc got s k0 w'" "r \<noteq> Inl el_busy_wait"
    "r = Inr () \<Longrightarrow> fw_read_count (cp_socket w') = fw_read_count (cp_socket w) + 1" by simp_all
qed

lemma rule2_keeps:
  assumes i: "cp_inv acc got s k0 w" and c: "cp_rule2 K w = (w', r)"
  shows "cp_inv acc got s k0 w'" and "r \<noteq> Inl el_busy_wait"
    and "r = Inr () \<Longrightarrow> fw_write_count (cp_socket w') \<noteq> fw_write_count (cp_socket w)"
proof -
  let ?buf = "bs_peek_output (cp_outbound w) (min max_copy_length (bs_buffer_size (cp_outbound w)))"
  obtain k f d where wr: "fd_write K (cp_kernel w) (cp_socket w) (BufferViewList ?buf) False = (k, f, d)"
    by (metis surj_pair)
  note x = fd_write_accepts [OF kernel refl wr]
  then have x': "fw_fd f = fw_fd (cp_socket w)" "got k = got (cp_kernel w)" by simp_all
  obtain k1 f1 d1 where sh: "so_shutdown K k f SHUT_WR = (k1, f1, d1)" by (metis surj_pair)
  have y: "fw_fd f1 = fw_fd f" "acc k1 = acc k" "got k1 = got k" "d1 \<noteq> Inl el_busy_wait"
    "d1 = Inr () \<Longrightarrow> f1 = fd_register_write f"
    using so_shutdown_frame [OF sh] kernel_copiesD(4) [OF kernel] kernel_accountsD(3) [OF kernel_copiesD(1) [OF kernel]]
    by auto
  have pop: "cp_flow (bs_pop_output (cp_outbound w) (of_nat m)) (got k0 STDIN_FILENO) (acc k0 s)
      (got (cp_kernel w) STDIN_FILENO) (acc (cp_kernel w) s @ take m ?buf)" if "m \<le> length ?buf" for m
    using i that cp_flow_pop [of "cp_outbound w" _ _ _ _ m "bs_buffer_size (cp_outbound w)"]
    by (simp add: cp_inv_def max_copy_length_def)
  have "cp_inv acc got s k0 w' \<and> r \<noteq> Inl el_busy_wait \<and>
    (r = Inr () \<longrightarrow> fw_write_count (cp_socket w') \<noteq> fw_write_count (cp_socket w))"
  proof (cases d)
    case (Inl e)
    then show ?thesis using i c x by (auto simp: cp_rule2_def wr cp_inv_def Let_def)
  next
    case (Inr b)
    with x obtain m where m: "m \<le> length ?buf" "b = of_nat m" "fw_write_count f = fw_write_count (cp_socket w) + 1"
      "acc k = (acc (cp_kernel w))(s := acc (cp_kernel w) s @ take m ?buf)" using i by (auto simp: cp_inv_def)
    then show ?thesis
      using i c x' y pop [OF m(1)] not_stdout Inr
      by (cases d1) (auto simp: cp_rule2_def wr sh cp_inv_def Let_def split: if_splits)
  qed
  then show "cp_inv acc got s k0 w'" "r \<noteq> Inl el_busy_wait"
    "r = Inr () \<Longrightarrow> fw_write_count (cp_socket w') \<noteq> fw_write_count (cp_socket w)" by simp_all
qed

lemma rule4_keeps:
  assumes i: "cp_inv acc got s k0 w" and c: "cp_rule4 K w = (w', r)"
  shows "cp_inv acc got s k0 w'" and "r \<noteq> Inl el_busy_wait"
    and "r = Inr () \<Longrightarrow> fw_write_count (cp_output w') = fw_write_count (cp_output w) + 1"
proof -
  let ?buf = "bs_peek_output (cp_inbound w) (min max_copy_length (bs_buffer_size (cp_inbound w)))"
  obtain k f d where wr: "fd_write K (cp_kernel w) (cp_output w) (BufferViewList ?buf) False = (k, f, d)"
    by (metis surj_pair)
  note x = fd_write_accepts [OF kernel refl wr]
  then have x': "fw_fd f = fw_fd (cp_output w)" "got k = got (cp_kernel w)" by simp_all
  obtain k1 f1 d1 where cl: "fd_close K k f = (k1, f1, d1)" by (metis surj_pair)
  have y: "fw_fd f1 = fw_fd f" "acc k1 = acc k" "got k1 = got k" "d1 \<noteq> Inl el_busy_wait"
    "fw_write_count f1 = fw_write_count f"
    using cl kernel_copiesD(5,6) [OF kernel, of k "fw_fd f"]
    by (auto simp: fd_close_def Let_def SystemCall_def el_busy_wait_def split: prod.splits if_splits)
  have pop: "cp_flow (bs_pop_output (cp_inbound w) (of_nat m)) (got k0 s) (acc k0 STDOUT_FILENO)
      (got (cp_kernel w) s) (acc (cp_kernel w) STDOUT_FILENO @ take m ?buf)" if "m \<le> length ?buf" for m
    using i that cp_flow_pop [of "cp_inbound w" _ _ _ _ m "bs_buffer_size (cp_inbound w)"]
    by (simp add: cp_inv_def max_copy_length_def)
  have "cp_inv acc got s k0 w' \<and> r \<noteq> Inl el_busy_wait \<and>
    (r = Inr () \<longrightarrow> fw_write_count (cp_output w') = fw_write_count (cp_output w) + 1)"
  proof (cases d)
    case (Inl e)
    then show ?thesis using i c x by (auto simp: cp_rule4_def wr cp_inv_def Let_def)
  next
    case (Inr b)
    with x obtain m where m: "m \<le> length ?buf" "b = of_nat m" "fw_write_count f = fw_write_count (cp_output w) + 1"
      "acc k = (acc (cp_kernel w))(STDOUT_FILENO := acc (cp_kernel w) STDOUT_FILENO @ take m ?buf)"
      using i by (auto simp: cp_inv_def)
    then show ?thesis
      using i c x' y pop [OF m(1)] not_stdout Inr
      by (cases d1) (auto simp: cp_rule4_def wr cl cp_inv_def Let_def split: if_splits)
  qed
  then show "cp_inv acc got s k0 w'" "r \<noteq> Inl el_busy_wait"
    "r = Inr () \<Longrightarrow> fw_write_count (cp_output w') = fw_write_count (cp_output w) + 1" by simp_all
qed

end

lemma cp_rule_cases:
  assumes "r \<in> set (cp_rules K)"
  obtains (rule1) "ru_fd r = cp_input" "ru_direction r = Dir_In" "ru_callback r = cp_rule1 K" "ru_cancel r = cp_end_outbound"
  | (rule2) "ru_fd r = cp_socket" "ru_direction r = Dir_Out" "ru_callback r = cp_rule2 K" "ru_cancel r = cp_end_outbound"
  | (rule3) "ru_fd r = cp_socket" "ru_direction r = Dir_In" "ru_callback r = cp_rule3 K" "ru_cancel r = cp_end_inbound"
  | (rule4) "ru_fd r = cp_output" "ru_direction r = Dir_Out" "ru_callback r = cp_rule4 K" "ru_cancel r = cp_end_inbound"
  using assms by (auto simp: cp_rules_def el_add_rule_def)

lemma cp_end_keeps:
  assumes "cp_inv acc got s k0 w"
  shows "cp_inv acc got s k0 (fst (cp_end_outbound w))" "cp_inv acc got s k0 (fst (cp_end_inbound w))"
  using assms by (auto simp: cp_inv_def cp_end_outbound_def cp_end_inbound_def cp_flow_end)

text \<open>The four rules keep the contract of the event loop.\<close>

sublocale copy_host \<subseteq> turns: event_handlers
  "cp_rules K" "cp_inv acc got s k0" "\<lambda>e. e \<noteq> el_busy_wait" "cp_poll K"
proof
  fix r :: "'k copy rule" and w w' res
  assume r: "r \<in> set (cp_rules K)" and i: "cp_inv acc got s k0 w" and c: "ru_callback r w = (w', res)"
  from r show "cp_inv acc got s k0 w'"
    by (cases rule: cp_rule_cases) (use c rule1_keeps(1) [OF i] rule2_keeps(1) [OF i] rule3_keeps(1) [OF i] rule4_keeps(1) [OF i] in auto)
next
  fix r :: "'k copy rule" and w w' e
  assume r: "r \<in> set (cp_rules K)" and i: "cp_inv acc got s k0 w" and c: "ru_callback r w = (w', Inl e)"
  from r show "e \<noteq> el_busy_wait"
    by (cases rule: cp_rule_cases) (use c rule1_keeps(2) [OF i] rule2_keeps(2) [OF i] rule3_keeps(2) [OF i] rule4_keeps(2) [OF i] in fastforce)+
next
  fix r :: "'k copy rule" and w w'
  assume r: "r \<in> set (cp_rules K)" and i: "cp_inv acc got s k0 w" and c: "ru_callback r w = (w', Inr ())"
  from r have "ru_service_count r w \<noteq> ru_service_count r w'"
    by (cases rule: cp_rule_cases)
      (use c rule1_keeps(3) [OF i] rule2_keeps(3) [OF i] rule3_keeps(3) [OF i] rule4_keeps(3) [OF i] in
        \<open>fastforce simp: ru_service_count_def\<close>)+
  then show "ru_service_count r w \<noteq> ru_service_count r w' \<or> \<not> ru_interest r w'" ..
next
  fix r :: "'k copy rule" and w w' res
  assume r: "r \<in> set (cp_rules K)" and i: "cp_inv acc got s k0 w" and c: "ru_cancel r w = (w', res)"
  from r show "cp_inv acc got s k0 w'"
    by (cases rule: cp_rule_cases) (use c cp_end_keeps [OF i] in simp_all)
next
  fix r :: "'k copy rule" and w w' e
  assume r: "r \<in> set (cp_rules K)" and c: "ru_cancel r w = (w', Inl e)"
  from r show "e \<noteq> el_busy_wait"
    by (cases rule: cp_rule_cases) (use c in \<open>simp_all add: cp_end_outbound_def cp_end_inbound_def\<close>)
next
  fix w w' :: "'k copy" and fds t ret revents
  assume i: "cp_inv acc got s k0 w" and p: "cp_poll K w fds t = (w', ret, revents)"
  have "w' = w\<lparr>cp_kernel := fst (sys_poll K (cp_kernel w) fds t)\<rparr>"
    using p by (auto simp: cp_poll_def split: prod.splits)
  then show "cp_inv acc got s k0 w'"
    using i kernel_copiesD(7) [OF kernel] kernel_accountsD(4) [OF kernel_copiesD(1) [OF kernel]] by (simp add: cp_inv_def)
qed

context copy_host
begin

lemma rounds_keep:
  assumes "set rules \<subseteq> set (cp_rules K)" and "cp_inv acc got s k0 w" and "cp_rounds n K w rules = (w', rules', r)"
  shows "cp_inv acc got s k0 w' \<and> r \<noteq> Inl el_busy_wait"
  using assms
proof (induction n arbitrary: w rules)
  case (Suc n)
  obtain w1 rules1 r1 where t: "wait_next_event (cp_poll K) rules w (-1) = (w1, rules1, r1)" by (metis surj_pair)
  note k = turns.wait_keeps [OF Suc.prems(1,2) t]
  show ?case
  proof (cases r1)
    case (Inl e)
    then show ?thesis using Suc.prems(3) t k by (auto simp: el_poll_error_def el_busy_wait_def)
  next
    case (Inr ret)
    then show ?thesis using Suc.prems(3) t k(1) Suc.IH [OF k(2,1)] by (auto split: if_splits)
  qed
qed auto

end

interpretation script_copy: copy_host script_kernel sc_out sc_in 3 k0 for k0
  by unfold_locales (simp_all add: script_kernel_copies STDIN_FILENO_def STDOUT_FILENO_def)

lemma cp_start_inv:
  assumes "kernel_copies K acc got" and "cp_start K k socket = (k', Inr w)"
  shows "cp_inv acc got (fw_fd socket) k w"
proof -
  have b: "acc (fst (fd_set_blocking K k f b)) = acc k" "got (fst (fd_set_blocking K k f b)) = got k" for k f b
    using kernel_copiesD(8-11) [OF assms(1)]
    by (auto simp: fd_set_blocking_def Let_def split: prod.splits sum.splits) (metis fst_conv)+
  obtain k1 r1 where 1: "fd_set_blocking K k socket False = (k1, r1)" by (metis surj_pair)
  let ?f = "\<lambda>n. \<lparr>fw_fd = n, fw_eof = False, fw_closed = False, fw_read_count = 0, fw_write_count = 0\<rparr>"
  obtain k2 r2 where 2: "fd_set_blocking K k1 (?f 0) False = (k2, r2)" by (metis surj_pair)
  obtain k3 r3 where 3: "fd_set_blocking K k2 (?f 1) False = (k3, r3)" by (metis surj_pair)
  have "acc k3 = acc k" "got k3 = got k"
    using b [of k socket False] b [of k1 "?f 0" False] b [of k2 "?f 1" False] 1 2 3 by simp_all
  moreover have "w = \<lparr>cp_kernel = k3, cp_socket = socket, cp_input = ?f 0, cp_output = ?f 1,
      cp_outbound = ByteStream cp_buffer_size, cp_inbound = ByteStream cp_buffer_size,
      cp_outbound_shutdown = False, cp_inbound_shutdown = False\<rparr>"
    using assms(2) 1 2 3
    by (auto simp: cp_start_def FDWrapper_def STDIN_FILENO_def STDOUT_FILENO_def split: sum.splits)
  ultimately show ?thesis by (simp add: cp_inv_def cp_flow_start STDIN_FILENO_def STDOUT_FILENO_def)
qed

text \<open>Whatever the loop returns is the result of some number of rounds.\<close>

lemma cp_loop_rounds:
  "cp_loop K w rules = Some (w', rules', r) \<Longrightarrow>
   \<exists>n. cp_rounds n K w rules = (w', rules', case r of Inl e \<Rightarrow> Inl e | Inr _ \<Rightarrow> Inr True)"
proof -
  have "case p of (w', rules', r) \<Rightarrow>
      \<exists>n. cp_rounds n K w rules = (w', rules', case r of Inl e \<Rightarrow> Inl e | Inr _ \<Rightarrow> Inr True)"
    if "cp_loop K w rules = Some p" for p
    using that
  proof (induction rule: cp_loop.raw_induct [rotated, consumes 1])
    case (1 f K w rules p)
    obtain w1 rules1 r1 where t: "wait_next_event (cp_poll K) rules w (-1) = (w1, rules1, r1)" by (metis surj_pair)
    consider "\<exists>e. r1 = Inl e" | "r1 = Inr Result_Exit" | ret where "r1 = Inr ret" "ret \<noteq> Result_Exit" by (cases r1) auto
    then show ?case
    proof cases
      case 3
      then have "f K w1 rules1 = Some p" using 1(2) t by simp
      from 1(1) [OF this] obtain n where n: "case p of (w', rules', r) \<Rightarrow>
        cp_rounds n K w1 rules1 = (w', rules', case r of Inl e \<Rightarrow> Inl e | Inr _ \<Rightarrow> Inr True)" by (cases p) auto
      then show ?thesis using 3 t by (cases p) (auto intro!: exI [of _ "Suc n"])
    qed (use 1(2) t in \<open>auto intro!: exI [of _ "Suc 0"]\<close>)
  qed
  then show "cp_loop K w rules = Some (w', rules', r) \<Longrightarrow> ?thesis" by fastforce
qed

section \<open>Properties\<close>

text \<open>
  C18. The copying loop conserves the bytes of both directions. Whatever the kernel does, after every number of
  rounds and when the loop returns: the bytes accepted on the socket, then those in the
  outbound stream, are a prefix of the bytes read from standard input, and all of them as long as the
  stream is open; the same from the socket to standard output; and no busy wait is ever detected.
\<close>

theorem cp_conserves:
  assumes "kernel_copies K acc got" and "fw_fd socket \<noteq> STDIN_FILENO" and "fw_fd socket \<noteq> STDOUT_FILENO"
    and "cp_start K k socket = (k1, Inr w0)"
  shows "(case cp_rounds n K w0 (cp_rules K) of (w, rules, r) \<Rightarrow>
      cp_inv acc got (fw_fd socket) k w \<and> r \<noteq> Inl el_busy_wait) \<and>
    (\<forall>w rules r. cp_loop K w0 (cp_rules K) = Some (w, rules, r) \<longrightarrow>
      cp_inv acc got (fw_fd socket) k w \<and> r \<noteq> Inl el_busy_wait)"
proof -
  have h: "copy_host K acc got (fw_fd socket)" using assms(1-3) by (simp add: copy_host_def)
  note keep = copy_host.rounds_keep [OF h subset_refl cp_start_inv [OF assms(1,4)]]
  obtain w rules r where n: "cp_rounds n K w0 (cp_rules K) = (w, rules, r)" by (metis surj_pair)
  moreover have "cp_inv acc got (fw_fd socket) k w \<and> r \<noteq> Inl el_busy_wait"
    if "cp_loop K w0 (cp_rules K) = Some (w, rules, r)" for w rules r
    using cp_loop_rounds [OF that] keep by (cases r) fastforce+
  ultimately show ?thesis using keep [OF n] by simp
qed

definition cp_script :: script where
  "cp_script = script_empty\<lparr>sc_reads := [[1, 2, 3]], sc_polls := [[POLLIN, 0, 0, 0], [0, POLLOUT, 0, 0]]\<rparr>"

theorem cp_conserves_witness:
  "\<exists>k1 w0. cp_start script_kernel cp_script (fd_example 3) = (k1, Inr w0) \<and>
     (case cp_rounds 2 script_kernel w0 (cp_rules script_kernel) of (w, rules, r) \<Rightarrow>
        cp_inv sc_out sc_in 3 cp_script w \<and> r \<noteq> Inl el_busy_wait)"
proof -
  have "(case snd (cp_start script_kernel cp_script (fd_example 3)) of Inl _ \<Rightarrow> False | Inr _ \<Rightarrow> True)" by code_simp
  then obtain k1 w0 where s: "cp_start script_kernel cp_script (fd_example 3) = (k1, Inr w0)"
    by (cases "cp_start script_kernel cp_script (fd_example 3)") (auto split: sum.splits)
  from cp_conserves [OF script_kernel_copies _ _ this, of 2] show ?thesis
    using s by (auto simp: fd_example_def STDIN_FILENO_def STDOUT_FILENO_def)
qed

text \<open>
  The loop ends: once standard input and the socket have reached their ends, both streams are drained,
  the socket was shut down for writing and standard output closed, it returns without another poll.
\<close>

theorem cp_loop_ends:
  assumes "fw_eof (cp_input w)" and "fw_eof (cp_socket w)" and "bs_eof (cp_outbound w)" and "cp_outbound_shutdown w"
    and "fw_closed (cp_output w)"
  shows "\<exists>w' rules. cp_loop K w (cp_rules K) = Some (w', rules, Inr ()) \<and> cp_kernel w' = cp_kernel w"
  using assms
  by (subst cp_loop.simps) (auto simp: wait_next_event_def cp_rules_def el_add_rule_def cp_end_outbound_def cp_end_inbound_def
    bs_eof_def bs_end_input_def bs_buffer_empty_def Let_def)

definition cp_done :: "script copy" where
  "cp_done = \<lparr>cp_kernel = script_empty, cp_socket = (fd_example 3)\<lparr>fw_eof := True\<rparr>,
     cp_input = (fd_example 0)\<lparr>fw_eof := True\<rparr>, cp_output = (fd_example 1)\<lparr>fw_closed := True\<rparr>,
     cp_outbound = bs_end_input (ByteStream cp_buffer_size), cp_inbound = bs_end_input (ByteStream cp_buffer_size),
     cp_outbound_shutdown = True, cp_inbound_shutdown = True\<rparr>"

theorem cp_loop_ends_witness:
  "\<exists>w' rules. cp_loop script_kernel cp_done (cp_rules script_kernel) = Some (w', rules, Inr ()) \<and> cp_kernel w' = script_empty"
  using cp_loop_ends [of cp_done script_kernel]
  by (simp add: cp_done_def bs_end_input_def ByteStream_def bs_eof_def bs_buffer_empty_def)

end
