(* ===== verification/Tcpdump.thy ===== *)
theory Tcpdump
  imports TCP_Segment Strings
begin

text \<open>
  \<open>apps/udp_tcpdump.cc\<close>, which prints captured UDP packets that carry TCP segments, and \<open>hexdump\<close> of
  \<open>util/util.cc\<close>. A packet is the list of its captured bytes (\<open>caplen\<close> is its length, at most the 65535 the
  program asks for); an access outside of it is \<open>Undefined_Behaviour\<close>. \<open>inet_ntop\<close> is a parameter, as are the
  packets that the capture library delivers; the set-up of the capture is not modelled.
\<close>

unbundle bit_operations_syntax

section \<open>Arguments\<close>

datatype td_args = Td_Exit int | Td_Run nat "string option"

text \<open>\<open>curr\<close> (here \<open>cur\<close>) indexes \<open>argv\<close>, whose length is \<open>argc\<close>; \<open>strncmp\<close> with the terminator is equality.\<close>

function td_parse_arguments :: "string list \<Rightarrow> nat \<Rightarrow> string option \<Rightarrow> td_args" where
  "td_parse_arguments argv cur dev =
    (if cur < length argv then
       if argv ! cur = ''-i'' then
         if cur + 1 \<ge> length argv then Td_Exit 1
         else td_parse_arguments argv (cur + 2) (Some (argv ! (cur + 1)))
       else if argv ! cur = ''-h'' \<or> argv ! cur = ''--help'' then Td_Exit 0
       else Td_Run cur dev
     else Td_Run cur dev)"
  by pat_completeness auto
termination by (relation "measure (\<lambda>(argv, cur, dev). length argv - cur)") auto

declare td_parse_arguments.simps [simp del]

text \<open>The filter expression is made of the arguments from \<open>exp_start\<close> on, each followed by a blank.\<close>

definition td_filter_expression :: "string list \<Rightarrow> nat \<Rightarrow> string" where
  "td_filter_expression argv exp_start = concat (map (\<lambda>a. a @ '' '') (drop exp_start argv))"

section \<open>Addresses and headers\<close>

definition td_at :: "bytes \<Rightarrow> int \<Rightarrow> exn + u8" where
  "td_at data i = (if 0 \<le> i \<and> i < int (length data) then Inr (data ! nat i)
     else Inl (Undefined_Behaviour ''data[i] outside of the packet''))"

type_synonym ntop = "bytes \<Rightarrow> string option"

text \<open>\<open>inet4_addr\<close> and \<open>inet6_addr\<close>: the \<open>n\<close> bytes of an address at an offset.\<close>

definition td_addr :: "ntop \<Rightarrow> nat \<Rightarrow> bytes \<Rightarrow> nat \<Rightarrow> exn + string" where
  "td_addr ntop n data off =
    (if off + n \<le> length data
     then Inr (case ntop (take n (drop off data)) of None \<Rightarrow> ''unknown'' | Some s \<Rightarrow> s)
     else Inl (Undefined_Behaviour ''address outside of the packet''))"

definition inet4_addr :: "ntop \<Rightarrow> bytes \<Rightarrow> nat \<Rightarrow> exn + string" where
  "inet4_addr ntop data off = td_addr ntop 4 data off"

definition inet6_addr :: "ntop \<Rightarrow> bytes \<Rightarrow> nat \<Rightarrow> exn + string" where
  "inet6_addr ntop data off = td_addr ntop 16 data off"

lemma td_extension_progress:
  "\<not> len < 10 + (off + 8 * uint (l :: u8)) \<Longrightarrow> off < len" "- 1 < uint (l :: u8)"
  using uint_ge_0 [of l] by linarith+

text \<open>
  The loop over the extension headers of IPv6: \<open>Inr (Inl m)\<close> is the return value -1 after the message \<open>m\<close>,
  \<open>Inr (Inr n)\<close> the offset of the UDP header. Every round moves the offset up, and it stays below \<open>len\<close>.
\<close>

function td_extensions :: "int \<Rightarrow> bytes \<Rightarrow> u8 \<Rightarrow> int \<Rightarrow> exn + (string + int)" where
  "td_extensions len data nxt data_offset =
    (if nxt = 0x11 then Inr (Inr data_offset)
     else if nxt \<noteq> 0 \<and> nxt \<noteq> 43 \<and> nxt \<noteq> 60 then Inr (Inl ''Not UDP or fragmented; '')
     else
       case td_at data data_offset of
         Inl e \<Rightarrow> Inl e
       | Inr nxt \<Rightarrow>
           (case td_at data (data_offset + 1) of
              Inl e \<Rightarrow> Inl e
            | Inr l \<Rightarrow>
                let data_offset = data_offset + 8 * (1 + int (unat l))
                in if len < data_offset + 2 then Inr (Inl '''') else td_extensions len data nxt data_offset))"
  by pat_completeness auto
termination by (relation "measure (\<lambda>(len, data, nxt, data_offset). nat (len - data_offset))")
    (auto dest: td_extension_progress(1) simp: td_extension_progress(2))

declare td_extensions.simps [simp del]

definition process_ipv4_ipv6 :: "ntop \<Rightarrow> ntop \<Rightarrow> int \<Rightarrow> bytes \<Rightarrow> exn + (string + int \<times> string \<times> string)" where
  "process_ipv4_ipv6 ntop4 ntop6 len data =
    (if len < 1 then Inr (Inl '''')
     else exn_bind (td_at data 0) (\<lambda>b.
       let pt = b AND 0xf0
       in if pt = 0x40 then
            let data_offset = int (unat (b AND 0x0f)) * 4
            in if len < data_offset then Inr (Inl '''')
               else exn_bind (td_at data 9) (\<lambda>proto.
                 if proto \<noteq> 0x11 then Inr (Inl ''Not UDP; '')
                 else exn_bind (inet4_addr ntop4 data 12) (\<lambda>src_addr.
                      exn_bind (inet4_addr ntop4 data 16) (\<lambda>dst_addr.
                      Inr (Inr (data_offset + 8, src_addr, dst_addr)))))
          else if pt = 0x60 then
            if len < 42 then Inr (Inl '''')
            else exn_bind (td_at data 6) (\<lambda>nxt.
                 exn_bind (td_extensions len data nxt 40) (\<lambda>r.
                 case r of
                   Inl m \<Rightarrow> Inr (Inl m)
                 | Inr data_offset \<Rightarrow>
                     exn_bind (inet6_addr ntop6 data 8) (\<lambda>src_addr.
                     exn_bind (inet6_addr ntop6 data 24) (\<lambda>dst_addr.
                     Inr (Inr (data_offset + 8, src_addr, dst_addr))))))
          else Inr (Inl '''')))"

text \<open>Where the IP header starts, by the type of the link.\<close>

datatype td_link = DLT_NULL | DLT_RAW | DLT_EN10MB | DLT_LINUX_SLL | DLT_LINUX_SLL2 | DLT_OTHER

datatype td_step = Continue string | Failure string | Header nat

abbreviation newline :: string where "newline \<equiv> [CHR 0x0A]"

definition td_malformed :: td_step where
  "td_malformed = Continue (''[INFO] Skipping malformed packet.'' @ newline)"

definition td_non_ip :: td_step where
  "td_non_ip = Continue (''[INFO] Skipping non-IP packet.'' @ newline)"

text \<open>A link header of \<open>hdr_off\<close> bytes with the two bytes of its Ethernet type at \<open>i\<close>.\<close>

definition td_ethertype :: "bytes \<Rightarrow> nat \<Rightarrow> int \<Rightarrow> exn + td_step" where
  "td_ethertype pkt_data hdr_off i =
    (if length pkt_data < hdr_off then Inr td_malformed
     else exn_bind (td_at pkt_data i) (\<lambda>hi.
          exn_bind (td_at pkt_data (i + 1)) (\<lambda>lo.
          let pt = push_bit 8 (ucast hi) OR ucast lo :: u16
          in Inr (if pt \<noteq> 0x0800 \<and> pt \<noteq> 0x86dd then td_non_ip else Header hdr_off))))"

fun td_link_header :: "td_link \<Rightarrow> bytes \<Rightarrow> exn + td_step" where
  "td_link_header DLT_NULL pkt_data =
    (if length pkt_data < 4 then Inr td_malformed
     else exn_bind (td_at pkt_data 3) (\<lambda>pt.
          Inr (if pt \<noteq> 2 \<and> pt \<noteq> 24 \<and> pt \<noteq> 28 \<and> pt \<noteq> 30 then td_non_ip else Header 4)))"
| "td_link_header DLT_EN10MB pkt_data = td_ethertype pkt_data 14 12"
| "td_link_header DLT_LINUX_SLL pkt_data = td_ethertype pkt_data 16 14"
| "td_link_header DLT_LINUX_SLL2 pkt_data = td_ethertype pkt_data 20 0"
| "td_link_header DLT_RAW pkt_data = Inr (Header 0)"
| "td_link_header DLT_OTHER pkt_data = Inr (Failure ''Mysterious datalink type. Giving up.'')"

section \<open>Output\<close>

text \<open>
  \<open>hexdump\<close>. The string stream \<open>pchars\<close> is set to a blank, and what is written to it starts at its front: it
  holds the blank only as long as nothing was written.
\<close>

definition td_isprint :: "u8 \<Rightarrow> bool" where
  "td_isprint b \<longleftrightarrow> 32 \<le> b \<and> b \<le> 126"

definition hd_pchars :: "string \<Rightarrow> string" where
  "hd_pchars written = (if written = [] then '' '' else written)"

fun hd_bytes :: "nat \<Rightarrow> bytes \<Rightarrow> nat \<Rightarrow> string \<Rightarrow> string \<times> nat \<times> string" where
  "hd_bytes indent [] printed pchars = ('''', printed, pchars)"
| "hd_bytes indent (b # data) printed pchars =
    (let line = (if printed mod 16 = 0
                 then (if printed \<noteq> 0 then ''    '' @ hd_pchars pchars @ newline else '''') @
                      replicate indent (CHR '' '') @ setw 8 (CHR ''0'') (hex_string printed) @ '':    ''
                 else if printed mod 2 = 0 then '' '' else '''');
         pchars = (if printed mod 16 = 0 \<and> printed \<noteq> 0 then '''' else pchars);
         byte = setw 2 (CHR ''0'') (hex_string (unat b));
         pchars = pchars @ [if td_isprint b then char_of (unat b) else CHR ''.''];
         (out, printed, pchars) = hd_bytes indent data (printed + 1) pchars
     in (line @ byte @ out, printed, pchars))"

definition hexdump :: "bytes \<Rightarrow> nat \<Rightarrow> string" where
  "hexdump data indent =
    (let (out, printed, pchars) = hd_bytes indent data 0 '''';
         print_rem = (16 - printed mod 16) mod 16
     in out @ replicate (2 * print_rem + print_rem div 2 + 4) (CHR '' '') @ hd_pchars pchars @ newline @ newline)"

definition td_flags :: "tcp_header \<Rightarrow> string" where
  "td_flags h =
    (if th_urg h then ''U'' else '''') @ (if th_psh h then ''P'' else '''') @ (if th_rst h then ''R'' else '''') @
    (if th_syn h then ''S'' else '''') @ (if th_fin h then ''F'' else '''') @ (if th_ack h then ''.'' else '''')"

definition td_summary :: "string \<Rightarrow> string \<Rightarrow> tcp_segment \<Rightarrow> parse_result \<Rightarrow> u64 \<Rightarrow> string" where
  "td_summary src dst seg res payload_len =
    (let h = seg_header seg; seqlen = ucast (seg_length_in_sequence_space seg) :: u32
     in src @ '':'' @ dec_string (unat (th_sport h)) @ '' > '' @ dst @ '':'' @ dec_string (unat (th_dport h)) @
        newline @ ''    Flags ['' @ td_flags h @ ''] cksum 0x'' @ setw 4 (CHR ''0'') (hex_string (unat (th_cksum h))) @
        (if res = NoError then '' (correct)'' else '' (incorrect!)'') @
        '' seq '' @ dec_string (unat (raw_value (th_seqno h))) @
        (if seqlen > 0 then '':'' @ dec_string (unat (raw_value (th_seqno h) + seqlen)) else '''') @
        '' ack '' @ dec_string (unat (raw_value (th_ackno h))) @ '' win '' @ dec_string (unat (th_win h)) @
        '' length '' @ dec_string (unat payload_len) @ newline)"

section \<open>One packet\<close>

text \<open>
  What the loop does with a packet: goes on after a message on the error stream, gives up, or prints. The
  length of the payload is computed without a sign; a payload that would start past the
  end of the packet is an access outside of it.
\<close>

datatype td_action = Skipped string | Gave_Up string | Shown string

definition td_show :: "bytes \<Rightarrow> nat \<Rightarrow> int \<Rightarrow> string \<Rightarrow> string \<Rightarrow> exn + td_action" where
  "td_show pkt_data hdr_off start_off src dst =
    (let payload_off = of_nat hdr_off + of_int start_off :: u64;
         payload_len = str_size pkt_data - payload_off
     in if unat payload_off + unat payload_len > length pkt_data
        then Inl (Undefined_Behaviour ''payload outside of the packet'')
        else
          let payload = take (unat payload_len) (drop (unat payload_off) pkt_data);
              (res, seg) = seg_parse TCPSegment (Buffer payload) 0
          in Inr (Shown
               ((if res \<noteq> NoError \<and> res \<noteq> BadChecksum
                 then ''(did not recognize TCP header) src: '' @ src @ '' dst: '' @ dst @ newline
                 else td_summary src dst seg res payload_len) @ hexdump payload 8)))"

definition td_packet :: "ntop \<Rightarrow> ntop \<Rightarrow> td_link \<Rightarrow> bytes \<Rightarrow> exn + td_action" where
  "td_packet ntop4 ntop6 dl_type pkt_data =
    exn_bind (td_link_header dl_type pkt_data) (\<lambda>st.
      case st of
        Continue m \<Rightarrow> Inr (Skipped m)
      | Failure m \<Rightarrow> Inr (Gave_Up m)
      | Header hdr_off \<Rightarrow>
          exn_bind (process_ipv4_ipv6 ntop4 ntop6 (int (length pkt_data) - int hdr_off) (drop hdr_off pkt_data)) (\<lambda>r.
            case r of
              Inl m \<Rightarrow> Inr (Skipped (m @ ''Error parsing IPv4/IPv6 packet. Skipping.'' @ newline))
            | Inr (start_off, src, dst) \<Rightarrow> td_show pkt_data hdr_off start_off src dst))"

section \<open>Memory safety\<close>

lemma td_at_Inr: "0 \<le> i \<Longrightarrow> i < int (length data) \<Longrightarrow> td_at data i = Inr (data ! nat i)"
  by (simp add: td_at_def)

lemma td_addr_Inr: "off + n \<le> length data \<Longrightarrow>
  td_addr ntop n data off = Inr (case ntop (take n (drop off data)) of None \<Rightarrow> ''unknown'' | Some s \<Rightarrow> s)"
  by (simp add: td_addr_def)

lemma td_extensions_safe:
  assumes "0 \<le> off" and "off + 2 \<le> int (length data)"
  shows "\<exists>r. td_extensions (int (length data)) data nxt off = Inr r \<and>
    (\<forall>n. r = Inr n \<longrightarrow> off \<le> n \<and> n + 2 \<le> int (length data))"
  using assms
proof (induction "int (length data)" data nxt off rule: td_extensions.induct)
  case (1 data nxt off)
  let ?l = "data ! nat (off + 1)" and ?n = "data ! nat off"
  let ?off = "off + 8 * (1 + int (unat ?l))"
  have at: "td_at data off = Inr ?n" "td_at data (off + 1) = Inr ?l"
    using "1.prems" by (simp_all add: td_at_Inr)
  show ?case
  proof (cases "(nxt = 0 \<or> nxt = 43 \<or> nxt = 60) \<and> \<not> int (length data) < ?off + 2")
    case True
    then have x: "nxt \<noteq> 0x11" "\<not> (nxt \<noteq> 0 \<and> nxt \<noteq> 43 \<and> nxt \<noteq> 60)" "\<not> int (length data) < ?off + 2" by auto
    then have "td_extensions (int (length data)) data nxt off = td_extensions (int (length data)) data ?n ?off"
      using at by (subst td_extensions.simps) (auto simp: Let_def)
    moreover have "0 \<le> ?off" "?off + 2 \<le> int (length data)" "off \<le> ?off" using x(3) "1.prems"(1) by auto
    ultimately show ?thesis using "1.hyps" [OF x(1,2) at refl x(3)] by (metis order_trans)
  next
    case False
    then show ?thesis using at "1.prems" by (subst td_extensions.simps) (auto simp: Let_def)
  qed
qed

text \<open>The packets for which \<open>process_ipv4_ipv6\<close> reads outside of the packet.\<close>

definition td_short_ipv4 :: "bytes \<Rightarrow> bool" where
  "td_short_ipv4 data \<longleftrightarrow> data \<noteq> [] \<and> hd data AND 0xf0 = 0x40 \<and> 4 * unat (hd data AND 0x0f) \<le> length data \<and>
     (length data < 10 \<or> data ! 9 = 0x11 \<and> length data < 20)"

lemma td_ihl: "int n < uint (w :: u8) * 4 \<longleftrightarrow> n < 4 * unat w"
  by (simp only: uint_nat) linarith

lemma td_process_cases:
  shows "td_short_ipv4 data \<Longrightarrow> \<exists>e. process_ipv4_ipv6 ntop4 ntop6 (int (length data)) data = Inl e"
    and "\<not> td_short_ipv4 data \<Longrightarrow> \<exists>r. process_ipv4_ipv6 ntop4 ntop6 (int (length data)) data = Inr r \<and>
      (\<forall>n src dst. r = Inr (n, src, dst) \<longrightarrow> 8 \<le> n \<and> n \<le> int (length data) + 8)"
proof -
  assume s: "td_short_ipv4 data"
  then have "data \<noteq> []" by (simp add: td_short_ipv4_def)
  then have at: "td_at data 0 = Inr (hd data)" by (simp add: td_at_def hd_conv_nth)
  show "\<exists>e. process_ipv4_ipv6 ntop4 ntop6 (int (length data)) data = Inl e"
    using s at by (auto simp: process_ipv4_ipv6_def td_short_ipv4_def Let_def td_at_def inet4_addr_def td_addr_def td_ihl)
next
  assume s: "\<not> td_short_ipv4 data"
  show "\<exists>r. process_ipv4_ipv6 ntop4 ntop6 (int (length data)) data = Inr r \<and>
    (\<forall>n src dst. r = Inr (n, src, dst) \<longrightarrow> 8 \<le> n \<and> n \<le> int (length data) + 8)"
  proof (cases "data = []")
    case False
    then have at: "td_at data 0 = Inr (hd data)" by (simp add: td_at_def hd_conv_nth)
    consider "hd data AND 0xf0 = 0x40" | "hd data AND 0xf0 = 0x60" "42 \<le> length data"
      | "hd data AND 0xf0 \<noteq> 0x40" "\<not> (hd data AND 0xf0 = 0x60 \<and> 42 \<le> length data)" by linarith
    then show ?thesis
    proof cases
      case 1
      have b: "0 \<le> uint (hd data AND 0x0f)" by simp
      show ?thesis
      proof (cases "length data < 4 * unat (hd data AND 0x0f)")
        case True
        then show ?thesis using 1 at False by (auto simp: process_ipv4_ipv6_def Let_def td_ihl)
      next
        case fits: False
        then have "10 \<le> length data" "data ! 9 = 0x11 \<Longrightarrow> 20 \<le> length data"
          using s 1 False by (auto simp: td_short_ipv4_def)
        then show ?thesis
          using 1 at False fits b td_ihl [of "length data" "hd data AND 0x0f"]
          by (auto simp: process_ipv4_ipv6_def Let_def td_at_Inr inet4_addr_def td_addr_Inr)
      qed
    next
      case 2
      obtain r where r: "td_extensions (int (length data)) data (data ! 6) 40 = Inr r"
        "\<forall>n. r = Inr n \<longrightarrow> 40 \<le> n \<and> n + 2 \<le> int (length data)"
        using td_extensions_safe [of 40 data "data ! 6"] 2(2) by auto
      have "td_at data 6 = Inr (data ! 6)" using 2(2) by (simp add: td_at_def)
      then show ?thesis
        using 2 at r False
        by (cases r) (auto simp: process_ipv4_ipv6_def Let_def inet6_addr_def td_addr_Inr)
    next
      case 3
      then show ?thesis using at False by (auto simp: process_ipv4_ipv6_def Let_def)
    qed
  qed (simp add: process_ipv4_ipv6_def)
qed

lemma td_link_header_safe:
  "\<exists>st. td_link_header dl_type pkt_data = Inr st \<and> (\<forall>off. st = Header off \<longrightarrow> off \<le> length pkt_data \<and> off \<le> 20)"
  by (cases dl_type) (auto simp: td_ethertype_def td_at_def td_malformed_def td_non_ip_def Let_def)

lemma td_show_cases:
  assumes "length pkt_data < 2 ^ 62" and "hdr_off \<le> 20" and "0 \<le> start_off" and "start_off \<le> int (length pkt_data) + 8"
  shows "length pkt_data < hdr_off + nat start_off \<Longrightarrow> \<exists>e. td_show pkt_data hdr_off start_off src dst = Inl e"
    and "hdr_off + nat start_off \<le> length pkt_data \<Longrightarrow> td_show pkt_data hdr_off start_off src dst =
      (let payload = drop (hdr_off + nat start_off) pkt_data;
           (res, seg) = seg_parse TCPSegment (Buffer payload) 0
       in Inr (Shown
            ((if res \<noteq> NoError \<and> res \<noteq> BadChecksum
              then ''(did not recognize TCP header) src: '' @ src @ '' dst: '' @ dst @ newline
              else td_summary src dst seg res (str_size payload)) @ hexdump payload 8)))"
proof -
  let ?o = "hdr_off + nat start_off"
  let ?off = "of_nat hdr_off + of_int start_off :: u64"
  have "?off = of_nat ?o" using assms(3) by simp
  moreover have "?o < 2 ^ 63" using assms by simp
  ultimately have off: "unat ?off = ?o" using unat_of_nat_small [of ?o] by simp
  have n: "unat (str_size pkt_data) = length pkt_data" using assms(1) by (intro unat_str_size) simp
  show "\<exists>e. td_show pkt_data hdr_off start_off src dst = Inl e" if lt: "length pkt_data < ?o"
  proof -
    have "unat (str_size pkt_data - ?off) = 2 ^ 64 + length pkt_data - ?o"
      using lt off n unat_sub_if' [of "str_size pkt_data" ?off] by simp
    then have "length pkt_data < unat ?off + unat (str_size pkt_data - ?off)" using off lt by simp
    then show ?thesis unfolding td_show_def Let_def by simp
  qed
  assume le: "?o \<le> length pkt_data"
  then have d: "unat (str_size pkt_data - ?off) = length pkt_data - ?o"
    using off n by (subst unat_diff_no_wrap) simp_all
  then have "str_size pkt_data - ?off = str_size (drop ?o pkt_data)"
    using assms(1) by (simp add: word_unat_eq_iff unat_str_size)
  then show "td_show pkt_data hdr_off start_off src dst =
      (let payload = drop ?o pkt_data;
           (res, seg) = seg_parse TCPSegment (Buffer payload) 0
       in Inr (Shown
            ((if res \<noteq> NoError \<and> res \<noteq> BadChecksum
              then ''(did not recognize TCP header) src: '' @ src @ '' dst: '' @ dst @ newline
              else td_summary src dst seg res (str_size payload)) @ hexdump payload 8)))"
    using d off le unfolding td_show_def Let_def by (simp add: case_prod_beta)
qed

section \<open>Packets with a segment\<close>

text \<open>A captured packet: a link header, an IPv4 header (with its options) for UDP, a UDP header, and the payload.\<close>

definition td_udp_packet :: "td_link \<Rightarrow> bytes \<Rightarrow> bytes \<Rightarrow> bytes \<Rightarrow> bytes \<Rightarrow> bool" where
  "td_udp_packet dl_type lh ip udp payload \<longleftrightarrow>
     td_link_header dl_type (lh @ ip @ udp @ payload) = Inr (Header (length lh)) \<and>
     20 \<le> length ip \<and> hd ip AND 0xf0 = 0x40 \<and> length ip = 4 * unat (hd ip AND 0x0f) \<and> ip ! 9 = 0x11 \<and>
     length udp = 8 \<and> length payload < 2 ^ 32"

definition td_name :: "ntop \<Rightarrow> bytes \<Rightarrow> string" where
  "td_name ntop a = (case ntop a of None \<Rightarrow> ''unknown'' | Some s \<Rightarrow> s)"

lemma td_udp_packet_shown:
  assumes "td_udp_packet dl_type lh ip udp payload" and "seg_parse TCPSegment (Buffer payload) 0 = (res, seg)"
    and "res = NoError \<or> res = BadChecksum"
  shows "td_packet ntop4 ntop6 dl_type (lh @ ip @ udp @ payload) =
    Inr (Shown (td_summary (td_name ntop4 (take 4 (drop 12 ip))) (td_name ntop4 (take 4 (drop 16 ip))) seg res
      (str_size payload) @ hexdump payload 8))"
proof -
  let ?pkt = "lh @ ip @ udp @ payload" and ?d = "ip @ udp @ payload"
  let ?src = "td_name ntop4 (take 4 (drop 12 ip))" and ?dst = "td_name ntop4 (take 4 (drop 16 ip))"
  have ip: "20 \<le> length ip" "hd ip AND 0xf0 = 0x40" "length ip = 4 * unat (hd ip AND 0x0f)" "ip ! 9 = 0x11" "ip \<noteq> []"
    "length udp = 8" "length payload < 2 ^ 32"
    using assms(1) by (auto simp: td_udp_packet_def)
  have hdr: "td_link_header dl_type ?pkt = Inr (Header (length lh))" using assms(1) by (simp add: td_udp_packet_def)
  have lh: "length lh \<le> 20" using td_link_header_safe [of dl_type ?pkt] hdr by auto
  have at: "td_at ?d 0 = Inr (hd ip)" "td_at ?d 9 = Inr 0x11"
    using ip(1,4,5) by (simp_all add: td_at_def nth_append hd_conv_nth)
  have addr: "inet4_addr ntop4 ?d 12 = Inr ?src" "inet4_addr ntop4 ?d 16 = Inr ?dst"
    using ip(1) by (simp_all add: inet4_addr_def td_addr_Inr td_name_def)
  have ihl: "int (unat (hd ip AND 0x0f)) * 4 = int (length ip)" using ip(3) by simp
  have "process_ipv4_ipv6 ntop4 ntop6 (int (length ?d)) ?d = Inr (Inr (int (length ip) + 8, ?src, ?dst))"
    using ip(1,2) at addr ihl unfolding process_ipv4_ipv6_def Let_def by simp
  moreover have "int (length ?pkt) - int (length lh) = int (length ?d)" by simp
  moreover have "td_show ?pkt (length lh) (int (length ip) + 8) ?src ?dst =
    Inr (Shown (td_summary ?src ?dst seg res (str_size payload) @ hexdump payload 8))"
  proof -
    have "unat (hd ip AND 0x0f) < 256" by (rule unat_u8_bound)
    then have "length ?pkt < 2 ^ 62" using ip lh by simp
    moreover have "drop (length lh + nat (int (length ip) + 8)) ?pkt = payload" using ip(6) by (simp add: nat_add_distrib)
    ultimately show ?thesis
      using assms(2,3) lh ip(6) by (subst td_show_cases(2)) (auto simp: Let_def)
  qed
  ultimately show ?thesis unfolding td_packet_def using hdr by (simp del: length_append)
qed

section \<open>Properties\<close>

text \<open>
  C37. Memory safety of the packet dump, exactly: with fewer than $2^{31}$ captured bytes it reads outside of the packet
  if and only if the link header is accepted and what follows is an IPv4 packet shorter than the
  fields that are read of it (10 bytes, 20 for UDP), or the packet ends before its payload
  begins. In particular the walk over IPv6 extension headers always ends and stays inside.
\<close>

theorem td_packet_faults_iff:
  assumes "length pkt_data < 2 ^ 31"
  shows "(\<exists>e. td_packet ntop4 ntop6 dl_type pkt_data = Inl e) \<longleftrightarrow>
    (\<exists>off. td_link_header dl_type pkt_data = Inr (Header off) \<and>
      (td_short_ipv4 (drop off pkt_data) \<or>
       (\<exists>n src dst. process_ipv4_ipv6 ntop4 ntop6 (int (length (drop off pkt_data))) (drop off pkt_data) =
          Inr (Inr (n, src, dst)) \<and> int (length pkt_data) < int off + n)))"
proof -
  obtain st where st: "td_link_header dl_type pkt_data = Inr st"
    "\<forall>off. st = Header off \<longrightarrow> off \<le> length pkt_data \<and> off \<le> 20"
    using td_link_header_safe by blast
  show ?thesis
  proof (cases st)
    case (Header off)
    let ?d = "drop off pkt_data"
    have off: "off \<le> length pkt_data" "off \<le> 20" using st(2) Header by simp_all
    then have len: "int (length pkt_data) - int off = int (length ?d)" by simp
    note p = td_process_cases [of ?d ntop4 ntop6]
    show ?thesis
    proof (cases "td_short_ipv4 ?d")
      case True
      then show ?thesis using p(1) st(1) Header len by (auto simp: td_packet_def simp del: length_drop)
    next
      case False
      then obtain r where r: "process_ipv4_ipv6 ntop4 ntop6 (int (length ?d)) ?d = Inr r"
        "\<forall>n src dst. r = Inr (n, src, dst) \<longrightarrow> 8 \<le> n \<and> n \<le> int (length ?d) + 8" using p(2) by blast
      show ?thesis
      proof (cases r)
        case (Inl m)
        then show ?thesis using r(1) st(1) Header len False by (auto simp: td_packet_def simp del: length_drop)
      next
        case (Inr q)
        obtain n src dst where q: "q = (n, src, dst)" by (cases q) auto
        have n: "0 \<le> n" "n \<le> int (length pkt_data) + 8" using r(2) Inr q by auto
        have "(\<exists>e. td_show pkt_data off n src dst = Inl e) \<longleftrightarrow> int (length pkt_data) < int off + n"
          using td_show_cases [OF _ off(2) n, of src dst] assms n(1)
          by (cases "length pkt_data < off + nat n") (auto simp: Let_def case_prod_beta)
        then show ?thesis using r(1) st(1) Header len False Inr q by (auto simp: td_packet_def simp del: length_drop)
      qed
    qed
  qed (use st(1) in \<open>simp_all add: td_packet_def\<close>)
qed

text \<open>Two captured packets that make the program read outside of them: one byte, and a header without payload.\<close>

theorem td_packet_faults_iff_witness:
  "(\<exists>e. td_packet (\<lambda>_. None) (\<lambda>_. None) DLT_RAW [0x40] = Inl e) \<and>
   (\<exists>e. td_packet (\<lambda>_. None) (\<lambda>_. None) DLT_RAW ([0x45] @ replicate 8 0 @ [0x11] @ replicate 10 0) = Inl e)"
proof -
  have 1: "td_short_ipv4 (drop 0 [0x40])" by code_simp
  let ?p = "[0x45] @ replicate 8 0 @ [0x11] @ replicate 10 0 :: u8 list"
  have 2: "process_ipv4_ipv6 (\<lambda>_. None) (\<lambda>_. None) (int (length (drop 0 ?p))) (drop 0 ?p) = Inr (Inr (28, ''unknown'', ''unknown''))"
    by code_simp
  show ?thesis
    using td_packet_faults_iff [of "[0x40]" "\<lambda>_. None" "\<lambda>_. None" DLT_RAW]
      td_packet_faults_iff [of ?p "\<lambda>_. None" "\<lambda>_. None" DLT_RAW] 1 2 by auto
qed


definition td_example_link :: bytes where "td_example_link = replicate 12 0 @ [8, 0]"

definition td_example_ip :: bytes where "td_example_ip = [0x45] @ replicate 8 0 @ [0x11] @ replicate 10 0"

lemma td_example_packet:
  assumes "length payload < 2 ^ 32"
  shows "td_udp_packet DLT_EN10MB td_example_link td_example_ip (replicate 8 0) payload"
proof -
  have "td_at (td_example_link @ d) 12 = Inr 8" "td_at (td_example_link @ d) 13 = Inr 0" for d
    by (simp_all add: td_at_def td_example_link_def nth_append)
  moreover have "push_bit 8 (ucast (8 :: u8)) OR ucast (0 :: u8) = (0x0800 :: u16)" by code_simp
  moreover have "length td_example_link = 14" by (simp add: td_example_link_def)
  ultimately have "td_link_header DLT_EN10MB (td_example_link @ d) = Inr (Header 14)" for d
    by (simp add: td_ethertype_def Let_def)
  moreover have "20 = length td_example_ip" "hd td_example_ip AND 0xf0 = 0x40"
    "length td_example_ip = 4 * unat (hd td_example_ip AND 0x0f)" "td_example_ip ! 9 = 0x11" by code_simp+
  ultimately show ?thesis using assms by (simp add: td_udp_packet_def td_example_link_def)
qed


text \<open>
  A payload with a wrong checksum is not parsed, but printed all the same: the ports, the flags
  and the numbers of the line are those of an empty header, not of the packet.
\<close>

theorem td_wrong_checksum_shows_defaults:
  assumes "td_udp_packet dl_type lh ip udp payload" and "ck_value (ck_add (InternetChecksum 0) payload) \<noteq> 0"
  shows "td_packet ntop4 ntop6 dl_type (lh @ ip @ udp @ payload) =
    Inr (Shown (td_summary (td_name ntop4 (take 4 (drop 12 ip))) (td_name ntop4 (take 4 (drop 16 ip))) TCPSegment BadChecksum
      (str_size payload) @ hexdump payload 8))"
  using td_udp_packet_shown [OF assms(1), of BadChecksum TCPSegment] assms(2) by (simp add: seg_parse_def)

theorem td_wrong_checksum_shows_defaults_witness:
  "td_packet (\<lambda>_. None) (\<lambda>_. None) DLT_EN10MB (td_example_link @ td_example_ip @ replicate 8 0 @ replicate 20 7) =
     Inr (Shown (td_summary ''unknown'' ''unknown'' TCPSegment BadChecksum 20 @ hexdump (replicate 20 7) 8))"
proof -
  have "ck_value (ck_add (InternetChecksum 0) (replicate 20 7)) \<noteq> 0" by code_simp
  from td_wrong_checksum_shows_defaults [OF td_example_packet this, of "\<lambda>_. None" "\<lambda>_. None"] show ?thesis
    by (simp add: td_name_def str_size_def)
qed

text \<open>
  The usage text offers \<open>-F\<close> for a file with the filter expression; the argument and the name of the file are taken
  as the beginning of the expression.
\<close>

lemma td_no_file_option: "td_parse_arguments (arg0 # ''-F'' # args) 1 dev = Td_Run 1 dev"
  "td_filter_expression (arg0 # ''-F'' # args) 1 = ''-F '' @ concat (map (\<lambda>a. a @ '' '') args)"
  by (simp_all add: td_parse_arguments.simps td_filter_expression_def)

end
