(* ===== verification/Spec2Isabelle.thy ===== *)
theory Spec2Isabelle
  imports Router Sponge_Socket Benchmark Stream_Copy Tcpdump
begin

text \<open>
  A verification library for the sponge TCP/IP stack: a user-space TCP (libsponge), the network layers
  below it, and the socket that joins it to the operating system. This theory collects the others; file
  names below are relative to src/, and those of the classes to src/libsponge.

  \<^bold>\<open>The program and its model.\<close> Bytes travel through the stack as follows. An application writes to a
  \<open>ByteStream\<close>, \<open>TCPSender\<close> cuts the stream into segments and repeats them until they are acknowledged, and
  \<open>TCPReceiver\<close> puts the payloads of the other side in order with a \<open>StreamReassembler\<close>, whose output is
  again a \<open>ByteStream\<close>. \<open>TCPConnection\<close> owns a sender and a receiver and passes acknowledgments between
  them. Adapters carry its segments in UDP datagrams, in IPv4 datagrams over a TUN device, or in IPv4
  datagrams over Ethernet frames, for which \<open>NetworkInterface\<close> resolves addresses by ARP; \<open>Router\<close> forwards
  datagrams between such interfaces. \<open>TCPSpongeSocket\<close> runs a connection in a thread whose \<open>EventLoop\<close> waits
  for the adapter's descriptor and for the owner of the socket.

  Every class is a \<open>record\<close> with the fields of the class and every method a function on it, with the prefix
  of the class. A method that throws returns a sum, \<open>Inl\<close> the exception (\<open>exn\<close>), next to the state when it
  changes it before it throws; behaviour that C++ leaves undefined is the exception
  \<open>Undefined_Behaviour\<close>. Integers are words of their width, so that every wrap-around of the code is one of
  the model, and byte strings are lists of 8-bit words.

  \<^bold>\<open>Theories, in the order of the layers.\<close>
  \<^item> \<^bold>\<open>Sponge_Prelude\<close> and \<^bold>\<open>Strings\<close>: integer types, exceptions, \<open>substr\<close> and the number conversions of the standard
    library; the collections of rewrite rules and the facts on words and lists that the other theories share.
  \<^item> \<^bold>\<open>Wrapping_Integers\<close> (wrapping_integers.cc; \<open>wrap\<close>, \<open>unwrap\<close>): \<open>unwrap\<close> inverts \<open>wrap\<close> near the checkpoint, and where
    it does not. The interface \<open>seqno_codec\<close> is what sender and receiver use of it.
  \<^item> \<^bold>\<open>Byte_Stream\<close> (byte_stream.cc, prefix \<open>bs_\<close>): an abstract queue of bytes is refined, nothing is lost,
    repeated or reordered. The interface \<open>byte_channel\<close> is interpreted on the stream.
  \<^item> \<^bold>\<open>Stream_Reassembler\<close> (stream_reassembler.cc, \<open>sr_\<close>): \<open>push_substring\<close> refines a set of received
    positions; for pushes in any order the output is the stream; it completes when everything has arrived.
  \<^item> \<^bold>\<open>Net_Buffer\<close> (util/buffer.cc, \<open>buf_\<close>, \<open>bl_\<close>, \<open>bvl_\<close>), \<^bold>\<open>Net_Parser\<close> (util/parser.cc, \<open>np_\<close>, \<open>nu_\<close>) and
    \<^bold>\<open>Internet_Checksum\<close> (util/util.cc, \<open>ck_\<close>): packet memory, big-endian fields and checksums. The interface
    \<open>byte_container\<close> has the three buffer classes as instances, \<open>field_codec\<close> the three field widths.
  \<^item> \<^bold>\<open>TCP_Segment\<close> (tcp_helpers/tcp_header.cc, tcp_segment.cc, tcp_config.hh; \<open>th_\<close>, \<open>seg_\<close>): serializing and parsing are
    inverse to each other, and a damaged word is detected.
  \<^item> \<^bold>\<open>TCP_Receiver\<close> (tcp_receiver.cc, \<open>rx_\<close>), \<^bold>\<open>TCP_Sender\<close> (tcp_sender.cc, \<open>tm_\<close> and \<open>tx_\<close>) and
    \<^bold>\<open>TCP_Connection\<close> (tcp_connection.cc, tcp_helpers/tcp_state.cc; \<open>cn_\<close>, \<open>ts_\<close>): invariants of all reachable states
    (\<open>rx_reach\<close>, \<open>tx_reach\<close>, \<open>cn_reach\<close>), what each operation does on each branch, that everything sent is the
    stream that was written, and how a connection ends: cleanly, after lingering, or by giving up.
  \<^item> \<^bold>\<open>End_To_End\<close>: two connections and a network between them as a step relation (\<open>link_step\<close>) in which losses,
    delays and application calls interleave freely. What one side writes is what the other reads; the
    three-way handshake passes through the official states.
  \<^item> \<^bold>\<open>IPv4\<close> (tcp_helpers/ipv4_header.cc, ipv4_datagram.cc; \<open>ih_\<close>, \<open>dg_\<close>), \<^bold>\<open>Address\<close> (util/address.cc) and
    \<^bold>\<open>Ethernet\<close> (tcp_helpers/ethernet_header.cc, ethernet_frame.cc, arp_message.cc; \<open>eh_\<close>, \<open>ef_\<close>, \<open>am_\<close>): the formats, their
    round trips and their text forms.
  \<^item> \<^bold>\<open>Network_Interface\<close> (network_interface.cc, \<open>ni_\<close>) and \<^bold>\<open>Router\<close> (router.cc, \<open>ai_\<close>, \<open>rt_\<close>): address resolution,
    waiting datagrams, expiry; the routing loop is the longest-prefix match, and \<open>route\<close> empties its queues.
  \<^item> \<^bold>\<open>Adapters\<close> (tcp_helpers/fd_adapter.cc, lossy_fd_adapter.hh, tcp_over_ip.cc, tuntap_adapter.cc; \<open>udp_\<close>, \<open>tun_\<close>, \<open>ea_\<close>,
    \<open>lossy_\<close>): a segment that one adapter writes is the segment its peer reads.
  \<^item> \<^bold>\<open>File_Descriptor\<close> (util/file_descriptor.cc, \<open>fd_\<close>), \<^bold>\<open>Socket\<close> (util/socket.cc, util/tun.cc; \<open>so_\<close>) and
    \<^bold>\<open>Event_Loop\<close> (util/eventloop.cc, \<open>ru_\<close>, \<open>el_\<close>): descriptors over a kernel. The interface \<open>event_handlers\<close>
    states what a set of rules must keep for a round of the loop to keep it.
  \<^item> \<^bold>\<open>Sponge_Socket\<close> (tcp_helpers/tcp_sponge_socket.cc, \<open>ss_\<close>): the four rules, the loop and the calls that start it. A
    round moves the connection by its public operations only and conserves the bytes of the owner. The
    interface \<open>segment_adapter\<close> has the UDP and the TUN adapter as instances, \<open>sponge_host\<close> extends it
    and gives an instance of \<open>event_handlers\<close>.

  \<^bold>\<open>Code outside the repository.\<close> The operating system is a record of system calls on a state of its own
  (\<open>kernel\<close>); what the code relies on are the named hypotheses \<open>kernel_reads\<close>, \<open>kernel_writes\<close>, \<open>kernel_recvs\<close>,
  \<open>kernel_accounts\<close> and \<open>kernel_datagrams\<close> (a call returns no more than it was asked for, a successful write
  has taken the bytes it reports), and a kernel that plays back a script satisfies all of them. Name
  resolution (\<open>net_db\<close>), random numbers, the value of an undefined shift in \<open>Router\<close> and the flag \<open>_abort\<close>, which
  another thread sets, are arguments too.

  \<^bold>\<open>Bounds and termination.\<close> No function has fuel. Loops that always end are functions with a termination proof:
  the read-out of the reassembler, filling the window, folding a checksum, writing a buffer list, routing.
  The socket's loop need not end, so it is a \<open>partial_function\<close> into \<open>option\<close>, and that it returns under a
  stated condition is a theorem of its own. Theorems about whole streams assume fewer than
  $2^{31}$ or $2^{32}$ bytes, where sequence numbers are unambiguous, and strings shorter than $2^{63}$ bytes, the most
  that the standard library allows; formats assume what a 16-bit length field can say.

  \<^bold>\<open>What the model shows to be wrong.\<close> Some theorems state behaviour that is not intended, each with a
  concrete run: \<open>unwrap\<close> in the second block of $2^{32}$ numbers, data beyond the window of the reassembler, the
  window taken from an old acknowledgment (by which a byte can be lost), the queue of datagrams
  that waits for its first entry, a reset that arrives together with data of the owner, an aborted
  connection that sends no RST, an error of poll that is reported as success.

  \<^bold>\<open>Not modelled.\<close> Text made for people only (\<open>to_string\<close> and \<open>summary\<close> of the headers, \<open>hexdump\<close>), the clock
  and the seeding of the random generator; starting and joining the socket's thread, whose effect on the loop is
  the flag and the state of the kernel; the command-line programs of apps/, which parse arguments and
  combine the classes above; the tests.
\<close>

end
